(* ===== verification/Vmon_Prelude.thy ===== *)
theory Vmon_Prelude
  imports Main "HOL-Library.Word" "HOL-Library.Monad_Syntax"
begin

text \<open>
  What every component shares: the C integer types, the conversions and the truncating
  remainder of C, and byte-addressed memory. A memory access that C leaves undefined
  (out of the bounds of the object) is the value \<open>None\<close>.
\<close>

section \<open>Types and constants\<close>

type_synonym byte = "8 word"
type_synonym guint = "32 word"
type_synonym ull = "64 word"

named_theorems c_arith \<open>evaluation of the C integer operations inside their range\<close>
named_theorems mem_simps \<open>reads and writes of byte-addressed memory\<close>

definition INT_MAX :: int where
  "INT_MAX = 2147483647"

definition to_int32 :: "int \<Rightarrow> int" where
  \<comment> \<open>conversion of a value to the 32-bit \<open>int\<close>, two's complement\<close>
  "to_int32 x = sint (word_of_int x :: 32 word)"

definition c_div :: "int \<Rightarrow> int \<Rightarrow> int" where
  \<comment> \<open>C division truncates towards zero\<close>
  "c_div a b = sgn a * sgn b * (\<bar>a\<bar> div \<bar>b\<bar>)"

definition c_rem :: "int \<Rightarrow> int \<Rightarrow> int" where
  "c_rem a b = a - b * c_div a b"

lemma to_int32_range: "- (2 ^ 31) \<le> to_int32 x \<and> to_int32 x < 2 ^ 31"
  using sint_range_size [of "word_of_int x :: 32 word"]
  by (simp add: to_int32_def size_word.rep_eq)

lemma to_int32_alt: "to_int32 x = (x + 2 ^ 31) mod 2 ^ 32 - 2 ^ 31"
  by (simp add: to_int32_def sint_sbintrunc' signed_take_bit_eq_take_bit_shift take_bit_eq_mod)

lemma to_int32_id [c_arith]: "0 \<le> x \<Longrightarrow> x \<le> INT_MAX \<Longrightarrow> to_int32 x = x"
  by (simp add: to_int32_alt INT_MAX_def)

lemma to_int32_negative: "2 ^ 31 \<le> x \<Longrightarrow> x < 2 ^ 32 \<Longrightarrow> to_int32 x < 0"
proof -
  assume a: "2 ^ 31 \<le> x" "x < 2 ^ 32"
  have "(x + 2 ^ 31) mod 2 ^ 32 = x + 2 ^ 31 - 2 ^ 32"
    using mod_pos_pos_trivial [of "x + 2 ^ 31 - 2 ^ 32" "2 ^ 32"] a
      mod_add_self2 [of "x + 2 ^ 31 - 2 ^ 32" "2 ^ 32"] by (simp add: add.commute)
  then show "to_int32 x < 0" using a by (simp add: to_int32_alt)
qed

lemma c_div_pos [c_arith]: "0 \<le> a \<Longrightarrow> 0 < b \<Longrightarrow> c_div a b = a div b"
  by (cases "a = 0") (simp_all add: c_div_def)

lemma c_rem_pos [c_arith]: "0 \<le> a \<Longrightarrow> 0 < b \<Longrightarrow> c_rem a b = a mod b"
  by (simp add: c_rem_def c_div_pos minus_mult_div_eq_mod)

section \<open>Memory\<close>

definition mem_read :: "'a list \<Rightarrow> int \<Rightarrow> nat \<Rightarrow> 'a list option" where
  "mem_read m off n =
     (if 0 \<le> off \<and> nat off + n \<le> length m then Some (take n (drop (nat off) m)) else None)"

definition mem_write :: "'a list \<Rightarrow> int \<Rightarrow> 'a list \<Rightarrow> 'a list option" where
  "mem_write m off bs =
     (if 0 \<le> off \<and> nat off + length bs \<le> length m
      then Some (take (nat off) m @ bs @ drop (nat off + length bs) m) else None)"

lemma mem_read_all [mem_simps]: "length m = n \<Longrightarrow> mem_read m 0 n = Some m"
  by (simp add: mem_read_def)

lemma mem_write_length: "mem_write m off bs = Some m' \<Longrightarrow> length m' = length m"
  by (auto simp: mem_write_def split: if_splits)

lemma mem_write_same [mem_simps]:
  "mem_write m off bs = Some m' \<Longrightarrow> n = length bs \<Longrightarrow> mem_read m' off n = Some bs"
  by (auto simp: mem_write_def mem_read_def split: if_splits)

lemma mem_write_other:
  assumes w: "mem_write m off bs = Some m'"
    and d: "p + int n \<le> off \<or> off + int (length bs) \<le> p"
  shows "mem_read m' p n = mem_read m p n"
proof (cases "0 \<le> p \<and> nat p + n \<le> length m")
  case False
  then show ?thesis using mem_write_length [OF w] by (auto simp: mem_read_def)
next
  case True
  have b: "0 \<le> off" "nat off + length bs \<le> length m"
    and m': "m' = take (nat off) m @ bs @ drop (nat off + length bs) m"
    using w by (auto simp: mem_write_def split: if_splits)
  have "take n (drop (nat p) m') = take n (drop (nat p) m)"
  proof (rule nth_equalityI)
    show "length (take n (drop (nat p) m')) = length (take n (drop (nat p) m))"
      using mem_write_length [OF w] by simp
  next
    fix i assume "i < length (take n (drop (nat p) m'))"
    then have i: "i < n" "nat p + i < length m"
      using mem_write_length [OF w] True by auto
    have "m' ! (nat p + i) = m ! (nat p + i)"
      using d b i True by (auto simp: m' nth_append min_def)
    then show "take n (drop (nat p) m') ! i = take n (drop (nat p) m) ! i"
      using i True mem_write_length [OF w] by simp
  qed
  then show ?thesis using True mem_write_length [OF w] by (simp add: mem_read_def)
qed

end
