(* ===== verification/Bounded_Queue.thy ===== *)
theory Bounded_Queue
  imports Vmon_Prelude
begin

text \<open>
  The interface between the executor and its task queue: a bounded first-in first-out
  queue whose operations may fail only by being refused (full) or by finding nothing
  (empty). A provider promises one law per operation; the clients' facts about whole
  histories of operations are proved here once, from the laws. \<open>None\<close> of an operation
  would be an undefined memory access: the laws promise it never happens.
\<close>

datatype 'e queue_op = Enq 'e | Deq

fun queue_run ::
    "('q \<Rightarrow> 'e \<Rightarrow> (bool \<times> 'q) option) \<Rightarrow> ('q \<Rightarrow> ('e option \<times> 'q) option) \<Rightarrow>
     'q \<Rightarrow> 'e queue_op list \<Rightarrow> ('e list \<times> 'e list \<times> 'q) option" where
  \<comment> \<open>the accepted items, the delivered items and the final queue\<close>
  "queue_run enq deq q [] = Some ([], [], q)"
| "queue_run enq deq q (Enq e # ops) = do {
     (ok, q1) \<leftarrow> enq q e;
     (ins, outs, q2) \<leftarrow> queue_run enq deq q1 ops;
     Some (if ok then e # ins else ins, outs, q2) }"
| "queue_run enq deq q (Deq # ops) = do {
     (r, q1) \<leftarrow> deq q;
     (ins, outs, q2) \<leftarrow> queue_run enq deq q1 ops;
     Some (ins, (case r of None \<Rightarrow> outs | Some e \<Rightarrow> e # outs), q2) }"

text \<open>The reference: a list of at most \<open>n\<close> items.\<close>

fun list_queue_run :: "nat \<Rightarrow> 'e list \<Rightarrow> 'e queue_op list \<Rightarrow> 'e list \<times> 'e list \<times> 'e list" where
  "list_queue_run n xs [] = ([], [], xs)"
| "list_queue_run n xs (Enq e # ops) =
     (if length xs < n
      then (let (ins, outs, ys) = list_queue_run n (xs @ [e]) ops in (e # ins, outs, ys))
      else list_queue_run n xs ops)"
| "list_queue_run n xs (Deq # ops) =
     (case xs of [] \<Rightarrow> list_queue_run n [] ops
      | x # xs' \<Rightarrow> (let (ins, outs, ys) = list_queue_run n xs' ops in (ins, x # outs, ys)))"

fun enq_items :: "'e queue_op list \<Rightarrow> 'e list" where
  "enq_items [] = []"
| "enq_items (Enq e # ops) = e # enq_items ops"
| "enq_items (Deq # ops) = enq_items ops"

lemma list_queue_run_fifo:
  "list_queue_run n xs ops = (ins, outs, ys) \<Longrightarrow> xs @ ins = outs @ ys"
  by (induction n xs ops arbitrary: ins outs ys rule: list_queue_run.induct)
     (auto simp: Let_def split: if_splits prod.splits list.splits)

lemma list_queue_run_bound:
  "list_queue_run n xs ops = (ins, outs, ys) \<Longrightarrow> length xs \<le> n \<Longrightarrow> length ys \<le> n"
  by (induction n xs ops arbitrary: ins outs ys rule: list_queue_run.induct)
     (auto simp: Let_def split: if_splits prod.splits list.splits)

lemma list_queue_run_accepts:
  "list_queue_run n xs (map Enq es) =
     (take (n - length xs) es, [], xs @ take (n - length xs) es)"
proof (induction es arbitrary: xs)
  case Nil
  then show ?case by simp
next
  case (Cons e es)
  show ?case
  proof (cases "length xs < n")
    case True
    then have "n - length xs = Suc (n - length (xs @ [e]))" by simp
    then show ?thesis using True Cons.IH [of "xs @ [e]"] by simp
  next
    case False
    then show ?thesis using Cons.IH [of xs] by simp
  qed
qed

locale bounded_queue =
  fixes enq :: "'q \<Rightarrow> 'e \<Rightarrow> (bool \<times> 'q) option"
    and deq :: "'q \<Rightarrow> ('e option \<times> 'q) option"
    and contents :: "'q \<Rightarrow> 'e list"
    and capacity :: "'q \<Rightarrow> nat"
    and good :: "'q \<Rightarrow> bool"
    and item_ok :: "'q \<Rightarrow> 'e \<Rightarrow> bool"
  assumes enq_law: "good q \<Longrightarrow> item_ok q e \<Longrightarrow>
      \<exists>q'. enq q e = Some (length (contents q) < capacity q, q') \<and> good q' \<and>
        capacity q' = capacity q \<and> item_ok q' = item_ok q \<and>
        contents q' = (if length (contents q) < capacity q then contents q @ [e] else contents q)"
    and deq_law: "good q \<Longrightarrow>
      \<exists>q'. deq q = Some (if contents q = [] then None else Some (hd (contents q)), q') \<and> good q' \<and>
        capacity q' = capacity q \<and> item_ok q' = item_ok q \<and> contents q' = tl (contents q)"
    and within: "good q \<Longrightarrow> length (contents q) \<le> capacity q"
begin

lemma run_refines:
  assumes "good q" and "\<forall>e \<in> set (enq_items ops). item_ok q e"
  shows "\<exists>q'. queue_run enq deq q ops =
      (case list_queue_run (capacity q) (contents q) ops of (ins, outs, ys) \<Rightarrow>
        Some (ins, outs, q')) \<and>
      contents q' = snd (snd (list_queue_run (capacity q) (contents q) ops)) \<and>
      good q' \<and> capacity q' = capacity q"
  using assms
proof (induction ops arbitrary: q)
  case Nil
  then show ?case by auto
next
  case (Cons op ops)
  show ?case
  proof (cases op)
    case (Enq e)
    with Cons.prems have ok: "item_ok q e" and rest: "\<forall>e \<in> set (enq_items ops). item_ok q e"
      by simp_all
    obtain q1 where q1: "enq q e = Some (length (contents q) < capacity q, q1)" "good q1"
        "capacity q1 = capacity q" "item_ok q1 = item_ok q"
        "contents q1 = (if length (contents q) < capacity q then contents q @ [e] else contents q)"
      using enq_law [OF Cons.prems(1) ok] by blast
    then show ?thesis
      using Cons.IH [of q1] rest Enq by (auto split: prod.splits)
  next
    case Deq
    with Cons.prems have rest: "\<forall>e \<in> set (enq_items ops). item_ok q e" by simp
    obtain q1 where q1: "deq q = Some (if contents q = [] then None else Some (hd (contents q)), q1)"
        "good q1" "capacity q1 = capacity q" "item_ok q1 = item_ok q"
        "contents q1 = tl (contents q)"
      using deq_law [OF Cons.prems(1)] by blast
    then show ?thesis
      using Cons.IH [of q1] rest Deq by (auto split: prod.splits list.splits)
  qed
qed

lemma run_fifo:
  assumes "good q" and "\<forall>e \<in> set (enq_items ops). item_ok q e"
  shows "\<exists>ins outs q'. queue_run enq deq q ops = Some (ins, outs, q') \<and>
      contents q @ ins = outs @ contents q' \<and> length (contents q') \<le> capacity q"
proof -
  obtain ins outs ys where l: "list_queue_run (capacity q) (contents q) ops = (ins, outs, ys)"
    by (metis prod_cases3)
  obtain q' where q': "queue_run enq deq q ops = Some (ins, outs, q')" "contents q' = ys"
      "good q'" "capacity q' = capacity q"
    using run_refines [OF assms] l by auto
  then show ?thesis
    using list_queue_run_fifo [OF l] within [OF q'(3)] by auto
qed

lemma run_enqs:
  assumes "good q" and "\<forall>e \<in> set es. item_ok q e"
  shows "\<exists>q'. queue_run enq deq q (map Enq es) =
        Some (take (capacity q - length (contents q)) es, [], q') \<and>
      contents q' = contents q @ take (capacity q - length (contents q)) es"
proof -
  have "enq_items (map Enq es) = es" by (induction es) auto
  then show ?thesis
    using run_refines [of q "map Enq es"] assms list_queue_run_accepts [of "capacity q" "contents q" es]
    by auto
qed

end

end
