(* ===== verification/Ring_Buffer.thy ===== *)
theory Ring_Buffer
  imports Bounded_Queue
begin

text \<open>
  The ring buffer of \<^verbatim>\<open>lib/ringbuffer.c\<close>: fixed-size slots in one block of bytes behind the
  header, a fill count and two cursors. Every operation runs under the buffer's mutex and
  is one atomic step; the blocking part of \<^verbatim>\<open>ringbuffer_get\<close> is split at
  \<^verbatim>\<open>pthread_cond_wait\<close>, where the mutex is released. The wake-up protocol of several
  threads is the theory \<open>Ring_Buffer_Threads\<close>. \<open>None\<close> is an access outside of the
  block of slots.
\<close>

section \<open>The code\<close>

record 'u RingBuffer =
  rb_waiters :: int
  rb_size :: int
  rb_used :: int
  rb_start :: int
  rb_end :: int
  rb_elems :: "byte list"
  rb_elem_size :: nat
  rb_dump :: "'u option \<Rightarrow> byte list \<Rightarrow> 'u option"
  rb_dump_ud :: "'u option"

definition no_dump :: "'u option \<Rightarrow> byte list \<Rightarrow> 'u option" where
  "no_dump ud item = ud"

definition ringbuffer_clear :: "'u RingBuffer \<Rightarrow> 'u RingBuffer" where
  "ringbuffer_clear rb = rb\<lparr>rb_start := 0, rb_end := 0\<rparr>"

definition ringbuffer_init :: "bool \<Rightarrow> int \<Rightarrow> nat \<Rightarrow> int \<times> 'u RingBuffer option" where
  \<comment> \<open>the first argument says whether \<open>calloc\<close> returns a block; sizes are not negative\<close>
  "ringbuffer_init alloc sz elem_size =
     (if alloc
      then let buf = \<lparr>rb_waiters = 0, rb_size = sz, rb_used = 0, rb_start = 0, rb_end = 0,
                      rb_elems = replicate (nat sz * elem_size) 0,
                      rb_elem_size = elem_size, rb_dump = no_dump, rb_dump_ud = None\<rparr>
           in (0, Some (ringbuffer_clear buf))
      else (-1, None))"

definition rb_is_full :: "'u RingBuffer \<Rightarrow> bool" where
  "rb_is_full rb \<longleftrightarrow> rb_used rb = rb_size rb"

definition rb_is_empty :: "'u RingBuffer \<Rightarrow> bool" where
  "rb_is_empty rb \<longleftrightarrow> rb_used rb = 0"

definition ringbuffer_full :: "'u RingBuffer \<Rightarrow> bool" where
  "ringbuffer_full rb = rb_is_full rb"

definition ringbuffer_empty :: "'u RingBuffer \<Rightarrow> bool" where
  "ringbuffer_empty rb = rb_is_empty rb"

definition rb_item_at :: "'u RingBuffer \<Rightarrow> int \<Rightarrow> int" where
  \<comment> \<open>the byte offset \<open>off\<close>: a \<open>size_t\<close> product stored in an \<open>int\<close>\<close>
  "rb_item_at rb pos = to_int32 (pos * int (rb_elem_size rb))"

definition ringbuffer_put ::
    "'u RingBuffer \<Rightarrow> byte list \<Rightarrow> (int \<times> 'u RingBuffer \<times> bool) option" where
  \<comment> \<open>the return value, the buffer, and whether \<open>pthread_cond_signal\<close> is called\<close>
  "ringbuffer_put rb elem =
     (if \<not> rb_is_full rb
      then do {
        let rb = rb\<lparr>rb_used := rb_used rb + 1\<rparr>;
        src \<leftarrow> mem_read elem 0 (rb_elem_size rb);
        m \<leftarrow> mem_write (rb_elems rb) (rb_item_at rb (rb_end rb)) src;
        let rb = rb\<lparr>rb_elems := m\<rparr>;
        item \<leftarrow> mem_read (rb_elems rb) (rb_item_at rb (rb_end rb)) (rb_elem_size rb);
        let rb = rb\<lparr>rb_dump_ud := rb_dump rb (rb_dump_ud rb) item\<rparr>;
        let rb = rb\<lparr>rb_end := c_rem (rb_end rb + 1) (rb_size rb)\<rparr>;
        Some (0, rb, rb_waiters rb > 0)
      }
      else Some (-1, rb, False))"

datatype 'u get_step = Get_Waits "'u RingBuffer" | Get_Done "byte list" "'u RingBuffer"

definition rb_get_test :: "'u RingBuffer \<Rightarrow> 'u get_step option" where
  \<comment> \<open>from the loop test on, with the mutex held: wait again, or take the oldest item\<close>
  "rb_get_test rb =
     (if rb_is_empty rb then Some (Get_Waits rb)
      else do {
        let rb = rb\<lparr>rb_waiters := rb_waiters rb - 1\<rparr>;
        let rb = rb\<lparr>rb_used := rb_used rb - 1\<rparr>;
        item \<leftarrow> mem_read (rb_elems rb) (rb_item_at rb (rb_start rb)) (rb_elem_size rb);
        let rb = rb\<lparr>rb_dump_ud := rb_dump rb (rb_dump_ud rb) item\<rparr>;
        let rb = rb\<lparr>rb_start := c_rem (rb_start rb + 1) (rb_size rb)\<rparr>;
        Some (Get_Done item rb)
      })"

definition ringbuffer_get :: "'u RingBuffer \<Rightarrow> 'u get_step option" where
  \<comment> \<open>up to the first wait or to the return, whose value is always 0\<close>
  "ringbuffer_get rb = rb_get_test (rb\<lparr>rb_waiters := rb_waiters rb + 1\<rparr>)"

definition ringbuffer_get_wakeup :: "'u RingBuffer \<Rightarrow> 'u get_step option" where
  \<comment> \<open>from the return of \<open>pthread_cond_wait\<close> to the next wait or the return\<close>
  "ringbuffer_get_wakeup rb = rb_get_test rb"

definition ringbuffer_set_dump ::
    "'u RingBuffer \<Rightarrow> ('u option \<Rightarrow> byte list \<Rightarrow> 'u option) \<Rightarrow> 'u option \<Rightarrow> 'u RingBuffer" where
  "ringbuffer_set_dump rb dump ud = rb\<lparr>rb_dump := dump, rb_dump_ud := ud\<rparr>"

section \<open>Invariant and abstraction\<close>

definition rb_wf :: "'u RingBuffer \<Rightarrow> bool" where
  "rb_wf rb \<longleftrightarrow>
     0 < rb_size rb \<and> 0 < rb_elem_size rb \<and>
     rb_size rb * int (rb_elem_size rb) \<le> INT_MAX \<and>
     length (rb_elems rb) = nat (rb_size rb) * rb_elem_size rb \<and>
     0 \<le> rb_used rb \<and> rb_used rb \<le> rb_size rb \<and>
     0 \<le> rb_start rb \<and> rb_start rb < rb_size rb \<and>
     rb_end rb = (rb_start rb + rb_used rb) mod rb_size rb"

definition rb_slot :: "'u RingBuffer \<Rightarrow> int \<Rightarrow> byte list" where
  "rb_slot rb pos =
     take (rb_elem_size rb) (drop (nat pos * rb_elem_size rb) (rb_elems rb))"

definition rb_contents :: "'u RingBuffer \<Rightarrow> byte list list" where
  "rb_contents rb =
     map (\<lambda>k. rb_slot rb ((rb_start rb + int k) mod rb_size rb)) [0..<nat (rb_used rb)]"

section \<open>Slots\<close>

lemma slot_in_int_range:
  assumes "rb_wf rb" and "0 \<le> pos" and "pos < rb_size rb"
  shows "pos * int (rb_elem_size rb) + int (rb_elem_size rb) \<le> rb_size rb * int (rb_elem_size rb)"
proof -
  have "(pos + 1) * int (rb_elem_size rb) \<le> rb_size rb * int (rb_elem_size rb)"
    using assms by (intro mult_right_mono) auto
  then show ?thesis by (simp add: algebra_simps)
qed

lemma rb_item_at_wf [c_arith]:
  assumes "rb_wf rb" and "0 \<le> pos" and "pos < rb_size rb"
  shows "rb_item_at rb pos = pos * int (rb_elem_size rb)"
proof -
  have "0 \<le> pos * int (rb_elem_size rb)" using assms(2) by simp
  moreover have "pos * int (rb_elem_size rb) \<le> INT_MAX"
    using slot_in_int_range [OF assms] assms(1) by (simp add: rb_wf_def)
  ultimately show ?thesis by (simp add: rb_item_at_def to_int32_id)
qed

lemma rb_item_at_0 [simp]: "rb_item_at rb 0 = 0"
  by (simp add: rb_item_at_def to_int32_id INT_MAX_def)

lemma slot_in_block:
  assumes "rb_wf rb" and "0 \<le> pos" and "pos < rb_size rb"
  shows "nat pos * rb_elem_size rb + rb_elem_size rb \<le> length (rb_elems rb)"
proof -
  have "Suc (nat pos) * rb_elem_size rb \<le> nat (rb_size rb) * rb_elem_size rb"
    using assms by (intro mult_right_mono) auto
  then show ?thesis using assms(1) by (simp add: rb_wf_def)
qed

lemma read_slot [mem_simps]:
  assumes "rb_wf rb" and "0 \<le> pos" and "pos < rb_size rb"
  shows "mem_read (rb_elems rb) (rb_item_at rb pos) (rb_elem_size rb) = Some (rb_slot rb pos)"
  using slot_in_block [OF assms] assms(2)
  by (simp add: mem_read_def rb_slot_def rb_item_at_wf [OF assms] nat_mult_distrib)

lemma write_slot_ok:
  assumes "rb_wf rb" and "0 \<le> pos" and "pos < rb_size rb" and "length e = rb_elem_size rb"
  obtains m where "mem_write (rb_elems rb) (rb_item_at rb pos) e = Some m"
    and "length m = length (rb_elems rb)"
proof -
  have "\<exists>m. mem_write (rb_elems rb) (rb_item_at rb pos) e = Some m"
    using slot_in_block [OF assms(1-3)] assms(2,4)
    by (simp add: mem_write_def rb_item_at_wf [OF assms(1-3)] nat_mult_distrib)
  then show thesis using that mem_write_length by blast
qed

lemma write_slot_at:
  assumes "rb_wf rb" and "0 \<le> pos" and "pos < rb_size rb" and "length e = rb_elem_size rb"
    and w: "mem_write (rb_elems rb) (rb_item_at rb pos) e = Some m"
    and q: "0 \<le> q" "q < rb_size rb"
  shows "take (rb_elem_size rb) (drop (nat q * rb_elem_size rb) m) =
    (if q = pos then e else rb_slot rb q)"
proof -
  let ?n = "rb_elem_size rb"
  have wf': "length m = length (rb_elems rb)" using mem_write_length [OF w] .
  have r: "mem_read m (q * int ?n) ?n = Some (take ?n (drop (nat q * ?n) m))"
    using slot_in_block [OF assms(1) q] q(1) by (simp add: mem_read_def wf' nat_mult_distrib)
  show ?thesis
  proof (cases "q = pos")
    case True
    then show ?thesis
      using r mem_write_same [OF w assms(4) [symmetric]] rb_item_at_wf [OF assms(1-3)] by simp
  next
    case False
    have "q * int ?n + int ?n \<le> pos * int ?n \<or> pos * int ?n + int ?n \<le> q * int ?n"
    proof (cases "q < pos")
      case True
      then have "(q + 1) * int ?n \<le> pos * int ?n" by (intro mult_right_mono) auto
      then show ?thesis by (simp add: algebra_simps)
    next
      assume "\<not> q < pos"
      with False have "(pos + 1) * int ?n \<le> q * int ?n" by (intro mult_right_mono) auto
      then show ?thesis by (simp add: algebra_simps)
    qed
    then have "mem_read m (q * int ?n) ?n = mem_read (rb_elems rb) (q * int ?n) ?n"
      using mem_write_other [OF w] assms(4) rb_item_at_wf [OF assms(1-3)] by simp
    then show ?thesis
      using False r read_slot [OF assms(1) q] rb_item_at_wf [OF assms(1) q] by simp
  qed
qed

section \<open>Functional behaviour of the operations\<close>

lemma ring_index_distinct:
  fixes s :: int
  assumes "0 \<le> k" and "k < j" and "j < n"
  shows "(s + k) mod n \<noteq> (s + j) mod n"
proof
  assume "(s + k) mod n = (s + j) mod n"
  then have "n dvd (s + j) - (s + k)" by (metis mod_eq_dvd_iff)
  then have "n dvd j - k" by simp
  then show False using assms zdvd_not_zless [of "j - k" n] by simp
qed

lemma rb_end_range: "rb_wf rb \<Longrightarrow> 0 \<le> rb_end rb \<and> rb_end rb < rb_size rb"
  by (simp add: rb_wf_def)

lemma length_rb_contents [simp]: "length (rb_contents rb) = nat (rb_used rb)"
  by (simp add: rb_contents_def)

lemma rb_contents_slot_length:
  assumes "rb_wf rb" and "e \<in> set (rb_contents rb)"
  shows "length e = rb_elem_size rb"
proof -
  obtain k where e: "e = rb_slot rb ((rb_start rb + int k) mod rb_size rb)"
    using assms(2) by (auto simp: rb_contents_def)
  have p: "0 \<le> (rb_start rb + int k) mod rb_size rb" "(rb_start rb + int k) mod rb_size rb < rb_size rb"
    using assms(1) by (simp_all add: rb_wf_def)
  show ?thesis using slot_in_block [OF assms(1) p] by (simp add: e rb_slot_def)
qed

lemma ringbuffer_put_full:
  "rb_is_full rb \<Longrightarrow> ringbuffer_put rb e = Some (-1, rb, False)"
  by (simp add: ringbuffer_put_def)

lemma ringbuffer_put_room:
  assumes wf: "rb_wf rb" and room: "rb_used rb < rb_size rb" and e: "length e = rb_elem_size rb"
  obtains rb' where "ringbuffer_put rb e = Some (0, rb', rb_waiters rb > 0)"
    and "rb_wf rb'" and "rb_contents rb' = rb_contents rb @ [e]"
    and "rb_waiters rb' = rb_waiters rb" and "rb_size rb' = rb_size rb"
    and "rb_elem_size rb' = rb_elem_size rb" and "rb_used rb' = rb_used rb + 1"
proof -
  note er = rb_end_range [OF wf]
  obtain m where m: "mem_write (rb_elems rb) (rb_item_at rb (rb_end rb)) e = Some m"
    and lm: "length m = length (rb_elems rb)"
    using write_slot_ok [OF wf _ _ e] er by blast
  define rb' where "rb' = rb\<lparr>rb_used := rb_used rb + 1, rb_elems := m,
      rb_dump_ud := rb_dump rb (rb_dump_ud rb) e,
      rb_end := c_rem (rb_end rb + 1) (rb_size rb)\<rparr>"
  have item_at: "rb_item_at (rb\<lparr>rb_used := u, rb_elems := m'\<rparr>) p = rb_item_at rb p" for u m' p
    by (simp add: rb_item_at_def)
  have item_at': "rb_item_at (rb\<lparr>rb_used := u\<rparr>) p = rb_item_at rb p" for u p
    by (simp add: rb_item_at_def)
  have put: "ringbuffer_put rb e = Some (0, rb', rb_waiters rb > 0)"
    using room m e
    by (simp add: ringbuffer_put_def rb_is_full_def Let_def mem_simps item_at item_at'
        mem_write_same [OF m] rb'_def)
  have "rb_end rb' = (rb_start rb + (rb_used rb + 1)) mod rb_size rb"
    using er wf by (simp add: rb'_def c_rem_pos rb_wf_def add.assoc mod_add_left_eq)
  then have wf': "rb_wf rb'"
    using wf room lm by (simp add: rb_wf_def rb'_def)
  have slot: "rb_slot rb' q = (if q = rb_end rb then e else rb_slot rb q)"
    if "0 \<le> q" "q < rb_size rb" for q
    using write_slot_at [OF wf _ _ e m that] er by (simp add: rb_slot_def rb'_def)
  have old: "rb_slot rb' ((rb_start rb + int k) mod rb_size rb) =
      rb_slot rb ((rb_start rb + int k) mod rb_size rb)" if "k < nat (rb_used rb)" for k
    using slot [of "(rb_start rb + int k) mod rb_size rb"] that wf room
      ring_index_distinct [of "int k" "rb_used rb" "rb_size rb" "rb_start rb"]
    by (auto simp: rb_wf_def)
  have new: "rb_slot rb' (rb_end rb) = e" using slot er by simp
  have "nat (rb_used rb') = Suc (nat (rb_used rb))"
    using wf by (simp add: rb'_def rb_wf_def nat_add_distrib)
  then have "rb_contents rb' = map (\<lambda>k. rb_slot rb' ((rb_start rb + int k) mod rb_size rb))
      [0..<nat (rb_used rb)] @ [rb_slot rb' ((rb_start rb + rb_used rb) mod rb_size rb)]"
    using wf by (simp add: rb_contents_def rb'_def rb_wf_def)
  also have "\<dots> = rb_contents rb @ [e]"
    using old new wf by (simp add: rb_contents_def rb_wf_def)
  finally have "rb_contents rb' = rb_contents rb @ [e]" .
  from that [OF put wf' this] show thesis by (simp add: rb'_def)
qed

lemma rb_get_test_empty: "rb_is_empty rb \<Longrightarrow> rb_get_test rb = Some (Get_Waits rb)"
  by (simp add: rb_get_test_def)

lemma rb_get_test_nonempty:
  assumes wf: "rb_wf rb" and ne: "rb_used rb \<noteq> 0"
  obtains rb' where "rb_get_test rb = Some (Get_Done (hd (rb_contents rb)) rb')"
    and "rb_wf rb'" and "rb_contents rb' = tl (rb_contents rb)"
    and "rb_waiters rb' = rb_waiters rb - 1" and "rb_size rb' = rb_size rb"
    and "rb_elem_size rb' = rb_elem_size rb" and "rb_used rb' = rb_used rb - 1"
proof -
  let ?s = "rb_start rb" and ?n = "rb_size rb" and ?e = "rb_slot rb (rb_start rb)"
  have u: "0 < rb_used rb" "0 \<le> ?s" "?s < ?n" using wf ne by (simp_all add: rb_wf_def)
  define rb' where "rb' = rb\<lparr>rb_waiters := rb_waiters rb - 1, rb_used := rb_used rb - 1,
      rb_dump_ud := rb_dump rb (rb_dump_ud rb) ?e, rb_start := c_rem (?s + 1) ?n\<rparr>"
  have item_at: "rb_item_at (rb\<lparr>rb_waiters := w, rb_used := v\<rparr>) p = rb_item_at rb p" for w v p
    by (simp add: rb_item_at_def)
  have get: "rb_get_test rb = Some (Get_Done ?e rb')"
    using ne read_slot [OF wf u(2,3)]
    by (simp add: rb_get_test_def rb_is_empty_def Let_def item_at rb'_def)
  have split: "[0..<nat (rb_used rb)] = 0 # map Suc [0..<nat (rb_used rb) - 1]"
    using u(1) by (simp add: upt_conv_Cons map_Suc_upt)
  have contents: "rb_contents rb =
      ?e # map (\<lambda>k. rb_slot rb ((?s + int (Suc k)) mod ?n)) [0..<nat (rb_used rb) - 1]"
    using u by (simp add: rb_contents_def split)
  have start: "c_rem (?s + 1) ?n = (?s + 1) mod ?n"
    using u by (simp add: c_rem_pos)
  have "rb_contents rb' =
      map (\<lambda>k. rb_slot rb ((?s + int (Suc k)) mod ?n)) [0..<nat (rb_used rb) - 1]"
  proof -
    have "((?s + 1) mod ?n + int k) mod ?n = (?s + int (Suc k)) mod ?n" for k
      using mod_add_left_eq [of "?s + 1" ?n "int k"] by (simp add: add.assoc)
    moreover have "nat (rb_used rb - 1) = nat (rb_used rb) - 1" using u by simp
    ultimately show ?thesis by (simp add: rb_contents_def rb_slot_def rb'_def start)
  qed
  then have tl: "rb_contents rb' = tl (rb_contents rb)" by (simp add: contents)
  have "rb_end rb = ((?s + 1) mod ?n + (rb_used rb - 1)) mod ?n"
    using wf by (simp add: rb_wf_def mod_add_left_eq)
  then have "rb_wf rb'"
    using wf u start by (simp add: rb_wf_def rb'_def)
  moreover have "hd (rb_contents rb) = ?e" by (simp add: contents)
  ultimately show thesis using that [of rb'] get tl by (simp add: rb'_def)
qed

section \<open>The ring buffer is a bounded queue\<close>

definition rb_enq :: "'u RingBuffer \<Rightarrow> byte list \<Rightarrow> (bool \<times> 'u RingBuffer) option" where
  "rb_enq rb e = map_option (\<lambda>(r, rb', sig). (r = 0, rb')) (ringbuffer_put rb e)"

definition rb_deq :: "'u RingBuffer \<Rightarrow> (byte list option \<times> 'u RingBuffer) option" where
  \<comment> \<open>one call of \<open>ringbuffer_get\<close>, up to its first wait\<close>
  "rb_deq rb = map_option
     (\<lambda>st. case st of Get_Waits rb' \<Rightarrow> (None, rb') | Get_Done e rb' \<Rightarrow> (Some e, rb'))
     (ringbuffer_get rb)"

abbreviation rb_capacity :: "'u RingBuffer \<Rightarrow> nat" where
  "rb_capacity rb \<equiv> nat (rb_size rb)"

abbreviation rb_item_ok :: "'u RingBuffer \<Rightarrow> byte list \<Rightarrow> bool" where
  "rb_item_ok rb e \<equiv> length e = rb_elem_size rb"

lemma rb_waiters_update [simp]:
  "rb_wf (rb\<lparr>rb_waiters := w\<rparr>) = rb_wf rb"
  "rb_contents (rb\<lparr>rb_waiters := w\<rparr>) = rb_contents rb"
  by (simp_all add: rb_wf_def rb_contents_def rb_slot_def)

lemma rb_contents_empty: "rb_wf rb \<Longrightarrow> rb_contents rb = [] \<longleftrightarrow> rb_is_empty rb"
  by (auto simp: rb_contents_def rb_is_empty_def rb_wf_def)

lemma rb_contents_full: "rb_wf rb \<Longrightarrow> length (rb_contents rb) < rb_capacity rb \<longleftrightarrow> \<not> rb_is_full rb"
  by (auto simp: rb_is_full_def rb_wf_def)

lemma rb_enq_law:
  assumes wf: "rb_wf rb" and e: "rb_item_ok rb e"
  shows "\<exists>rb'. rb_enq rb e = Some (length (rb_contents rb) < rb_capacity rb, rb') \<and> rb_wf rb' \<and>
      rb_capacity rb' = rb_capacity rb \<and> rb_item_ok rb' = rb_item_ok rb \<and>
      rb_contents rb' =
        (if length (rb_contents rb) < rb_capacity rb then rb_contents rb @ [e] else rb_contents rb)"
proof (cases "rb_is_full rb")
  case True
  then show ?thesis using wf rb_contents_full [OF wf] by (simp add: rb_enq_def ringbuffer_put_full)
next
  case False
  then have "rb_used rb < rb_size rb" using wf by (simp add: rb_is_full_def rb_wf_def)
  then show ?thesis
    using ringbuffer_put_room [OF wf _ e] rb_contents_full [OF wf] False
    by (force simp: rb_enq_def)
qed

lemma rb_deq_law:
  assumes wf: "rb_wf rb"
  shows "\<exists>rb'. rb_deq rb = Some (if rb_contents rb = [] then None else Some (hd (rb_contents rb)), rb') \<and>
      rb_wf rb' \<and> rb_capacity rb' = rb_capacity rb \<and> rb_item_ok rb' = rb_item_ok rb \<and>
      rb_contents rb' = tl (rb_contents rb)"
proof (cases "rb_is_empty rb")
  case True
  then show ?thesis
    using wf rb_contents_empty [OF wf]
    by (simp add: rb_deq_def ringbuffer_get_def rb_get_test_def rb_is_empty_def)
next
  case False
  let ?rb = "rb\<lparr>rb_waiters := rb_waiters rb + 1\<rparr>"
  have "rb_wf ?rb" "rb_used ?rb \<noteq> 0" using wf False by (simp_all add: rb_is_empty_def)
  then obtain rb' where "rb_get_test ?rb = Some (Get_Done (hd (rb_contents ?rb)) rb')"
      "rb_wf rb'" "rb_contents rb' = tl (rb_contents ?rb)" "rb_size rb' = rb_size ?rb"
      "rb_elem_size rb' = rb_elem_size ?rb"
    using rb_get_test_nonempty by metis
  then show ?thesis
    using rb_contents_empty [OF wf] False by (simp add: rb_deq_def ringbuffer_get_def)
qed

interpretation rbq: bounded_queue rb_enq rb_deq rb_contents rb_capacity rb_wf rb_item_ok
proof unfold_locales
  fix q :: "'u RingBuffer" assume "rb_wf q"
  then show "length (rb_contents q) \<le> rb_capacity q" by (auto simp: rb_wf_def)
qed (blast intro: rb_enq_law rb_deq_law)+

section \<open>Properties\<close>

definition rb_new :: "int \<Rightarrow> nat \<Rightarrow> 'u RingBuffer" where
  \<comment> \<open>the buffer \<open>ringbuffer_init\<close> returns\<close>
  "rb_new sz n = the (snd (ringbuffer_init True sz n))"

lemma rb_new_wf:
  assumes "0 < sz" and "0 < n" and "sz * int n \<le> INT_MAX"
  shows "rb_wf (rb_new sz n)" and "rb_contents (rb_new sz n) = []"
    and "rb_size (rb_new sz n) = sz" and "rb_elem_size (rb_new sz n) = n"
    and "rb_waiters (rb_new sz n) = 0" and "rb_used (rb_new sz n) = 0"
  using assms
  by (auto simp: rb_new_def ringbuffer_init_def ringbuffer_clear_def rb_wf_def rb_contents_def)

text \<open>C27: Putting an item of the slot size into a well-formed ring buffer never touches memory
  outside of the slots. If the buffer is full the call returns -1 and changes nothing; otherwise
  it returns 0, appends the item behind the ones already stored (none of which changes), and
  signals the condition exactly when a reader is counted as waiting.\<close>
theorem ringbuffer_put_correct:
  assumes "rb_wf rb" and "length e = rb_elem_size rb"
  shows "if ringbuffer_full rb then ringbuffer_put rb e = Some (-1, rb, False)
    else \<exists>rb'. ringbuffer_put rb e = Some (0, rb', 0 < rb_waiters rb) \<and> rb_wf rb' \<and>
      rb_contents rb' = rb_contents rb @ [e] \<and> rb_waiters rb' = rb_waiters rb \<and>
      rb_size rb' = rb_size rb \<and> rb_elem_size rb' = rb_elem_size rb"
proof (cases "rb_is_full rb")
  case True
  then show ?thesis by (simp add: ringbuffer_put_full ringbuffer_full_def)
next
  case False
  then have "rb_used rb < rb_size rb" using assms(1) by (simp add: rb_is_full_def rb_wf_def)
  then show ?thesis
    using ringbuffer_put_room [OF assms(1) _ assms(2)] False by (metis ringbuffer_full_def)
qed

definition rb_example :: "unit RingBuffer" where
  \<comment> \<open>four one-byte slots after putting 1, getting it back and putting 2\<close>
  "rb_example = (case rb_enq (rb_new 4 1) [1] of Some (_, rb1) \<Rightarrow>
     (case rb_deq rb1 of Some (_, rb2) \<Rightarrow> (case rb_enq rb2 [2] of Some (_, rb3) \<Rightarrow> rb3)))"

lemma rb_example_facts:
  "rb_wf rb_example" "rb_elem_size rb_example = 1" "\<not> ringbuffer_full rb_example"
  "rb_contents rb_example = [[2]]" "rb_slot rb_example 0 = [1]" "\<not> rb_is_empty rb_example"
  by code_simp+

theorem ringbuffer_put_correct_witness:
  "\<exists>rb'. ringbuffer_put rb_example [7] = Some (0, rb', 0 < rb_waiters rb_example) \<and>
    rb_contents rb' = [[2], [7]]"
  using ringbuffer_put_correct [OF rb_example_facts(1), of "[7]"] rb_example_facts by auto

text \<open>C28: A reader that holds the mutex and finds a well-formed buffer non-empty takes the oldest
  item and no other: it gets the head of the contents, the tail stays, the waiter count it
  raised on entry is back to its value before the call, and no access leaves the slots. On an
  empty buffer the call only counts itself as a waiter.\<close>
theorem ringbuffer_get_correct:
  assumes "rb_wf rb"
  shows "if ringbuffer_empty rb
    then ringbuffer_get rb = Some (Get_Waits (rb\<lparr>rb_waiters := rb_waiters rb + 1\<rparr>))
    else \<exists>rb'. ringbuffer_get rb = Some (Get_Done (hd (rb_contents rb)) rb') \<and> rb_wf rb' \<and>
      rb_contents rb' = tl (rb_contents rb) \<and> rb_waiters rb' = rb_waiters rb \<and>
      rb_size rb' = rb_size rb \<and> rb_elem_size rb' = rb_elem_size rb"
proof (cases "rb_is_empty rb")
  case True
  then show ?thesis
    by (simp add: ringbuffer_get_def rb_get_test_def rb_is_empty_def ringbuffer_empty_def)
next
  case False
  let ?rb = "rb\<lparr>rb_waiters := rb_waiters rb + 1\<rparr>"
  obtain rb' where "rb_get_test ?rb = Some (Get_Done (hd (rb_contents ?rb)) rb')"
      "rb_wf rb'" "rb_contents rb' = tl (rb_contents ?rb)" "rb_waiters rb' = rb_waiters ?rb - 1"
      "rb_size rb' = rb_size ?rb" "rb_elem_size rb' = rb_elem_size ?rb"
    using rb_get_test_nonempty [of ?rb] assms False by (auto simp: rb_is_empty_def)
  then show ?thesis using False by (simp add: ringbuffer_get_def ringbuffer_empty_def)
qed

theorem ringbuffer_get_correct_witness:
  "\<exists>rb'. ringbuffer_get rb_example = Some (Get_Done [2] rb') \<and> rb_contents rb' = []"
  using ringbuffer_get_correct [OF rb_example_facts(1)] rb_example_facts
  by (auto simp: ringbuffer_empty_def)

text \<open>C6: From its initialisation on, the ring buffer behaves as a bounded list for every history
  of puts and gets of slot-sized items: no memory access goes wrong, the same items are accepted
  and delivered in the same order as on the list, and what is stored at the end is what the list
  holds. Initialisation fails, returning -1, exactly when the allocation fails.\<close>
theorem ringbuffer_refines_list:
  assumes "0 < sz" and "0 < n" and "sz * int n \<le> INT_MAX"
    and "\<forall>e \<in> set (enq_items ops). length e = n"
  shows "ringbuffer_init False sz n = (-1, None :: 'u RingBuffer option) \<and>
    (\<exists>rb :: 'u RingBuffer. \<exists>ins outs ys rb'. ringbuffer_init True sz n = (0, Some rb) \<and>
      list_queue_run (nat sz) [] ops = (ins, outs, ys) \<and>
      queue_run rb_enq rb_deq rb ops = Some (ins, outs, rb') \<and> rb_contents rb' = ys \<and>
      ins = outs @ ys)"
proof -
  let ?rb = "rb_new sz n :: 'u RingBuffer"
  note new = rb_new_wf [OF assms(1-3)]
  obtain ins outs ys where l: "list_queue_run (nat sz) [] ops = (ins, outs, ys)"
    by (metis prod_cases3)
  obtain rb' where "queue_run rb_enq rb_deq ?rb ops = Some (ins, outs, rb')"
      "rb_contents rb' = ys"
    using rbq.run_refines [of ?rb ops] assms(4) l by (auto simp: new)
  moreover have "ringbuffer_init True sz n = (0, Some ?rb)"
    by (simp add: rb_new_def ringbuffer_init_def)
  moreover have "ins = outs @ ys" using list_queue_run_fifo [OF l] by simp
  ultimately show ?thesis using l by (auto simp: ringbuffer_init_def)
qed

theorem ringbuffer_refines_list_witness:
  "\<exists>rb rb'. ringbuffer_init True 2 1 = (0, Some (rb :: unit RingBuffer)) \<and>
    queue_run rb_enq rb_deq rb [Enq [1], Enq [2], Enq [3], Deq] = Some ([[1], [2]], [[1]], rb') \<and>
    rb_contents rb' = [[2]]"
  using ringbuffer_refines_list [of 2 1 "[Enq [1], Enq [2], Enq [3], Deq]", where 'u = unit]
  by (auto simp: INT_MAX_def)

text \<open>\<^verbatim>\<open>ringbuffer_clear\<close> rewinds the cursors but not the fill count, so it does not
  empty a buffer: whatever was stored, the buffer reports the same emptiness as before, and when
  items were stored the next reader is handed the bytes of slot 0, whether they were delivered
  before or never written.\<close>
lemma ringbuffer_clear_keeps_count:
  assumes "rb_wf rb" and "\<not> ringbuffer_empty rb"
  shows "\<not> ringbuffer_empty (ringbuffer_clear rb) \<and>
    (\<exists>rb'. ringbuffer_get (ringbuffer_clear rb) = Some (Get_Done (rb_slot rb 0) rb'))"
proof -
  let ?rb = "rb\<lparr>rb_start := 0, rb_end := 0\<rparr>"
  have p: "0 < rb_size rb" using assms(1) by (simp add: rb_wf_def)
  have "mem_read (rb_elems rb) 0 (rb_elem_size rb) = Some (rb_slot rb 0)"
    using read_slot [OF assms(1), of 0] p rb_item_at_wf [OF assms(1), of 0] by simp
  then show ?thesis
    using assms(2)
    by (simp add: ringbuffer_clear_def ringbuffer_get_def rb_get_test_def ringbuffer_empty_def
        rb_is_empty_def Let_def)
qed

lemma ringbuffer_clear_keeps_count_example:
  "rb_contents rb_example = [[2]] \<and>
    (\<exists>rb'. ringbuffer_get (ringbuffer_clear rb_example) = Some (Get_Done [1] rb'))"
  using ringbuffer_clear_keeps_count [OF rb_example_facts(1)] rb_example_facts
  by (auto simp: ringbuffer_empty_def)

text \<open>The byte offset of a slot is held in an \<^verbatim>\<open>int\<close>: once the write cursor is so far
  into a large buffer that its offset has passed \<open>2^31\<close>, the offset is negative and the put
  writes outside of the slots, although the buffer is not full and was allocated in full.\<close>
lemma ringbuffer_put_offset_wraps:
  assumes "\<not> ringbuffer_full rb" and "length e = rb_elem_size rb" and "0 < rb_elem_size rb"
    and "2 ^ 31 \<le> rb_end rb * int (rb_elem_size rb)" and "rb_end rb * int (rb_elem_size rb) < 2 ^ 32"
  shows "rb_item_at rb (rb_end rb) < 0 \<and> ringbuffer_put rb e = None"
proof -
  have neg: "to_int32 (rb_end rb * int (rb_elem_size rb)) < 0"
    using assms(4,5) by (rule to_int32_negative)
  have "mem_write (rb_elems rb) (to_int32 (rb_end rb * int (rb_elem_size rb))) e = None"
    using neg by (simp add: mem_write_def)
  then show ?thesis
    using assms(1,2) neg
    by (simp add: ringbuffer_put_def ringbuffer_full_def rb_item_at_def Let_def mem_simps)
qed

lemma ringbuffer_put_offset_wraps_example:
  "ringbuffer_put (rb_new 20000000 128\<lparr>rb_used := 16777216, rb_end := 16777216\<rparr> :: unit RingBuffer)
     (replicate 128 0) = None"
  using ringbuffer_put_offset_wraps [of
      "rb_new 20000000 128\<lparr>rb_used := 16777216, rb_end := 16777216\<rparr> :: unit RingBuffer"
      "replicate 128 0"]
  by (simp add: ringbuffer_full_def rb_is_full_def rb_new_def ringbuffer_init_def ringbuffer_clear_def)

end
