(* ===== verification/Ring_Buffer_Threads.thy ===== *)
theory Ring_Buffer_Threads
  imports Ring_Buffer
begin

text \<open>
  Many threads on one ring buffer (\<^verbatim>\<open>lib/ringbuffer.c\<close>). Every critical section is one
  step, in any interleaving. A reader on an empty buffer blocks in \<^verbatim>\<open>pthread_cond_wait\<close>;
  \<^verbatim>\<open>pthread_cond_signal\<close> unblocks at least one blocked thread, if there is one; a thread may
  also wake for no reason. A thread that was woken has to get the mutex again and tests the
  fill count again, and any other reader may come first. The histories of accepted and
  delivered items are kept beside the state, to state what the interleaving preserves.
\<close>

section \<open>Steps\<close>

record 'u rb_sys =
  ring :: "'u RingBuffer"
  blocked :: "nat set"
  awake :: "nat set"
  accepted :: "byte list list"
  delivered :: "byte list list"

definition rb_sys_init :: "'u RingBuffer \<Rightarrow> 'u rb_sys" where
  "rb_sys_init rb = \<lparr>ring = rb, blocked = {}, awake = {}, accepted = [], delivered = []\<rparr>"

inductive rb_step :: "'u rb_sys \<Rightarrow> 'u rb_sys \<Rightarrow> bool" where
  put_full: "ringbuffer_put (ring s) e = Some (-1, rb', False) \<Longrightarrow>
    rb_step s (s\<lparr>ring := rb'\<rparr>)"
| put_quiet: "length e = rb_elem_size (ring s) \<Longrightarrow>
    ringbuffer_put (ring s) e = Some (0, rb', False) \<Longrightarrow>
    rb_step s (s\<lparr>ring := rb', accepted := accepted s @ [e]\<rparr>)"
| put_signal: "length e = rb_elem_size (ring s) \<Longrightarrow>
    ringbuffer_put (ring s) e = Some (0, rb', True) \<Longrightarrow>
    W \<subseteq> blocked s \<Longrightarrow> W \<noteq> {} \<or> blocked s = {} \<Longrightarrow>
    rb_step s (s\<lparr>ring := rb', accepted := accepted s @ [e],
                 blocked := blocked s - W, awake := awake s \<union> W\<rparr>)"
| get_wait: "t \<notin> blocked s \<union> awake s \<Longrightarrow>
    ringbuffer_get (ring s) = Some (Get_Waits rb') \<Longrightarrow>
    rb_step s (s\<lparr>ring := rb', blocked := insert t (blocked s)\<rparr>)"
| get_done: "t \<notin> blocked s \<union> awake s \<Longrightarrow>
    ringbuffer_get (ring s) = Some (Get_Done e rb') \<Longrightarrow>
    rb_step s (s\<lparr>ring := rb', delivered := delivered s @ [e]\<rparr>)"
| wake_wait: "t \<in> awake s \<Longrightarrow>
    ringbuffer_get_wakeup (ring s) = Some (Get_Waits rb') \<Longrightarrow>
    rb_step s (s\<lparr>ring := rb', awake := awake s - {t}, blocked := insert t (blocked s)\<rparr>)"
| wake_done: "t \<in> awake s \<Longrightarrow>
    ringbuffer_get_wakeup (ring s) = Some (Get_Done e rb') \<Longrightarrow>
    rb_step s (s\<lparr>ring := rb', awake := awake s - {t}, delivered := delivered s @ [e]\<rparr>)"
| spurious: "t \<in> blocked s \<Longrightarrow>
    rb_step s (s\<lparr>blocked := blocked s - {t}, awake := insert t (awake s)\<rparr>)"

inductive rb_reach :: "'u RingBuffer \<Rightarrow> 'u rb_sys \<Rightarrow> bool" for rb0 where
  start: "rb_reach rb0 (rb_sys_init rb0)"
| more: "rb_reach rb0 s \<Longrightarrow> rb_step s s' \<Longrightarrow> rb_reach rb0 s'"

section \<open>Invariant\<close>

text \<open>
  The waiter count is the number of threads inside \<^verbatim>\<open>ringbuffer_get\<close>, and as long as a
  thread is blocked there are at least as many woken threads as stored items.
\<close>

definition rb_sys_inv :: "'u rb_sys \<Rightarrow> bool" where
  "rb_sys_inv s \<longleftrightarrow>
     rb_wf (ring s) \<and> finite (blocked s) \<and> finite (awake s) \<and> blocked s \<inter> awake s = {} \<and>
     rb_waiters (ring s) = int (card (blocked s) + card (awake s)) \<and>
     (blocked s \<noteq> {} \<longrightarrow> nat (rb_used (ring s)) \<le> card (awake s)) \<and>
     delivered s @ rb_contents (ring s) = accepted s"

lemma put_full_inv:
  assumes "rb_wf rb" and "ringbuffer_put rb e = Some (-1, rb', False)"
  shows "rb' = rb"
proof -
  have "rb_is_full rb"
    using assms(2) by (auto simp: ringbuffer_put_def bind_eq_Some_conv Let_def split: if_splits)
  then show ?thesis using assms(2) by (simp add: ringbuffer_put_full)
qed

lemma put_room_inv:
  assumes wf: "rb_wf rb" and e: "length e = rb_elem_size rb"
    and p: "ringbuffer_put rb e = Some (0, rb', sig)"
  shows "rb_wf rb'" and "rb_contents rb' = rb_contents rb @ [e]"
    and "rb_waiters rb' = rb_waiters rb" and "rb_used rb' = rb_used rb + 1"
    and "sig \<longleftrightarrow> 0 < rb_waiters rb"
proof -
  have "\<not> rb_is_full rb" using p by (auto simp: ringbuffer_put_full)
  then have "rb_used rb < rb_size rb" using wf by (simp add: rb_is_full_def rb_wf_def)
  from ringbuffer_put_room [OF wf this e]
  obtain rb1 where "ringbuffer_put rb e = Some (0, rb1, rb_waiters rb > 0)" "rb_wf rb1"
      "rb_contents rb1 = rb_contents rb @ [e]" "rb_waiters rb1 = rb_waiters rb"
      "rb_used rb1 = rb_used rb + 1" by metis
  with p show "rb_wf rb'" "rb_contents rb' = rb_contents rb @ [e]"
    "rb_waiters rb' = rb_waiters rb" "rb_used rb' = rb_used rb + 1" "sig \<longleftrightarrow> 0 < rb_waiters rb"
    by simp_all
qed

lemma get_waits_inv:
  assumes "rb_wf rb" and "rb_get_test rb = Some (Get_Waits rb')"
  shows "rb' = rb \<and> rb_used rb = 0"
  using assms by (auto simp: rb_get_test_def rb_is_empty_def Let_def bind_eq_Some_conv split: if_splits)

lemma get_done_inv:
  assumes wf: "rb_wf rb" and g: "rb_get_test rb = Some (Get_Done e rb')"
  shows "rb_wf rb'" and "rb_contents rb = e # rb_contents rb'"
    and "rb_waiters rb' = rb_waiters rb - 1" and "rb_used rb = rb_used rb' + 1"
proof -
  have ne: "rb_used rb \<noteq> 0" using g by (auto simp: rb_get_test_def rb_is_empty_def)
  from rb_get_test_nonempty [OF wf this]
  obtain rb1 where "rb_get_test rb = Some (Get_Done (hd (rb_contents rb)) rb1)" "rb_wf rb1"
      "rb_contents rb1 = tl (rb_contents rb)" "rb_waiters rb1 = rb_waiters rb - 1"
      "rb_used rb1 = rb_used rb - 1" by metis
  moreover have "rb_contents rb \<noteq> []"
    using ne wf by (auto simp: rb_contents_empty rb_is_empty_def)
  ultimately show "rb_wf rb'" "rb_contents rb = e # rb_contents rb'"
    "rb_waiters rb' = rb_waiters rb - 1" "rb_used rb = rb_used rb' + 1"
    using g by simp_all
qed

lemma rb_sys_inv_used: "rb_sys_inv s \<Longrightarrow> 0 \<le> rb_used (ring s)"
  by (simp add: rb_sys_inv_def rb_wf_def)

lemma rb_step_inv:
  assumes "rb_step s s'" and inv: "rb_sys_inv s"
  shows "rb_sys_inv s'"
  using assms(1)
proof cases
  case (put_full e rb')
  then show ?thesis using put_full_inv inv by (fastforce simp: rb_sys_inv_def)
next
  case (put_quiet e rb')
  note p = put_room_inv [OF _ put_quiet(2,3)]
  have "\<not> 0 < rb_waiters (ring s)" using p(5) inv by (auto simp: rb_sys_inv_def)
  moreover have "rb_waiters (ring s) = int (card (blocked s) + card (awake s))" "finite (blocked s)"
    using inv by (simp_all only: rb_sys_inv_def)
  ultimately have "card (blocked s) = 0" by linarith
  then have "blocked s = {}" using inv by (simp add: rb_sys_inv_def)
  then show ?thesis using p inv put_quiet(1) by (auto simp: rb_sys_inv_def)
next
  case (put_signal e rb' W)
  note p = put_room_inv [OF _ put_signal(2,3)]
  have f: "finite W" "finite (blocked s)" "finite (awake s)" "awake s \<inter> W = {}"
    using inv put_signal(4) by (auto simp: rb_sys_inv_def finite_subset)
  have c: "card (blocked s - W) + card (awake s \<union> W) = card (blocked s) + card (awake s)"
    using f put_signal(4) card_mono [OF f(2) put_signal(4)]
    by (simp add: card_Diff_subset card_Un_disjoint)
  have "nat (rb_used rb') \<le> card (awake s \<union> W)" if "blocked s - W \<noteq> {}"
  proof -
    have "blocked s \<noteq> {}" "W \<noteq> {}" using that put_signal(5) by auto
    then have "nat (rb_used (ring s)) \<le> card (awake s)" "0 < card W"
      using inv f by (auto simp: rb_sys_inv_def card_gt_0_iff)
    then show ?thesis using f p(4) inv by (auto simp: card_Un_disjoint rb_sys_inv_def)
  qed
  then show ?thesis using p c inv f put_signal(1) by (auto simp: rb_sys_inv_def)
next
  case (get_wait t rb')
  have "rb' = ring s\<lparr>rb_waiters := rb_waiters (ring s) + 1\<rparr> \<and> rb_used (ring s) = 0"
    using get_waits_inv [of "ring s\<lparr>rb_waiters := rb_waiters (ring s) + 1\<rparr>" rb'] get_wait(3) inv
    by (simp add: ringbuffer_get_def rb_sys_inv_def)
  then show ?thesis using inv get_wait(1,2) by (auto simp: rb_sys_inv_def)
next
  case (get_done t e rb')
  note g = get_done_inv [of "ring s\<lparr>rb_waiters := rb_waiters (ring s) + 1\<rparr>" e rb']
  have "rb_wf rb' \<and> rb_contents (ring s) = e # rb_contents rb' \<and>
      rb_waiters rb' = rb_waiters (ring s) \<and> rb_used (ring s) = rb_used rb' + 1"
    using g get_done(3) inv by (simp add: ringbuffer_get_def rb_sys_inv_def)
  then show ?thesis using inv get_done(1) by (auto simp: rb_sys_inv_def)
next
  case (wake_wait t rb')
  have r: "rb' = ring s \<and> rb_used (ring s) = 0"
    using get_waits_inv wake_wait(3) inv by (auto simp: ringbuffer_get_wakeup_def rb_sys_inv_def)
  have "t \<notin> blocked s" "0 < card (awake s)"
    using inv wake_wait(2) by (auto simp: rb_sys_inv_def card_gt_0_iff)
  then show ?thesis using inv wake_wait(1,2) r by (auto simp: rb_sys_inv_def card_Diff_singleton)
next
  case (wake_done t e rb')
  have r: "rb_wf rb' \<and> rb_contents (ring s) = e # rb_contents rb' \<and>
      rb_waiters rb' = rb_waiters (ring s) - 1 \<and> rb_used (ring s) = rb_used rb' + 1"
    using get_done_inv [of "ring s" e rb'] wake_done(3) inv
    by (simp add: ringbuffer_get_wakeup_def rb_sys_inv_def)
  have "0 < card (awake s)"
    using inv wake_done(2) by (auto simp: rb_sys_inv_def card_gt_0_iff)
  then show ?thesis
    using inv wake_done(1,2) r by (auto simp: rb_sys_inv_def card_Diff_singleton)
next
  case (spurious t)
  then have "t \<notin> awake s" "0 < card (blocked s)"
    using inv by (auto simp: rb_sys_inv_def card_gt_0_iff)
  then show ?thesis using inv spurious by (auto simp: rb_sys_inv_def card_Diff_singleton)
qed

lemma rb_reach_inv: "rb_reach rb0 s \<Longrightarrow> rb_wf rb0 \<Longrightarrow> rb_contents rb0 = [] \<Longrightarrow>
    rb_waiters rb0 = 0 \<Longrightarrow> rb_sys_inv s"
proof (induction rule: rb_reach.induct)
  case start
  then show ?case by (simp add: rb_sys_inv_def rb_sys_init_def)
next
  case (more s s')
  then show ?case by (blast intro: rb_step_inv)
qed

section \<open>Properties\<close>

text \<open>C9: No lost wake-up: in every state that any number of threads can reach on a new buffer,
  whenever an item is stored while a reader is still blocked, some reader has already been woken
  and its next step takes an item. So a stored item never waits for a blocked reader alone, even
  though each put signals once, readers that arrive later may overtake the woken ones, and
  wake-ups may be spurious.\<close>
theorem no_lost_wakeup:
  assumes "0 < sz" and "0 < n" and "sz * int n \<le> INT_MAX"
    and "rb_reach (rb_new sz n) s" and "blocked s \<noteq> {}" and "\<not> ringbuffer_empty (ring s)"
  shows "\<exists>t \<in> awake s. \<exists>e rb'.
    ringbuffer_get_wakeup (ring s) = Some (Get_Done e rb') \<and> rb_wf rb' \<and>
    rb_step s (s\<lparr>ring := rb', awake := awake s - {t}, delivered := delivered s @ [e]\<rparr>)"
proof -
  have inv: "rb_sys_inv s"
    by (rule rb_reach_inv [OF assms(4)]) (simp_all add: rb_new_wf assms(1-3))
  have used: "rb_used (ring s) \<noteq> 0" and pos: "0 < nat (rb_used (ring s))"
    using assms(6) rb_sys_inv_used [OF inv] by (simp_all add: ringbuffer_empty_def rb_is_empty_def)
  have "nat (rb_used (ring s)) \<le> card (awake s)" using inv assms(5) by (simp add: rb_sys_inv_def)
  with pos have "0 < card (awake s)" by linarith
  then obtain t where t: "t \<in> awake s" by (auto simp: card_gt_0_iff)
  have wf: "rb_wf (ring s)" using inv by (simp add: rb_sys_inv_def)
  obtain rb' where "rb_get_test (ring s) = Some (Get_Done (hd (rb_contents (ring s))) rb')" "rb_wf rb'"
    using rb_get_test_nonempty [OF wf used] by metis
  then show ?thesis
    using t rb_step.wake_done [OF t] by (auto simp: ringbuffer_get_wakeup_def)
qed

text \<open>C8: Whatever the interleaving of writers, readers and wake-ups on a new buffer, what the
  readers have been given so far is a prefix of what the writers were told was accepted, in the
  same order: nothing is lost, duplicated, reordered or made up, and what is missing is exactly
  what the buffer holds. The waiter count is the number of threads inside
  \<^verbatim>\<open>ringbuffer_get\<close>.\<close>
theorem threads_fifo:
  assumes "0 < sz" and "0 < n" and "sz * int n \<le> INT_MAX" and "rb_reach (rb_new sz n) s"
  shows "accepted s = delivered s @ rb_contents (ring s) \<and>
    int (length (rb_contents (ring s))) \<le> rb_size (ring s) \<and>
    rb_waiters (ring s) = int (card (blocked s \<union> awake s))"
proof -
  have inv: "rb_sys_inv s"
    by (rule rb_reach_inv [OF assms(4)]) (simp_all add: rb_new_wf assms(1-3))
  then have "card (blocked s \<union> awake s) = card (blocked s) + card (awake s)"
    by (simp add: rb_sys_inv_def card_Un_disjoint)
  then show ?thesis using inv by (auto simp: rb_sys_inv_def rb_wf_def)
qed

text \<open>A run with two readers and one writer: both readers block, the writer stores an item and
  wakes reader 1.\<close>

definition rb41 :: "unit RingBuffer" where
  "rb41 = rb_new 4 1"

lemma rb41_facts:
  "rb_wf rb41" "rb_elem_size rb41 = 1" "rb_used rb41 = 0" "rb_size rb41 = 4" "rb_waiters rb41 = 0"
  "rb_contents rb41 = []"
  by (simp_all add: rb41_def rb_new_wf INT_MAX_def)

definition threads_example :: "unit rb_sys" where
  "threads_example = \<lparr>ring = (case ringbuffer_put (rb41\<lparr>rb_waiters := 2\<rparr>) [9] of
       Some (_, rb, _) \<Rightarrow> rb), blocked = {2}, awake = {1}, accepted = [[9]], delivered = []\<rparr>"

lemma threads_example_put:
  "ringbuffer_put (rb41\<lparr>rb_waiters := 2\<rparr>) [9] = Some (0, ring threads_example, True)"
proof -
  have wf: "rb_wf (rb41\<lparr>rb_waiters := 2\<rparr>)" by (simp add: rb41_facts)
  obtain rb' where "ringbuffer_put (rb41\<lparr>rb_waiters := 2\<rparr>) [9] = Some (0, rb', True)"
    using ringbuffer_put_room [OF wf, of "[9]"] by (auto simp: rb41_facts)
  then show ?thesis by (simp add: threads_example_def)
qed

lemma threads_example_reach: "rb_reach rb41 threads_example"
proof -
  let ?s1 = "rb_sys_init (rb41\<lparr>rb_waiters := 1\<rparr>)\<lparr>blocked := {1}\<rparr>"
  let ?s2 = "rb_sys_init (rb41\<lparr>rb_waiters := 2\<rparr>)\<lparr>blocked := {2, 1}\<rparr>"
  have g: "ringbuffer_get (rb41\<lparr>rb_waiters := w\<rparr>) = Some (Get_Waits (rb41\<lparr>rb_waiters := w + 1\<rparr>))" for w
    by (simp add: ringbuffer_get_def rb_get_test_def rb_is_empty_def rb41_facts)
  have "ringbuffer_get rb41 = Some (Get_Waits (rb41\<lparr>rb_waiters := 1\<rparr>))"
    by (simp add: ringbuffer_get_def rb_get_test_def rb_is_empty_def rb41_facts)
  then have "rb_step (rb_sys_init rb41) ?s1"
    using rb_step.get_wait [of 1 "rb_sys_init rb41"] by (simp add: rb_sys_init_def)
  moreover have "rb_step ?s1 ?s2"
  proof -
    have "2 \<notin> blocked ?s1 \<union> awake ?s1" by (simp add: rb_sys_init_def)
    moreover have "ringbuffer_get (ring ?s1) = Some (Get_Waits (rb41\<lparr>rb_waiters := 2\<rparr>))"
      using g [of 1] by (simp add: rb_sys_init_def)
    ultimately have "rb_step ?s1 (?s1\<lparr>ring := rb41\<lparr>rb_waiters := 2\<rparr>, blocked := insert 2 (blocked ?s1)\<rparr>)"
      by (rule rb_step.get_wait)
    then show ?thesis by (simp add: rb_sys_init_def)
  qed
  moreover have "rb_step ?s2 threads_example"
  proof -
    have "length [9 :: byte] = rb_elem_size (ring ?s2)"
      by (simp add: rb_sys_init_def rb41_facts)
    moreover have "ringbuffer_put (ring ?s2) [9] = Some (0, ring threads_example, True)"
      using threads_example_put by (simp add: rb_sys_init_def)
    ultimately have "rb_step ?s2 (?s2\<lparr>ring := ring threads_example, accepted := accepted ?s2 @ [[9]],
        blocked := blocked ?s2 - {1}, awake := awake ?s2 \<union> {1}\<rparr>)"
      by (rule rb_step.put_signal) (simp_all add: rb_sys_init_def)
    moreover have "?s2\<lparr>ring := ring threads_example, accepted := accepted ?s2 @ [[9]],
        blocked := blocked ?s2 - {1}, awake := awake ?s2 \<union> {1}\<rparr> = threads_example"
      unfolding rb_sys_init_def threads_example_def by auto
    ultimately show ?thesis by simp
  qed
  ultimately show ?thesis by (blast intro: rb_reach.intros)
qed

lemma threads_example_used: "rb_used (ring threads_example) = 1"
  using put_room_inv(4) [OF _ _ threads_example_put] rb41_facts by simp

theorem no_lost_wakeup_witness:
  "\<exists>e rb'. ringbuffer_get_wakeup (ring threads_example) = Some (Get_Done e rb') \<and> rb_wf rb'"
proof -
  have "blocked threads_example \<noteq> {}" "\<not> ringbuffer_empty (ring threads_example)"
    using threads_example_used
    by (simp_all add: threads_example_def ringbuffer_empty_def rb_is_empty_def)
  then show ?thesis
    using no_lost_wakeup [OF _ _ _ threads_example_reach [unfolded rb41_def]] by (auto simp: INT_MAX_def)
qed

theorem threads_fifo_witness: "[[9]] = delivered threads_example @ rb_contents (ring threads_example)"
  using threads_fifo [OF _ _ _ threads_example_reach [unfolded rb41_def]] by (simp add: threads_example_def INT_MAX_def)

end
