(* ===== verification/Threading.thy ===== *)
theory Threading
  imports Vmon_Prelude
begin

text \<open>
  The event of \<^verbatim>\<open>lib/threading.c\<close>: a flag, a condition and a count of waiters under a
  mutex. Every function is one atomic step, except that \<^verbatim>\<open>event_wait\<close> releases the mutex
  at each \<^verbatim>\<open>pthread_cond_timedwait\<close>; it is split there. The deadline is computed from the
  clock reading by \<^verbatim>\<open>timespec_addms\<close>.
\<close>

section \<open>Deadlines\<close>

record timespec =
  tv_sec :: int
  tv_nsec :: int

definition timespec_addms :: "timespec \<Rightarrow> int \<Rightarrow> timespec" where
  "timespec_addms ts ms =
     (let sec = to_int32 (c_div ms 1000);
          ms = ms - sec * 1000;
          ts = ts\<lparr>tv_nsec := tv_nsec ts + ms * 1000000\<rparr>;
          ts = ts\<lparr>tv_sec := tv_sec ts + (c_div (tv_nsec ts) 1000000000 + sec)\<rparr>
      in ts\<lparr>tv_nsec := c_rem (tv_nsec ts) 1000000000\<rparr>)"

definition ts_total :: "timespec \<Rightarrow> int" where
  \<comment> \<open>nanoseconds\<close>
  "ts_total ts = tv_sec ts * 1000000000 + tv_nsec ts"

definition ts_valid :: "timespec \<Rightarrow> bool" where
  "ts_valid ts \<longleftrightarrow> 0 \<le> tv_nsec ts \<and> tv_nsec ts < 1000000000"

lemma c_div_rem: "c_div a b * b + c_rem a b = a"
  by (simp add: c_rem_def)

lemma c_div_1000_int32: "\<bar>ms\<bar> \<le> 2 ^ 31 \<Longrightarrow> to_int32 (c_div ms 1000) = c_div ms 1000"
proof -
  assume a: "\<bar>ms\<bar> \<le> 2 ^ 31"
  have "\<bar>ms\<bar> div 1000 < 2 ^ 31" using a by simp
  then have "\<bar>c_div ms 1000\<bar> < 2 ^ 31"
    by (auto simp: c_div_def abs_mult sgn_if)
  then show ?thesis by (simp add: to_int32_alt)
qed

lemma c_rem_range: "0 < b \<Longrightarrow> 0 \<le> a \<Longrightarrow> 0 \<le> c_rem a b \<and> c_rem a b < b"
  by (simp add: c_rem_pos)

lemma c_rem_neg: "0 < b \<Longrightarrow> a < 0 \<Longrightarrow> c_rem a b \<le> 0 \<and> - b < c_rem a b \<and> (c_rem a b = 0 \<longleftrightarrow> b dvd a)"
proof -
  assume a: "0 < b" "a < 0"
  have e: "c_rem a b = - ((- a) mod b)"
    using a by (simp add: c_rem_def c_div_def minus_mult_div_eq_mod [symmetric])
  have "0 \<le> (- a) mod b" "(- a) mod b < b" using a by simp_all
  moreover have "(- a) mod b = 0 \<longleftrightarrow> b dvd a" by (metis dvd_eq_mod_eq_0 dvd_minus_iff)
  ultimately show ?thesis by (simp add: e)
qed

text \<open>C37: Adding a number of milliseconds (any \<^verbatim>\<open>gint\<close>) to a clock reading yields exactly the
  later (or, for a negative number, earlier) instant. For a number that is not negative the
  nanoseconds are again below one second, as \<^verbatim>\<open>pthread_cond_timedwait\<close> requires; in
  general they are not negative exactly when the fraction of a second that is added does not
  take more nanoseconds away than the reading has, or takes whole seconds away.\<close>
theorem timespec_addms_correct:
  assumes "ts_valid ts" and "- (2 ^ 31) \<le> ms" and "ms < 2 ^ 31"
  shows "ts_total (timespec_addms ts ms) = ts_total ts + ms * 1000000 \<and>
    (0 \<le> ms \<longrightarrow> ts_valid (timespec_addms ts ms)) \<and>
    (ts_valid (timespec_addms ts ms) \<longleftrightarrow> 0 \<le> tv_nsec ts + c_rem ms 1000 * 1000000)"
proof -
  let ?n = "tv_nsec ts + c_rem ms 1000 * 1000000"
  have s: "to_int32 (c_div ms 1000) = c_div ms 1000"
    using assms(2,3) by (intro c_div_1000_int32) auto
  have m: "ms * 1000000 - 1000000000 * c_div ms 1000 = c_rem ms 1000 * 1000000"
    by (simp add: c_rem_def)
  have nsec: "tv_nsec (timespec_addms ts ms) = c_rem ?n 1000000000"
    and sec: "tv_sec (timespec_addms ts ms) = tv_sec ts + (c_div ?n 1000000000 + c_div ms 1000)"
    by (simp_all add: timespec_addms_def Let_def s m)
  have total: "ts_total (timespec_addms ts ms) = ts_total ts + ms * 1000000"
    using c_div_rem [of ?n 1000000000] c_div_rem [of ms 1000]
    by (simp add: ts_total_def nsec sec algebra_simps)
  have r: "- 1000 < c_rem ms 1000"
    using c_rem_range [of 1000 ms] c_rem_neg [of 1000 ms] by (cases "0 \<le> ms") auto
  have valid: "ts_valid (timespec_addms ts ms) \<longleftrightarrow> 0 \<le> ?n"
  proof (cases "0 \<le> ?n")
    case True
    then show ?thesis using c_rem_range [of 1000000000 ?n] by (simp add: ts_valid_def nsec)
  next
    case False
    moreover have "- 1000000000 < ?n" using r assms(1) by (simp add: ts_valid_def)
    ultimately have "\<not> 1000000000 dvd ?n"
      using zdvd_imp_le [of 1000000000 "- ?n"] by (auto simp: dvd_minus_iff)
    then show ?thesis
      using False c_rem_neg [of 1000000000 ?n] by (auto simp: ts_valid_def nsec)
  qed
  have "0 \<le> ms \<longrightarrow> 0 \<le> ?n"
    using c_rem_range [of 1000 ms] assms(1) by (auto simp: ts_valid_def)
  then show ?thesis using total valid by blast
qed

theorem timespec_addms_correct_witness:
  "ts_total (timespec_addms \<lparr>tv_sec = 5, tv_nsec = 800000000\<rparr> 300) = 6100000000 \<and>
   \<not> ts_valid (timespec_addms \<lparr>tv_sec = 5, tv_nsec = 0\<rparr> (- 1))"
  using timespec_addms_correct [of "\<lparr>tv_sec = 5, tv_nsec = 800000000\<rparr>" 300]
    timespec_addms_correct [of "\<lparr>tv_sec = 5, tv_nsec = 0\<rparr>" "- 1"]
  by (simp add: ts_valid_def ts_total_def c_rem_def c_div_def)

section \<open>Events\<close>

record Event =
  nwaiters :: int
  flag :: bool

definition event_init :: Event where
  "event_init = \<lparr>nwaiters = 0, flag = False\<rparr>"

definition event_set :: "Event \<Rightarrow> Event \<times> bool" where
  \<comment> \<open>the event, and whether \<open>pthread_cond_signal\<close> is called\<close>
  "event_set ev = (ev\<lparr>flag := True\<rparr>, nwaiters ev \<noteq> 0)"

definition event_clear :: "Event \<Rightarrow> Event" where
  "event_clear ev = ev\<lparr>flag := False\<rparr>"

definition event_is_set :: "Event \<Rightarrow> bool" where
  "event_is_set ev = flag ev"

datatype wait_step = Wait_Blocks Event | Wait_Returns bool Event

definition event_wait_test :: "Event \<Rightarrow> int \<Rightarrow> wait_step" where
  \<comment> \<open>from the loop test on: the next timed wait, or the end of \<open>event_wait\<close>\<close>
  "event_wait_test ev rc =
     (if \<not> flag ev \<and> rc = 0 then Wait_Blocks ev
      else Wait_Returns (flag ev) (ev\<lparr>nwaiters := nwaiters ev - 1\<rparr>))"

definition event_wait :: "Event \<Rightarrow> wait_step" where
  \<comment> \<open>up to the first timed wait or the return\<close>
  "event_wait ev = event_wait_test (ev\<lparr>nwaiters := nwaiters ev + 1\<rparr>) 0"

definition event_wait_wakeup :: "Event \<Rightarrow> int \<Rightarrow> wait_step" where
  \<comment> \<open>\<open>pthread_cond_timedwait\<close> returned \<open>rc\<close>\<close>
  "event_wait_wakeup ev rc = event_wait_test ev rc"

text \<open>
  The threads of a set \<open>T\<close> wait; any thread sets or clears. \<open>awake\<close> maps a thread whose timed
  wait has returned to the code it returned (0, or not 0 for a timeout).
\<close>

record ev_sys =
  event :: Event
  ev_blocked :: "nat set"
  ev_awake :: "nat \<rightharpoonup> int"

definition ev_sys_init :: ev_sys where
  "ev_sys_init = \<lparr>event = event_init, ev_blocked = {}, ev_awake = Map.empty\<rparr>"

inductive ev_step :: "nat set \<Rightarrow> ev_sys \<Rightarrow> ev_sys \<Rightarrow> bool" for T where
  set_quiet: "event_set (event s) = (ev', False) \<Longrightarrow> ev_step T s (s\<lparr>event := ev'\<rparr>)"
| set_signal: "event_set (event s) = (ev', True) \<Longrightarrow> W \<subseteq> ev_blocked s \<Longrightarrow>
    W \<noteq> {} \<or> ev_blocked s = {} \<Longrightarrow>
    ev_step T s (s\<lparr>event := ev', ev_blocked := ev_blocked s - W,
                   ev_awake := (\<lambda>t. if t \<in> W then Some 0 else ev_awake s t)\<rparr>)"
| clear: "ev_step T s (s\<lparr>event := event_clear (event s)\<rparr>)"
| wait_blocks: "t \<in> T \<Longrightarrow> t \<notin> ev_blocked s \<union> dom (ev_awake s) \<Longrightarrow>
    event_wait (event s) = Wait_Blocks ev' \<Longrightarrow>
    ev_step T s (s\<lparr>event := ev', ev_blocked := insert t (ev_blocked s)\<rparr>)"
| wait_returns: "t \<in> T \<Longrightarrow> t \<notin> ev_blocked s \<union> dom (ev_awake s) \<Longrightarrow>
    event_wait (event s) = Wait_Returns r ev' \<Longrightarrow> ev_step T s (s\<lparr>event := ev'\<rparr>)"
| wakes: "t \<in> ev_blocked s \<Longrightarrow>
    ev_step T s (s\<lparr>ev_blocked := ev_blocked s - {t}, ev_awake := (ev_awake s)(t \<mapsto> rc)\<rparr>)"
| wake_blocks: "ev_awake s t = Some rc \<Longrightarrow> event_wait_wakeup (event s) rc = Wait_Blocks ev' \<Longrightarrow>
    ev_step T s (s\<lparr>event := ev', ev_blocked := insert t (ev_blocked s),
                   ev_awake := (ev_awake s)(t := None)\<rparr>)"
| wake_returns: "ev_awake s t = Some rc \<Longrightarrow> event_wait_wakeup (event s) rc = Wait_Returns r ev' \<Longrightarrow>
    ev_step T s (s\<lparr>event := ev', ev_awake := (ev_awake s)(t := None)\<rparr>)"

inductive ev_reach :: "nat set \<Rightarrow> ev_sys \<Rightarrow> bool" for T where
  start: "ev_reach T ev_sys_init"
| more: "ev_reach T s \<Longrightarrow> ev_step T s s' \<Longrightarrow> ev_reach T s'"

lemmas event_defs = event_set_def event_clear_def event_wait_def event_wait_wakeup_def
  event_wait_test_def event_init_def

definition ev_inside :: "ev_sys \<Rightarrow> nat set" where
  \<comment> \<open>the threads inside \<open>event_wait\<close>\<close>
  "ev_inside s = ev_blocked s \<union> dom (ev_awake s)"

definition ev_inv :: "nat set \<Rightarrow> ev_sys \<Rightarrow> bool" where
  "ev_inv T s \<longleftrightarrow> finite (ev_inside s) \<and> ev_blocked s \<inter> dom (ev_awake s) = {} \<and>
     ev_inside s \<subseteq> T \<and> nwaiters (event s) = int (card (ev_inside s)) \<and>
     (flag (event s) \<longrightarrow> ev_blocked s = {} \<or> (\<exists>t \<in> T. \<exists>u \<in> T. t \<noteq> u))"

lemma dom_signal: "dom (\<lambda>t. if t \<in> W then Some 0 else f t) = W \<union> dom f"
  by (auto split: if_splits)

lemma event_wait_blocksD:
  "event_wait ev = Wait_Blocks ev' \<Longrightarrow> \<not> flag ev \<and> ev' = ev\<lparr>nwaiters := nwaiters ev + 1\<rparr>"
  by (auto simp: event_wait_def event_wait_test_def split: if_splits)

lemma event_wait_returnsD:
  "event_wait ev = Wait_Returns r ev' \<Longrightarrow> r \<and> flag ev \<and> ev' = ev"
  by (auto simp: event_wait_def event_wait_test_def split: if_splits)

lemma event_wakeup_blocksD:
  "event_wait_wakeup ev rc = Wait_Blocks ev' \<Longrightarrow> \<not> flag ev \<and> rc = 0 \<and> ev' = ev"
  by (auto simp: event_wait_wakeup_def event_wait_test_def split: if_splits)

lemma event_wakeup_returnsD:
  "event_wait_wakeup ev rc = Wait_Returns r ev' \<Longrightarrow>
     r = flag ev \<and> (flag ev \<or> rc \<noteq> 0) \<and> ev' = ev\<lparr>nwaiters := nwaiters ev - 1\<rparr>"
  by (auto simp: event_wait_wakeup_def event_wait_test_def split: if_splits)

lemma ev_step_inv:
  assumes "ev_step T s s'" and inv: "ev_inv T s"
  shows "ev_inv T s'"
  using assms(1)
proof cases
  case (set_quiet ev')
  then have "card (ev_inside s) = 0" "ev' = (event s)\<lparr>flag := True\<rparr>"
    using inv by (auto simp: event_set_def ev_inv_def)
  then show ?thesis using inv set_quiet by (auto simp: ev_inv_def ev_inside_def)
next
  case (set_signal ev' W)
  have in': "ev_inside s' = ev_inside s" "ev_blocked s' \<inter> dom (ev_awake s') = {}"
    using set_signal inv by (auto simp: ev_inside_def dom_signal ev_inv_def split: if_splits)
  have "ev_blocked s - W = {} \<or> (\<exists>t \<in> T. \<exists>u \<in> T. t \<noteq> u)"
  proof (cases "ev_blocked s - W = {}")
    case False
    then obtain x y where "x \<in> ev_blocked s" "x \<notin> W" "y \<in> W" "y \<in> ev_blocked s"
      using set_signal(3,4) by auto
    moreover have "ev_blocked s \<subseteq> T" using inv by (simp add: ev_inv_def ev_inside_def)
    ultimately have "x \<in> T" "y \<in> T" "x \<noteq> y" by auto
    then show ?thesis by (intro disjI2 bexI)
  qed simp
  then show ?thesis
    using set_signal(1,2) inv in' by (auto simp: ev_inv_def event_set_def)
next
  case clear
  then show ?thesis using inv by (simp add: ev_inv_def ev_inside_def event_clear_def)
next
  case (wait_blocks t ev')
  then show ?thesis
    using inv event_wait_blocksD [OF wait_blocks(4)]
    by (simp add: ev_inv_def ev_inside_def)
next
  case (wait_returns t r ev')
  then show ?thesis using inv event_wait_returnsD [OF wait_returns(4)] by simp
next
  case (wakes t rc)
  then have "ev_inside s' = ev_inside s" by (auto simp: ev_inside_def)
  then show ?thesis using wakes inv by (auto simp: ev_inv_def)
next
  case (wake_blocks t rc ev')
  then have "ev_inside s' = ev_inside s" by (auto simp: ev_inside_def)
  then show ?thesis
    using wake_blocks inv event_wakeup_blocksD [OF wake_blocks(3)] by (auto simp: ev_inv_def)
next
  case (wake_returns t rc r ev')
  have t: "t \<in> ev_inside s" "t \<notin> ev_blocked s"
    using wake_returns(2) inv by (auto simp: ev_inside_def ev_inv_def)
  have in': "ev_inside s' = ev_inside s - {t}"
    using wake_returns(1) t by (auto simp: ev_inside_def)
  have "0 < card (ev_inside s)" using t inv by (auto simp: card_gt_0_iff ev_inv_def)
  then have "int (card (ev_inside s')) = int (card (ev_inside s)) - 1"
    using t inv by (simp add: in' card_Diff_singleton ev_inv_def)
  then show ?thesis
    using wake_returns(1) inv in' event_wakeup_returnsD [OF wake_returns(3)]
    by (auto simp: ev_inv_def)
qed

lemma ev_reach_inv: "ev_reach T s \<Longrightarrow> ev_inv T s"
proof (induction rule: ev_reach.induct)
  case start
  then show ?case
    by (simp add: ev_inv_def ev_inside_def ev_sys_init_def event_init_def)
next
  case (more s s')
  then show ?case by (blast intro: ev_step_inv)
qed

text \<open>C38: For a single waiting thread the event never loses a wake-up: in every reachable state
  in which the flag is set that thread is not blocked, if it is inside \<^verbatim>\<open>event_wait\<close> its next
  step returns TRUE whatever its timed wait returned, and a call made then returns TRUE at once.
  The waiter count is the number of threads inside \<^verbatim>\<open>event_wait\<close>.\<close>
theorem event_single_waiter:
  assumes "ev_reach {t} s" and "event_is_set (event s)"
  shows "ev_blocked s = {} \<and> nwaiters (event s) = int (card (dom (ev_awake s))) \<and>
    event_wait (event s) = Wait_Returns True (event s) \<and>
    event_wait_wakeup (event s) rc =
      Wait_Returns True ((event s)\<lparr>nwaiters := nwaiters (event s) - 1\<rparr>)"
  using ev_reach_inv [OF assms(1)] assms(2)
  by (auto simp: ev_inv_def ev_inside_def event_is_set_def event_defs)

theorem event_single_waiter_witness:
  "event_wait \<lparr>nwaiters = 0, flag = True\<rparr> = Wait_Returns True \<lparr>nwaiters = 0, flag = True\<rparr>"
proof -
  have "ev_step {1} ev_sys_init (ev_sys_init\<lparr>event := \<lparr>nwaiters = 0, flag = True\<rparr>\<rparr>)"
    by (rule ev_step.set_quiet) (simp add: ev_sys_init_def event_defs)
  then have "ev_reach {1} (ev_sys_init\<lparr>event := \<lparr>nwaiters = 0, flag = True\<rparr>\<rparr>)"
    by (blast intro: ev_reach.intros)
  from event_single_waiter [OF this] show ?thesis by (simp add: event_is_set_def)
qed

text \<open>With two waiting threads \<^verbatim>\<open>event_set\<close> can strand one: it signals the condition once,
  so a state is reachable in which the flag is set, one thread has returned TRUE and is gone, and
  the other is still blocked with no wake-up on its way; only its timeout (or a spurious
  wake-up) ends its wait.\<close>
lemma event_set_strands_waiter:
  "\<exists>s. ev_reach {1, 2} s \<and> event_is_set (event s) \<and> ev_blocked s = {2} \<and>
     ev_awake s = Map.empty \<and> nwaiters (event s) = 1"
proof -
  let ?T = "{1, 2} :: nat set"
  let ?s1 = "\<lparr>event = \<lparr>nwaiters = 1, flag = False\<rparr>, ev_blocked = {1}, ev_awake = Map.empty\<rparr>"
  let ?s2 = "\<lparr>event = \<lparr>nwaiters = 2, flag = False\<rparr>, ev_blocked = {2, 1}, ev_awake = Map.empty\<rparr>"
  let ?s3 = "\<lparr>event = \<lparr>nwaiters = 2, flag = True\<rparr>, ev_blocked = {2}, 
    ev_awake = \<lambda>t. if t \<in> {1} then Some 0 else ev_awake ?s2 t\<rparr>"
  let ?s4 = "\<lparr>event = \<lparr>nwaiters = 1, flag = True\<rparr>, ev_blocked = {2}, ev_awake = Map.empty\<rparr>"
  have 1: "ev_step ?T ev_sys_init ?s1"
    using ev_step.wait_blocks [of 1 ?T ev_sys_init] by (simp add: ev_sys_init_def event_defs)
  have 2: "ev_step ?T ?s1 ?s2"
    using ev_step.wait_blocks [of 2 ?T ?s1] by (simp add: event_defs)
  have 3: "ev_step ?T ?s2 ?s3"
  proof -
    have "event_set (event ?s2) = (\<lparr>nwaiters = 2, flag = True\<rparr>, True)" by (simp add: event_defs)
    moreover have "{2, 1} - {1} = {2 :: nat}" by auto
    ultimately show ?thesis using ev_step.set_signal [of ?s2 _ "{1}" ?T] by simp
  qed
  have 4: "ev_step ?T ?s3 ?s4"
  proof -
    have "ev_step ?T ?s3 (?s3\<lparr>event := \<lparr>nwaiters = 1, flag = True\<rparr>,
        ev_awake := (ev_awake ?s3)(1 := None)\<rparr>)"
      by (rule ev_step.wake_returns [where t = 1 and rc = 0 and r = True]) (simp_all add: event_defs)
    moreover have "(ev_awake ?s3)(1 := None) = Map.empty" by (simp add: fun_eq_iff)
    ultimately show ?thesis by simp
  qed
  have "ev_reach ?T ?s4"
    by (rule ev_reach.more [OF ev_reach.more [OF ev_reach.more [OF ev_reach.more
          [OF ev_reach.start 1] 2] 3] 4])
  then show ?thesis by (intro exI [of _ ?s4]) (simp add: event_is_set_def)
qed

end
