(* ===== verification/C_String.thy ===== *)
theory C_String
  imports Vmon_Prelude "HOL-Library.Sublist"
begin

text \<open>
  C strings as lists of characters without the terminating NUL, and the functions of the C
  library that the sources use on them: comparison, search, digit conversion and the
  decimal conversions of \<^verbatim>\<open>printf\<close>.
\<close>

section \<open>Comparison and search\<close>

definition strequals :: "string \<Rightarrow> string \<Rightarrow> bool" where
  \<comment> \<open>\<open>strcmp (s1, s2) == 0\<close>\<close>
  "strequals s1 s2 \<longleftrightarrow> s1 = s2"

definition strncmp_eq :: "string \<Rightarrow> string \<Rightarrow> nat \<Rightarrow> bool" where
  \<comment> \<open>\<open>strncmp (s1, s2, n) == 0\<close>\<close>
  "strncmp_eq s1 s2 n \<longleftrightarrow> take n s1 = take n s2"

fun strstr :: "string \<Rightarrow> string \<Rightarrow> nat option" where
  \<comment> \<open>the offset of the first occurrence\<close>
  "strstr hay needle =
     (if prefix needle hay then Some 0
      else case hay of [] \<Rightarrow> None | c # cs \<Rightarrow> map_option Suc (strstr cs needle))"

declare strstr.simps [simp del]

definition strstartswith :: "string \<Rightarrow> string \<Rightarrow> bool" where
  "strstartswith longest pre \<longleftrightarrow> strstr longest pre = Some 0"

lemma strstartswith_prefix: "strstartswith longest pre \<longleftrightarrow> prefix pre longest"
proof
  assume "strstartswith longest pre"
  then show "prefix pre longest"
    by (auto simp: strstartswith_def strstr.simps [of longest] split: if_splits list.splits)
next
  assume "prefix pre longest"
  then show "strstartswith longest pre"
    by (simp add: strstartswith_def strstr.simps [of longest])
qed

section \<open>Digits\<close>

definition isdigit :: "char \<Rightarrow> bool" where
  "isdigit c \<longleftrightarrow> (48 :: nat) \<le> of_char c \<and> of_char c \<le> (57 :: nat)"

definition digit_val :: "char \<Rightarrow> nat" where
  "digit_val c = of_char c - 48"

definition digits_val :: "string \<Rightarrow> nat" where
  "digits_val = foldl (\<lambda>n c. 10 * n + digit_val c) 0"

definition LONG_MAX :: nat where
  "LONG_MAX = 2 ^ 63 - 1"

definition atol :: "string \<Rightarrow> nat" where
  \<comment> \<open>of a string that starts with digits or is empty; saturating as \<open>strtol\<close>\<close>
  "atol s = min (digits_val (takeWhile isdigit s)) LONG_MAX"

definition digit_char :: "nat \<Rightarrow> char" where
  "digit_char d = char_of (48 + d)"

fun dec :: "nat \<Rightarrow> string" where
  \<comment> \<open>the conversions \<open>%llu\<close> and \<open>%zu\<close>\<close>
  "dec n = (if n < 10 then [digit_char n] else dec (n div 10) @ [digit_char (n mod 10)])"

declare dec.simps [simp del]

definition dec_int :: "int \<Rightarrow> string" where
  \<comment> \<open>the conversion \<open>%i\<close>\<close>
  "dec_int i = (if i < 0 then ''-'' @ dec (nat (- i)) else dec (nat i))"

lemma isdigit_digit_char [simp]: "d < 10 \<Longrightarrow> isdigit (digit_char d)"
  by (simp add: isdigit_def digit_char_def of_char_of)

lemma digit_val_char [simp]: "d < 10 \<Longrightarrow> digit_val (digit_char d) = d"
  by (simp add: digit_val_def digit_char_def of_char_of)

lemma digits_val_snoc: "digits_val (s @ [c]) = 10 * digits_val s + digit_val c"
  by (simp add: digits_val_def)

lemma dec_digits: "\<forall>c \<in> set (dec n). isdigit c"
proof (induction n rule: dec.induct)
  case (1 n)
  show ?case
  proof (cases "n < 10")
    case True
    then show ?thesis by (simp add: dec.simps [of n])
  next
    case False
    then show ?thesis using 1 by (auto simp: dec.simps [of n])
  qed
qed

lemma dec_nonempty [simp]: "dec n \<noteq> []"
  by (simp add: dec.simps [of n])

lemma digits_val_dec [simp]: "digits_val (dec n) = n"
proof (induction n rule: dec.induct)
  case (1 n)
  show ?case
  proof (cases "n < 10")
    case True
    then show ?thesis by (simp add: dec.simps [of n] digits_val_def)
  next
    case False
    then show ?thesis using 1 by (simp add: dec.simps [of n] digits_val_snoc)
  qed
qed

lemma takeWhile_dec: "\<not> isdigit c \<Longrightarrow> takeWhile isdigit (dec n @ c # s) = dec n"
  by (simp add: takeWhile_append dec_digits)

lemma dec_inject [simp]: "dec m = dec n \<longleftrightarrow> m = n"
  by (metis digits_val_dec)

lemma dec_append_inject:
  assumes "\<not> isdigit c"
  shows "dec m @ c # xs = dec n @ c # ys \<longleftrightarrow> m = n \<and> xs = ys"
proof
  assume eq: "dec m @ c # xs = dec n @ c # ys"
  then have "dec m = dec n"
    using takeWhile_dec [OF assms, of m xs] takeWhile_dec [OF assms, of n ys] by (simp only: eq)
  with eq show "m = n \<and> xs = ys" by simp
qed simp

end
