(* ===== verification/Jsmn.thy ===== *)
theory Jsmn
  imports C_String
begin

text \<open>
  The JSON tokenizer of \<^verbatim>\<open>contrib/jsmn/jsmn.c\<close>, as it is built here: not strict, without
  parent links. The text is a list of bytes of which \<open>len\<close> is the length; the
  token array is a list of its capacity, or \<open>None\<close> for NULL (counting only). Positions are
  natural numbers: a request is far shorter than \<open>2^31\<close>, and every position is at
  most \<open>len + 1\<close> as proved below. Reading \<open>tokens[-1]\<close> is the error \<open>OOB\<close>, which the code does
  not have: it has no defined behaviour there.
\<close>

section \<open>Data\<close>

datatype jsmntype_t = JSMN_PRIMITIVE | JSMN_OBJECT | JSMN_ARRAY | JSMN_STRING

datatype jsmnerr_t = JSMN_ERROR_NOMEM | JSMN_ERROR_INVAL | JSMN_ERROR_PART | OOB

record jsmntok_t =
  tok_type :: jsmntype_t
  tok_start :: int
  tok_end :: int
  tok_size :: nat

record jsmn_parser =
  pos :: nat
  toknext :: nat
  toksuper :: int

type_synonym tokens = "jsmntok_t list option"

type_synonym 'r jsmn_result = "jsmnerr_t \<times> jsmn_parser \<times> tokens + 'r"
  \<comment> \<open>an error comes with the parser and the tokens as they are then: a caller may resume\<close>

definition jsmn_init :: jsmn_parser where
  "jsmn_init = \<lparr>pos = 0, toknext = 0, toksuper = -1\<rparr>"

abbreviation NUL :: char where "NUL \<equiv> CHR 0x00"

section \<open>Tokens\<close>

definition jsmn_alloc_token :: "jsmn_parser \<Rightarrow> jsmntok_t list \<Rightarrow> (nat \<times> jsmn_parser \<times> jsmntok_t list) option" where
  \<comment> \<open>the index of the token; \<open>None\<close> is NULL\<close>
  "jsmn_alloc_token p ts =
     (if toknext p \<ge> length ts then None
      else let i = toknext p
           in Some (i, p\<lparr>toknext := i + 1\<rparr>,
                    ts[i := (ts ! i)\<lparr>tok_start := -1, tok_end := -1, tok_size := 0\<rparr>]))"

definition jsmn_fill_token :: "jsmntok_t \<Rightarrow> jsmntype_t \<Rightarrow> int \<Rightarrow> int \<Rightarrow> jsmntok_t" where
  "jsmn_fill_token tok ty s e = tok\<lparr>tok_type := ty, tok_start := s, tok_end := e, tok_size := 0\<rparr>"

section \<open>Primitives\<close>

definition prim_delim :: "char \<Rightarrow> bool" where
  "prim_delim c \<longleftrightarrow> c \<in> {CHR '':'', CHR 0x09, CHR 0x0D, CHR 0x0A, CHR '' '', CHR '','', CHR '']'', CHR ''}''}"

definition prim_bad :: "char \<Rightarrow> bool" where
  \<comment> \<open>\<open>js[pos] < 32 || js[pos] >= 127\<close>, the same for a signed and an unsigned \<open>char\<close>\<close>
  "prim_bad c \<longleftrightarrow> (of_char c :: nat) < 32 \<or> 127 \<le> (of_char c :: nat)"

function prim_scan :: "string \<Rightarrow> nat \<Rightarrow> nat option" where
  \<comment> \<open>the loop: where it stops, \<open>None\<close> at a character that may not occur\<close>
  "prim_scan js i =
     (if i < length js \<and> js ! i \<noteq> NUL
      then (if prim_delim (js ! i) then Some i
            else if prim_bad (js ! i) then None
            else prim_scan js (Suc i))
      else Some i)"
  by pat_completeness auto
termination by (relation "measure (\<lambda>(js, i). length js - i)") auto

definition jsmn_parse_primitive ::
    "jsmn_parser \<Rightarrow> string \<Rightarrow> tokens \<Rightarrow> (jsmn_parser \<times> tokens) jsmn_result" where
  "jsmn_parse_primitive p js tokens =
     (let start = pos p
      in case prim_scan js start of
           None \<Rightarrow> Inl (JSMN_ERROR_INVAL, p, tokens)
         | Some e \<Rightarrow>
             (case tokens of
                None \<Rightarrow> Inr (p\<lparr>pos := e - 1\<rparr>, None)
              | Some ts \<Rightarrow>
                  (case jsmn_alloc_token p ts of
                     None \<Rightarrow> Inl (JSMN_ERROR_NOMEM, p, tokens)
                   | Some (i, p, ts) \<Rightarrow>
                       Inr (p\<lparr>pos := e - 1\<rparr>,
                            Some (ts[i := jsmn_fill_token (ts ! i) JSMN_PRIMITIVE (int start) (int e)])))))"

section \<open>Strings\<close>

definition is_hex :: "char \<Rightarrow> bool" where
  "is_hex c \<longleftrightarrow> (let n = of_char c :: nat in
     48 \<le> n \<and> n \<le> 57 \<or> 65 \<le> n \<and> n \<le> 70 \<or> 97 \<le> n \<and> n \<le> 102)"

fun hex_scan :: "string \<Rightarrow> nat \<Rightarrow> nat \<Rightarrow> nat option" where
  \<comment> \<open>up to four hexadecimal digits; \<open>None\<close> at another character\<close>
  "hex_scan js i 0 = Some i"
| "hex_scan js i (Suc k) =
     (if i < length js \<and> js ! i \<noteq> NUL
      then (if is_hex (js ! i) then hex_scan js (Suc i) k else None)
      else Some i)"

definition esc_simple :: "char \<Rightarrow> bool" where
  "esc_simple c \<longleftrightarrow> c \<in> set [CHR 0x22, CHR ''/'', CHR 0x5C, CHR ''b'', CHR ''f'', CHR ''r'',
     CHR ''n'', CHR ''t'']"

lemma hex_scan_ge: "hex_scan js i k = Some j \<Longrightarrow> i \<le> j \<and> j \<le> max i (length js)"
  by (induction js i k rule: hex_scan.induct) (auto split: if_splits)

datatype string_scan = Str_End nat | Str_Inval | Str_Part

function str_scan :: "string \<Rightarrow> nat \<Rightarrow> string_scan" where
  \<comment> \<open>the loop of \<open>jsmn_parse_string\<close>: the closing quote, or the error\<close>
  "str_scan js i =
     (if i < length js \<and> js ! i \<noteq> NUL
      then
        (if js ! i = CHR 0x22 then Str_End i
         else if js ! i = CHR 0x5C \<and> i + 1 < length js
         then (if esc_simple (js ! (i + 1)) then str_scan js (i + 2)
               else if js ! (i + 1) = CHR ''u''
               then (case hex_scan js (i + 2) 4 of
                       None \<Rightarrow> Str_Inval
                     | Some j \<Rightarrow> str_scan js j)
               else Str_Inval)
         else str_scan js (Suc i))
      else Str_Part)"
  by pat_completeness auto
termination
  by (relation "measure (\<lambda>(js, i). length js - i)") (auto dest: hex_scan_ge)

definition jsmn_parse_string ::
    "jsmn_parser \<Rightarrow> string \<Rightarrow> tokens \<Rightarrow> (jsmn_parser \<times> tokens) jsmn_result" where
  "jsmn_parse_string p js tokens =
     (let start = pos p
      in case str_scan js (Suc start) of
           Str_Inval \<Rightarrow> Inl (JSMN_ERROR_INVAL, p, tokens)
         | Str_Part \<Rightarrow> Inl (JSMN_ERROR_PART, p, tokens)
         | Str_End e \<Rightarrow>
             (case tokens of
                None \<Rightarrow> Inr (p\<lparr>pos := e\<rparr>, None)
              | Some ts \<Rightarrow>
                  (case jsmn_alloc_token p ts of
                     None \<Rightarrow> Inl (JSMN_ERROR_NOMEM, p, tokens)
                   | Some (i, p, ts) \<Rightarrow>
                       Inr (p\<lparr>pos := e\<rparr>,
                            Some (ts[i := jsmn_fill_token (ts ! i) JSMN_STRING (int start + 1) (int e)])))))"

section \<open>The main loop\<close>

definition tok_open :: "jsmntok_t \<Rightarrow> bool" where
  "tok_open t \<longleftrightarrow> tok_start t \<noteq> -1 \<and> tok_end t = -1"

definition tok_container :: "jsmntok_t \<Rightarrow> bool" where
  "tok_container t \<longleftrightarrow> tok_type t = JSMN_ARRAY \<or> tok_type t = JSMN_OBJECT"

fun find_tok :: "(jsmntok_t \<Rightarrow> bool) \<Rightarrow> jsmntok_t list \<Rightarrow> nat \<Rightarrow> nat option" where
  \<comment> \<open>the loops \<open>for (i = n - 1; i >= 0; i--)\<close>\<close>
  "find_tok P ts 0 = None"
| "find_tok P ts (Suc i) = (if P (ts ! i) then Some i else find_tok P ts i)"

definition bump_super :: "jsmn_parser \<Rightarrow> tokens \<Rightarrow> tokens" where
  \<comment> \<open>\<open>tokens[toksuper].size++\<close> unless there is no super token or no array\<close>
  "bump_super p tokens =
     (case tokens of None \<Rightarrow> None
      | Some ts \<Rightarrow>
          if toksuper p \<noteq> -1
          then (let k = nat (toksuper p) in Some (ts[k := (ts ! k)\<lparr>tok_size := tok_size (ts ! k) + 1\<rparr>]))
          else Some ts)"

definition jsmn_open :: "char \<Rightarrow> jsmn_parser \<Rightarrow> tokens \<Rightarrow> (jsmn_parser \<times> tokens) jsmn_result" where
  \<comment> \<open>an opening brace or bracket\<close>
  "jsmn_open c p tokens =
     (case tokens of None \<Rightarrow> Inr (p, None)
      | Some ts \<Rightarrow>
          (case jsmn_alloc_token p ts of
             None \<Rightarrow> Inl (JSMN_ERROR_NOMEM, p, tokens)
           | Some (i, p1, ts1) \<Rightarrow>
               (case bump_super p1 (Some ts1) of
                  None \<Rightarrow> Inr (p1, None)
                | Some ts2 \<Rightarrow>
                    Inr (p1\<lparr>toksuper := int (toknext p1) - 1\<rparr>,
                         Some (ts2[i := (ts2 ! i)\<lparr>tok_type := (if c = CHR ''{'' then JSMN_OBJECT else JSMN_ARRAY),
                                                   tok_start := int (pos p1)\<rparr>])))))"

definition jsmn_close :: "char \<Rightarrow> jsmn_parser \<Rightarrow> tokens \<Rightarrow> (jsmn_parser \<times> tokens) jsmn_result" where
  \<comment> \<open>a closing brace or bracket\<close>
  "jsmn_close c p tokens =
     (case tokens of None \<Rightarrow> Inr (p, None)
      | Some ts \<Rightarrow>
          (let ty = (if c = CHR ''}'' then JSMN_OBJECT else JSMN_ARRAY)
           in case find_tok tok_open ts (toknext p) of
                None \<Rightarrow> Inl (JSMN_ERROR_INVAL, p, tokens)
              | Some i \<Rightarrow>
                  if tok_type (ts ! i) \<noteq> ty then Inl (JSMN_ERROR_INVAL, p, tokens)
                  else
                    (let ts1 = ts[i := (ts ! i)\<lparr>tok_end := int (pos p) + 1\<rparr>]
                     in Inr (p\<lparr>toksuper := (case find_tok tok_open ts1 (Suc i) of
                                               None \<Rightarrow> -1 | Some k \<Rightarrow> int k)\<rparr>,
                             Some ts1))))"

definition jsmn_comma :: "jsmn_parser \<Rightarrow> tokens \<Rightarrow> (jsmn_parser \<times> tokens) jsmn_result" where
  "jsmn_comma p tokens =
     (case tokens of None \<Rightarrow> Inr (p, None)
      | Some ts \<Rightarrow>
          if toksuper p < 0 then Inl (OOB, p, tokens)
          else if \<not> tok_container (ts ! nat (toksuper p))
          then (case find_tok (\<lambda>t. tok_container t \<and> tok_open t) ts (toknext p) of
                  None \<Rightarrow> Inr (p, tokens)
                | Some i \<Rightarrow> Inr (p\<lparr>toksuper := int i\<rparr>, tokens))
          else Inr (p, tokens))"

definition jsmn_step ::
    "string \<Rightarrow> jsmn_parser \<Rightarrow> tokens \<Rightarrow> nat \<Rightarrow> (jsmn_parser \<times> tokens \<times> nat) jsmn_result" where
  \<comment> \<open>the switch on the current character\<close>
  "jsmn_step js p tokens count =
     (let c = js ! pos p
      in if c = CHR ''{'' \<or> c = CHR ''['' then
           map_sum id (\<lambda>(p, tokens). (p, tokens, count + 1)) (jsmn_open c p tokens)
         else if c = CHR ''}'' \<or> c = CHR '']'' then
           map_sum id (\<lambda>(p, tokens). (p, tokens, count)) (jsmn_close c p tokens)
         else if c = CHR 0x22 then
           map_sum id (\<lambda>(p, tokens). (p, bump_super p tokens, count + 1))
             (jsmn_parse_string p js tokens)
         else if c \<in> {CHR 0x09, CHR 0x0D, CHR 0x0A, CHR '' ''} then Inr (p, tokens, count)
         else if c = CHR '':'' then Inr (p\<lparr>toksuper := int (toknext p) - 1\<rparr>, tokens, count)
         else if c = CHR '','' then
           map_sum id (\<lambda>(p, tokens). (p, tokens, count)) (jsmn_comma p tokens)
         else
           map_sum id (\<lambda>(p, tokens). (p, bump_super p tokens, count + 1))
             (jsmn_parse_primitive p js tokens))"

declare prim_scan.simps [simp del] str_scan.simps [simp del]

lemma prim_scan_ge: "prim_scan js i = Some j \<Longrightarrow> i \<le> j \<and> j \<le> max i (length js)"
proof (induction js i rule: prim_scan.induct)
  case (1 js i)
  then show ?case by (auto simp: prim_scan.simps [of js i] split: if_splits)
qed

lemma prim_scan_gt:
  assumes "prim_scan js i = Some j" and "i < length js" and "js ! i \<noteq> NUL" and "\<not> prim_delim (js ! i)"
  shows "i < j \<and> j \<le> length js"
proof -
  have "prim_scan js (Suc i) = Some j"
    using assms by (auto simp: prim_scan.simps [of js i] split: if_splits)
  then show ?thesis using prim_scan_ge [of js "Suc i" j] assms(2) by auto
qed

lemma str_scan_end: "str_scan js i = Str_End j \<Longrightarrow> i \<le> j \<and> j < length js \<and> js ! j = CHR 0x22"
proof (induction js i rule: str_scan.induct)
  case (1 js i)
  then show ?case
    by (auto simp: str_scan.simps [of js i] split: if_splits option.splits dest: hex_scan_ge)
qed

lemma jsmn_open_pos: "jsmn_open c p tokens = Inr (p', tokens') \<Longrightarrow> pos p' = pos p"
  by (auto simp: jsmn_open_def jsmn_alloc_token_def Let_def split: option.splits if_splits)

lemma jsmn_close_pos: "jsmn_close c p tokens = Inr (p', tokens') \<Longrightarrow> pos p' = pos p"
  by (auto simp: jsmn_close_def Let_def split: option.splits if_splits)

lemma jsmn_comma_pos: "jsmn_comma p tokens = Inr (p', tokens') \<Longrightarrow> pos p' = pos p"
  by (auto simp: jsmn_comma_def split: option.splits if_splits)

lemma jsmn_parse_string_pos:
  "jsmn_parse_string p js tokens = Inr (p', tokens') \<Longrightarrow> pos p < pos p' \<and> pos p' < length js"
  by (auto simp: jsmn_parse_string_def jsmn_alloc_token_def Let_def
      split: option.splits if_splits string_scan.splits dest!: str_scan_end)

lemma jsmn_parse_primitive_pos:
  assumes "jsmn_parse_primitive p js tokens = Inr (p', tokens')"
    and "pos p < length js" and "js ! pos p \<noteq> NUL" and "\<not> prim_delim (js ! pos p)"
  shows "pos p \<le> pos p' \<and> pos p' < length js"
proof -
  obtain e where "prim_scan js (pos p) = Some e"
    using assms(1) by (auto simp: jsmn_parse_primitive_def Let_def split: option.splits)
  with prim_scan_gt [OF this assms(2-4)] assms(1) show ?thesis
    by (auto simp: jsmn_parse_primitive_def jsmn_alloc_token_def Let_def
        split: option.splits if_splits)
qed

lemma jsmn_step_pos:
  assumes "jsmn_step js p tokens count = Inr (p', tokens', count')"
    and "pos p < length js" and "js ! pos p \<noteq> NUL"
  shows "pos p \<le> pos p' \<and> pos p' < length js"
proof -
  note pos_rules = jsmn_open_pos jsmn_close_pos jsmn_comma_pos jsmn_parse_string_pos
  have "\<not> prim_delim (js ! pos p)"
    if "js ! pos p \<notin> {CHR ''}'', CHR '']'', CHR 0x09, CHR 0x0D, CHR 0x0A, CHR '' '', CHR '':'', CHR '',''}"
    using that by (simp add: prim_delim_def)
  then show ?thesis
    using assms jsmn_parse_primitive_pos [OF _ assms(2,3)]
    by (auto simp: jsmn_step_def Let_def map_sum_def split: if_splits sum.splits prod.splits
        dest!: pos_rules)
qed

function jsmn_loop ::
    "string \<Rightarrow> jsmn_parser \<Rightarrow> tokens \<Rightarrow> nat \<Rightarrow> (jsmn_parser \<times> tokens \<times> nat) jsmn_result" where
  "jsmn_loop js p tokens count =
     (if pos p < length js \<and> js ! pos p \<noteq> NUL
      then (case jsmn_step js p tokens count of
              Inl e \<Rightarrow> Inl e
            | Inr (p, tokens, count) \<Rightarrow> jsmn_loop js (p\<lparr>pos := pos p + 1\<rparr>) tokens count)
      else Inr (p, tokens, count))"
  by pat_completeness auto
termination
  by (relation "measure (\<lambda>(js, p, _, _). length js - pos p)") (auto dest: jsmn_step_pos)

declare jsmn_loop.simps [simp del]

definition jsmn_parse ::
    "jsmn_parser \<Rightarrow> string \<Rightarrow> tokens \<Rightarrow> (jsmn_parser \<times> tokens \<times> nat) jsmn_result" where
  \<comment> \<open>on success the number of tokens, as the return value, comes last\<close>
  "jsmn_parse p js tokens =
     (case jsmn_loop js p tokens 0 of
        Inl e \<Rightarrow> Inl e
      | Inr (p, tokens, count) \<Rightarrow>
          (case tokens of
             None \<Rightarrow> Inr (p, tokens, count)
           | Some ts \<Rightarrow>
               (case find_tok tok_open ts (toknext p) of
                  Some _ \<Rightarrow> Inl (JSMN_ERROR_PART, p, tokens)
                | None \<Rightarrow> Inr (p, tokens, count))))"

section \<open>Invariant\<close>

definition bracket :: "jsmntype_t \<Rightarrow> char \<Rightarrow> char \<Rightarrow> bool" where
  "bracket ty a b \<longleftrightarrow> ty = JSMN_OBJECT \<and> a = CHR ''{'' \<and> b = CHR ''}'' \<or>
     ty = JSMN_ARRAY \<and> a = CHR ''['' \<and> b = CHR '']''"

definition tok_wf :: "string \<Rightarrow> nat \<Rightarrow> jsmntok_t \<Rightarrow> bool" where
  \<comment> \<open>what the text read so far (\<open>n\<close> characters) says of a token\<close>
  "tok_wf js n t \<longleftrightarrow> 0 \<le> tok_start t \<and>
     (if tok_end t = -1
      then tok_start t < int n \<and> (\<exists>b. bracket (tok_type t) (js ! nat (tok_start t)) b)
      else tok_start t \<le> tok_end t \<and> tok_end t \<le> int n \<and>
        (case tok_type t of
           JSMN_STRING \<Rightarrow> 0 < tok_start t \<and> js ! nat (tok_start t - 1) = CHR 0x22 \<and>
             tok_end t < int n \<and> js ! nat (tok_end t) = CHR 0x22
         | JSMN_PRIMITIVE \<Rightarrow> tok_start t < tok_end t \<and>
             (\<forall>i. nat (tok_start t) \<le> i \<and> i < nat (tok_end t) \<longrightarrow> \<not> prim_delim (js ! i) \<and> \<not> prim_bad (js ! i))
         | ty \<Rightarrow> tok_start t < tok_end t \<and>
             bracket ty (js ! nat (tok_start t)) (js ! nat (tok_end t - 1))))"

definition jsmn_inv :: "string \<Rightarrow> nat \<Rightarrow> jsmn_parser \<Rightarrow> jsmntok_t list \<Rightarrow> bool" where
  "jsmn_inv js n p ts \<longleftrightarrow> toknext p \<le> length ts \<and> n \<le> length js \<and>
     -1 \<le> toksuper p \<and> toksuper p < int (toknext p) \<and>
     (\<forall>i < toknext p. tok_wf js n (ts ! i) \<and> i + tok_size (ts ! i) < toknext p)"

lemma tok_wf_mono: "tok_wf js n t \<Longrightarrow> n \<le> m \<Longrightarrow> tok_wf js m t"
  by (auto simp: tok_wf_def split: jsmntype_t.splits if_splits)

lemma tok_wf_start: "tok_wf js n t \<Longrightarrow> 0 \<le> tok_start t"
  by (simp add: tok_wf_def)

lemma tok_wf_size [simp]: "tok_wf js n (t\<lparr>tok_size := k\<rparr>) = tok_wf js n t"
  by (simp add: tok_wf_def split: jsmntype_t.split)

lemma jsmn_inv_mono: "jsmn_inv js n p ts \<Longrightarrow> n \<le> m \<Longrightarrow> m \<le> length js \<Longrightarrow> jsmn_inv js m p ts"
  using tok_wf_mono by (auto simp: jsmn_inv_def)

lemma jsmn_inv_pos [simp]: "jsmn_inv js n (p\<lparr>pos := q\<rparr>) ts = jsmn_inv js n p ts"
  by (simp add: jsmn_inv_def)

lemma bump_super_Some:
  "bump_super p (Some ts) = Some (if toksuper p \<noteq> -1
     then ts[nat (toksuper p) := (ts ! nat (toksuper p))\<lparr>tok_size := tok_size (ts ! nat (toksuper p)) + 1\<rparr>]
     else ts)"
  by (simp add: bump_super_def Let_def)

text \<open>A new token, counted in its super token.\<close>

lemma jsmn_inv_push:
  assumes inv: "jsmn_inv js n p ts" and room: "toknext p < length ts"
    and t: "tok_wf js m t" "tok_size t = 0" and m: "n \<le> m" "m \<le> length js"
    and p': "toknext p' = toknext p + 1" "toksuper p' = toksuper p"
  obtains ts' where "bump_super p' (Some (ts[toknext p := t])) = Some ts'"
    and "jsmn_inv js m p' ts'" and "length ts' = length ts" and "ts' ! toknext p = t"
proof -
  let ?n = "toknext p" and ?k = "nat (toksuper p)"
  let ?ts = "ts[?n := t]"
  define ts' where "ts' = (if toksuper p \<noteq> -1
     then ?ts[?k := (?ts ! ?k)\<lparr>tok_size := tok_size (?ts ! ?k) + 1\<rparr>] else ?ts)"
  have b: "bump_super p' (Some ?ts) = Some ts'" by (simp add: bump_super_Some ts'_def p')
  have k: "toksuper p \<noteq> -1 \<Longrightarrow> ?k < ?n" using inv by (auto simp: jsmn_inv_def)
  have at: "ts' ! i = (if i = ?n then t else if toksuper p \<noteq> -1 \<and> i = ?k
      then (ts ! i)\<lparr>tok_size := tok_size (ts ! i) + 1\<rparr> else ts ! i)" if "i \<le> ?n" for i
    using that room k by (auto simp: ts'_def nth_list_update)
  have "tok_wf js m (ts' ! i) \<and> i + tok_size (ts' ! i) < ?n + 1" if "i < ?n + 1" for i
  proof (cases "i = ?n")
    case True
    then show ?thesis using t at by simp
  next
    case False
    then have "tok_wf js n (ts ! i)" "i + tok_size (ts ! i) < ?n"
      using inv that by (auto simp: jsmn_inv_def)
    then show ?thesis using False that at [of i] tok_wf_mono [OF _ m(1)] by auto
  qed
  then have "jsmn_inv js m p' ts'"
    using inv p' m room by (auto simp: jsmn_inv_def ts'_def)
  with b at [of ?n] show thesis by (intro that [of ts']) (auto simp: ts'_def)
qed

lemma alloc_Some:
  assumes "jsmn_alloc_token p ts = Some (i, p', ts')"
  shows "i = toknext p" "toknext p < length ts" "p' = p\<lparr>toknext := toknext p + 1\<rparr>"
    "ts' = ts[toknext p := (ts ! toknext p)\<lparr>tok_start := -1, tok_end := -1, tok_size := 0\<rparr>]"
  using assms by (auto simp: jsmn_alloc_token_def Let_def split: if_splits)

lemma find_tok_Some: "find_tok P ts n = Some i \<Longrightarrow> i < n \<and> P (ts ! i) \<and> (\<forall>j. i < j \<and> j < n \<longrightarrow> \<not> P (ts ! j))"
  by (induction n) (auto split: if_splits simp: less_Suc_eq)

lemma find_tok_None: "find_tok P ts n = None \<longleftrightarrow> (\<forall>i < n. \<not> P (ts ! i))"
  by (induction n) (auto simp: less_Suc_eq)

lemma jsmn_open_inv:
  assumes inv: "jsmn_inv js (pos p) p ts" and c: "js ! pos p = c" "c = CHR ''{'' \<or> c = CHR ''[''"
    and n: "pos p < length js" and s: "jsmn_open c p (Some ts) = Inr (p', tokens')"
  shows "\<exists>ts'. tokens' = Some ts' \<and> jsmn_inv js (pos p + 1) p' ts' \<and> length ts' = length ts \<and>
    toknext p' = toknext p + 1"
proof -
  let ?i = "toknext p" and ?ty = "if c = CHR ''{'' then JSMN_OBJECT else JSMN_ARRAY"
  let ?t0 = "(ts ! toknext p)\<lparr>tok_start := -1, tok_end := -1, tok_size := 0\<rparr>"
  let ?t = "?t0\<lparr>tok_type := ?ty, tok_start := int (pos p)\<rparr>"
  obtain i p1 ts1 where a: "jsmn_alloc_token p ts = Some (i, p1, ts1)"
    using s by (auto simp: jsmn_open_def split: option.splits)
  note al = alloc_Some [OF a]
  have t: "tok_wf js (pos p + 1) ?t" "tok_size ?t = 0"
    using c by (auto simp: tok_wf_def bracket_def)
  obtain ts2 where p2: "bump_super p1 (Some (ts[?i := ?t])) = Some ts2" "jsmn_inv js (pos p + 1) p1 ts2"
      "length ts2 = length ts" "ts2 ! ?i = ?t"
    by (rule jsmn_inv_push [OF inv al(2) t _ _, of p1]) (use al n in auto)
  have k: "toksuper p \<noteq> -1 \<Longrightarrow> nat (toksuper p) < ?i" using inv by (auto simp: jsmn_inv_def)
  obtain ts3 where p3: "bump_super p1 (Some ts1) = Some ts3" by (simp add: bump_super_Some)
  have sup: "toksuper p1 = toksuper p" by (simp add: al)
  have "ts3[?i := (ts3 ! ?i)\<lparr>tok_type := ?ty, tok_start := int (pos p)\<rparr>] = ts2"
    using p2(1) p3 k al(2) unfolding bump_super_Some sup al(4)
    by (cases "toksuper p = -1") (auto simp: list_update_swap [of "nat (toksuper p)" ?i])
  then have "p' = p1\<lparr>toksuper := int ?i\<rparr> \<and> tokens' = Some ts2"
    using s a p3 by (simp add: jsmn_open_def al)
  then show ?thesis using p2 by (auto simp: jsmn_inv_def al)
qed

lemma tok_wf_close:
  assumes "tok_wf js n t" and "tok_open t" and "bracket (tok_type t) a (js ! n)"
  shows "tok_wf js (Suc n) (t\<lparr>tok_end := int n + 1\<rparr>)"
  using assms by (auto simp: tok_wf_def tok_open_def bracket_def nat_add_distrib split: jsmntype_t.split)

lemma jsmn_close_inv:
  assumes inv: "jsmn_inv js (pos p) p ts" and c: "js ! pos p = c" "c = CHR ''}'' \<or> c = CHR '']''"
    and n: "pos p < length js" and s: "jsmn_close c p (Some ts) = Inr (p', tokens')"
  shows "\<exists>ts'. tokens' = Some ts' \<and> jsmn_inv js (pos p + 1) p' ts' \<and> length ts' = length ts \<and>
    toknext p' = toknext p"
proof -
  let ?ty = "if c = CHR ''}'' then JSMN_OBJECT else JSMN_ARRAY"
  obtain i where i: "find_tok tok_open ts (toknext p) = Some i" "tok_type (ts ! i) = ?ty"
    using s by (auto simp: jsmn_close_def Let_def split: option.splits if_splits)
  define ts1 where "ts1 = ts[i := (ts ! i)\<lparr>tok_end := int (pos p) + 1\<rparr>]"
  define k where "k = (case find_tok tok_open ts1 (Suc i) of None \<Rightarrow> -1 | Some k \<Rightarrow> int k)"
  have r: "p' = p\<lparr>toksuper := k\<rparr>" "tokens' = Some ts1"
    using s i by (simp_all add: jsmn_close_def Let_def ts1_def k_def)
  note f = find_tok_Some [OF i(1)]
  have il: "i < toknext p" "i < length ts" using f inv by (auto simp: jsmn_inv_def)
  have "bracket (tok_type (ts ! i)) (if c = CHR ''}'' then CHR ''{'' else CHR ''['') (js ! pos p)"
    using i(2) c by (auto simp: bracket_def)
  then have "tok_wf js (Suc (pos p)) ((ts ! i)\<lparr>tok_end := int (pos p) + 1\<rparr>)"
    using tok_wf_close f inv il by (auto simp: jsmn_inv_def)
  moreover have "-1 \<le> k \<and> k < int (toknext p)"
    using il by (auto simp: k_def split: option.splits dest!: find_tok_Some)
  ultimately have "jsmn_inv js (pos p + 1) (p\<lparr>toksuper := k\<rparr>) ts1"
    using inv n il tok_wf_mono [of js "pos p" _ "Suc (pos p)"]
    by (auto simp: jsmn_inv_def ts1_def nth_list_update)
  then show ?thesis using r by (auto simp: ts1_def)
qed

lemma jsmn_comma_inv:
  assumes inv: "jsmn_inv js (pos p) p ts" and n: "pos p < length js"
    and s: "jsmn_comma p (Some ts) = Inr (p', tokens')"
  shows "tokens' = Some ts \<and> jsmn_inv js (pos p + 1) p' ts \<and> toknext p' = toknext p"
proof -
  have inv': "jsmn_inv js (pos p + 1) p ts" using jsmn_inv_mono [OF inv] n by simp
  then have "jsmn_inv js (pos p + 1) (p\<lparr>toksuper := int i\<rparr>) ts" if "i < toknext p" for i
    using that by (simp add: jsmn_inv_def)
  then show ?thesis
    using s inv' by (auto simp: jsmn_comma_def split: if_splits option.splits dest!: find_tok_Some)
qed

text \<open>A scalar: its token is allocated, filled and counted in its super token.\<close>

definition pushed :: "string \<Rightarrow> nat \<Rightarrow> jsmn_parser \<Rightarrow> jsmntok_t list \<Rightarrow> jsmn_parser \<Rightarrow> tokens \<Rightarrow> bool" where
  "pushed js m p ts p' tokens' \<longleftrightarrow>
     (\<exists>ts'. tokens' = Some ts' \<and> jsmn_inv js m p' ts' \<and> length ts' = length ts \<and>
        toknext p' = toknext p + 1)"

lemma pushedI:
  assumes inv: "jsmn_inv js n p ts" and a: "jsmn_alloc_token p ts = Some (i, p1, ts1)"
    and t: "tok_wf js m (jsmn_fill_token (ts1 ! i) ty s e)" and m: "n \<le> m" "m \<le> length js"
  shows "pushed js m p ts (p1\<lparr>pos := q\<rparr>)
    (bump_super (p1\<lparr>pos := q\<rparr>) (Some (ts1[i := jsmn_fill_token (ts1 ! i) ty s e])))"
proof -
  note al = alloc_Some [OF a]
  let ?t = "jsmn_fill_token (ts1 ! i) ty s e" and ?p = "p1\<lparr>pos := q\<rparr>"
  have z: "tok_size ?t = 0" by (simp add: jsmn_fill_token_def)
  have eq: "ts1[i := ?t] = ts[toknext p := ?t]" by (simp add: al)
  obtain ts' where "bump_super ?p (Some (ts[toknext p := ?t])) = Some ts'" "jsmn_inv js m ?p ts'"
      "length ts' = length ts"
    by (rule jsmn_inv_push [OF inv al(2) t z m, of ?p]) (auto simp: al)
  then show ?thesis by (simp add: pushed_def eq al)
qed

lemma tok_wf_fill_string:
  assumes "s < e" and "e < m" and "js ! s = CHR 0x22" and "js ! e = CHR 0x22"
  shows "tok_wf js m (jsmn_fill_token t JSMN_STRING (int s + 1) (int e))"
  using assms by (simp add: tok_wf_def jsmn_fill_token_def)

lemma tok_wf_fill_primitive:
  assumes "s < e" and "e \<le> m" and "\<forall>i. s \<le> i \<and> i < e \<longrightarrow> \<not> prim_delim (js ! i) \<and> \<not> prim_bad (js ! i)"
  shows "tok_wf js m (jsmn_fill_token t JSMN_PRIMITIVE (int s) (int e))"
  using assms by (simp add: tok_wf_def jsmn_fill_token_def)

lemma prim_scan_chars:
  "prim_scan js i = Some e \<Longrightarrow> \<forall>k. i \<le> k \<and> k < e \<longrightarrow> \<not> prim_delim (js ! k) \<and> \<not> prim_bad (js ! k)"
proof (induction js i rule: prim_scan.induct)
  case (1 js i)
  show ?case
  proof (cases "i < length js \<and> js ! i \<noteq> NUL \<and> \<not> prim_delim (js ! i)")
    case True
    then have b: "\<not> prim_bad (js ! i)" and s: "prim_scan js (Suc i) = Some e"
      using 1(2) by (auto simp: prim_scan.simps [of js i] split: if_splits)
    have "\<forall>k. Suc i \<le> k \<and> k < e \<longrightarrow> \<not> prim_delim (js ! k) \<and> \<not> prim_bad (js ! k)"
      using 1(1) True b s by auto
    then show ?thesis using True b by (metis Suc_leI le_neq_implies_less)
  next
    case False
    then have "e = i" using 1(2) by (auto simp: prim_scan.simps [of js i] split: if_splits)
    then show ?thesis by auto
  qed
qed

lemma jsmn_parse_string_pushed:
  assumes inv: "jsmn_inv js (pos p) p ts" and q: "js ! pos p = CHR 0x22"
    and s: "jsmn_parse_string p js (Some ts) = Inr (p', tokens')"
  shows "pushed js (pos p' + 1) p ts p' (bump_super p' tokens')"
proof -
  obtain e where e: "str_scan js (Suc (pos p)) = Str_End e"
    using s by (auto simp: jsmn_parse_string_def Let_def split: string_scan.splits)
  note se = str_scan_end [OF e]
  obtain i p1 ts1 where a: "jsmn_alloc_token p ts = Some (i, p1, ts1)"
    using s e by (auto simp: jsmn_parse_string_def Let_def split: option.splits)
  have wf: "tok_wf js (e + 1) (jsmn_fill_token (ts1 ! i) JSMN_STRING (int (pos p) + 1) (int e))"
    using se q by (intro tok_wf_fill_string) auto
  have le: "pos p \<le> e + 1" "e + 1 \<le> length js" using se by auto
  have "p' = p1\<lparr>pos := e\<rparr>"
      "tokens' = Some (ts1[i := jsmn_fill_token (ts1 ! i) JSMN_STRING (int (pos p) + 1) (int e)])"
    using s e a by (simp_all add: jsmn_parse_string_def Let_def)
  then show ?thesis using pushedI [OF inv a wf le] by simp
qed

lemma jsmn_parse_primitive_pushed:
  assumes inv: "jsmn_inv js (pos p) p ts"
    and c: "pos p < length js" "js ! pos p \<noteq> NUL" "\<not> prim_delim (js ! pos p)"
    and s: "jsmn_parse_primitive p js (Some ts) = Inr (p', tokens')"
  shows "pushed js (pos p' + 1) p ts p' (bump_super p' tokens')"
proof -
  obtain e where e: "prim_scan js (pos p) = Some e"
    using s by (auto simp: jsmn_parse_primitive_def Let_def split: option.splits)
  note se = prim_scan_gt [OF e c]
  obtain i p1 ts1 where a: "jsmn_alloc_token p ts = Some (i, p1, ts1)"
    using s e by (auto simp: jsmn_parse_primitive_def Let_def split: option.splits)
  have wf: "tok_wf js e (jsmn_fill_token (ts1 ! i) JSMN_PRIMITIVE (int (pos p)) (int e))"
    using se prim_scan_chars [OF e] by (intro tok_wf_fill_primitive) auto
  have le: "pos p \<le> e" "e \<le> length js" using se by auto
  have "p' = p1\<lparr>pos := e - 1\<rparr>" "e - 1 + 1 = e"
      "tokens' = Some (ts1[i := jsmn_fill_token (ts1 ! i) JSMN_PRIMITIVE (int (pos p)) (int e)])"
    using s e a se by (simp_all add: jsmn_parse_primitive_def Let_def)
  then show ?thesis using pushedI [OF inv a wf le] by simp
qed

lemma jsmn_step_inv:
  assumes inv: "jsmn_inv js (pos p) p ts" and n: "pos p < length js" "js ! pos p \<noteq> NUL"
    and s: "jsmn_step js p (Some ts) count = Inr (p', tokens', count')"
  shows "\<exists>ts'. tokens' = Some ts' \<and> jsmn_inv js (pos p' + 1) p' ts' \<and> length ts' = length ts \<and>
    toknext p' + count = toknext p + count'"
proof -
  let ?c = "js ! pos p"
  have inv': "jsmn_inv js (pos p + 1) p ts" using jsmn_inv_mono [OF inv] n by simp
  then have colon: "jsmn_inv js (pos p + 1) (p\<lparr>toksuper := int (toknext p) - 1\<rparr>) ts"
    by (simp add: jsmn_inv_def)
  consider (op) "?c = CHR ''{'' \<or> ?c = CHR ''[''" | (cl) "?c = CHR ''}'' \<or> ?c = CHR '']''"
    | (str) "?c = CHR 0x22" | (ws) "?c \<in> {CHR 0x09, CHR 0x0D, CHR 0x0A, CHR '' ''}"
    | (col) "?c = CHR '':''" | (com) "?c = CHR '',''"
    | (prim) "?c \<notin> {CHR ''{'', CHR ''['', CHR 0x22}" "\<not> prim_delim ?c"
    by (auto simp: prim_delim_def)
  then show ?thesis
  proof cases
    case op
    then obtain t where o: "jsmn_open ?c p (Some ts) = Inr (p', t)" "tokens' = t" "count' = count + 1"
      using s by (auto simp: jsmn_step_def Let_def map_sum_def split: sum.splits)
    show ?thesis using jsmn_open_inv [OF inv refl op n(1) o(1)] jsmn_open_pos [OF o(1)] o by auto
  next
    case cl
    then obtain t where o: "jsmn_close ?c p (Some ts) = Inr (p', t)" "tokens' = t" "count' = count"
      using s by (auto simp: jsmn_step_def Let_def map_sum_def split: sum.splits)
    show ?thesis using jsmn_close_inv [OF inv refl cl n(1) o(1)] jsmn_close_pos [OF o(1)] o by auto
  next
    case str
    then obtain t where o: "jsmn_parse_string p js (Some ts) = Inr (p', t)" "tokens' = bump_super p' t"
        "count' = count + 1"
      using s by (auto simp: jsmn_step_def Let_def map_sum_def split: sum.splits)
    show ?thesis using jsmn_parse_string_pushed [OF inv str o(1)] o by (auto simp: pushed_def)
  next
    case ws
    then show ?thesis using s inv' by (auto simp: jsmn_step_def)
  next
    case col
    then show ?thesis using s colon by (auto simp: jsmn_step_def)
  next
    case com
    then obtain t where o: "jsmn_comma p (Some ts) = Inr (p', t)" "tokens' = t" "count' = count"
      using s by (auto simp: jsmn_step_def Let_def map_sum_def split: sum.splits)
    show ?thesis using jsmn_comma_inv [OF inv n(1) o(1)] jsmn_comma_pos [OF o(1)] o by auto
  next
    case prim
    then obtain t where o: "jsmn_parse_primitive p js (Some ts) = Inr (p', t)"
        "tokens' = bump_super p' t" "count' = count + 1"
      using s by (auto simp: jsmn_step_def Let_def map_sum_def prim_delim_def split: sum.splits)
    show ?thesis using jsmn_parse_primitive_pushed [OF inv n prim(2) o(1)] o by (auto simp: pushed_def)
  qed
qed

lemma jsmn_loop_inv:
  "jsmn_loop js p tokens count = Inr (p', tokens', count') \<Longrightarrow> tokens = Some ts \<Longrightarrow> jsmn_inv js (pos p) p ts \<Longrightarrow>
   (\<exists>ts'. tokens' = Some ts' \<and> jsmn_inv js (pos p') p' ts' \<and> length ts' = length ts \<and>
     toknext p' + count = toknext p + count') \<and>
   (pos p' = length js \<or> pos p' < length js \<and> js ! pos p' = NUL)"
proof (induction js p tokens count arbitrary: ts rule: jsmn_loop.induct)
  case (1 js p tokens count)
  note t0 = 1(3)
  show ?case
  proof (cases "pos p < length js \<and> js ! pos p \<noteq> NUL")
    case False
    then show ?thesis using 1(2,4) t0 by (auto simp: jsmn_loop.simps [of js p] jsmn_inv_def)
  next
    case True
    then obtain q t k where st: "jsmn_step js p (Some ts) count = Inr (q, t, k)"
      using 1(2) t0 by (auto simp: jsmn_loop.simps [of js p] split: sum.splits)
    obtain ts1 where ts1: "t = Some ts1" "jsmn_inv js (pos q + 1) q ts1" "length ts1 = length ts"
        "toknext q + count = toknext p + k"
      using jsmn_step_inv [OF 1(4) _ _ st] True by auto
    have l: "jsmn_loop js (q\<lparr>pos := pos q + 1\<rparr>) t k = Inr (p', tokens', count')"
      using 1(2) t0 True st ts1(1) by (simp add: jsmn_loop.simps [of js p])
    have i: "jsmn_inv js (pos (q\<lparr>pos := pos q + 1\<rparr>)) (q\<lparr>pos := pos q + 1\<rparr>) ts1" using ts1(2) by simp
    show ?thesis
      using 1(1) [of "(q, t, k)" q "(t, k)" t k ts1, OF _ _ _ _ l ts1(1) i] True st t0 ts1
      by auto
  qed
qed

lemma jsmn_inv_init: "jsmn_inv js (pos jsmn_init) jsmn_init ts"
  by (simp add: jsmn_inv_def jsmn_init_def)

text \<open>An error leaves the parser and the tokens where the offending character found them.\<close>

lemma jsmn_step_error:
  assumes "jsmn_step js p tokens count = Inl (e, q, t)"
  shows "q = p \<and> t = tokens \<and>
    (case e of
       JSMN_ERROR_NOMEM \<Rightarrow> (\<exists>ts. tokens = Some ts \<and> length ts \<le> toknext p)
     | OOB \<Rightarrow> js ! pos p = CHR '','' \<and> toksuper p < 0 \<and> tokens \<noteq> None
     | JSMN_ERROR_PART \<Rightarrow> js ! pos p = CHR 0x22 \<and> str_scan js (pos p + 1) = Str_Part
     | JSMN_ERROR_INVAL \<Rightarrow> js ! pos p = CHR 0x22 \<and> str_scan js (pos p + 1) = Str_Inval \<or>
         js ! pos p \<in> {CHR ''}'', CHR '']''} \<or> prim_scan js (pos p) = None)"
  using assms
  by (auto simp: jsmn_step_def jsmn_open_def jsmn_close_def jsmn_comma_def jsmn_parse_string_def
      jsmn_parse_primitive_def jsmn_alloc_token_def bump_super_def Let_def map_sum_def
      split: if_splits sum.splits option.splits string_scan.splits prod.splits)

lemma jsmn_loop_error:
  "jsmn_loop js p tokens count = Inl (e, q, t) \<Longrightarrow>
   pos q < length js \<and> js ! pos q \<noteq> NUL \<and> (\<exists>k. jsmn_step js q t k = Inl (e, q, t))"
proof (induction js p tokens count rule: jsmn_loop.induct)
  case (1 js p tokens count)
  then show ?case
    by (auto simp: jsmn_loop.simps [of js p] dest: jsmn_step_error split: if_splits sum.splits prod.splits)
qed

lemma jsmn_loop_length:
  "jsmn_loop js p tokens count = Inr (p', None, k) \<Longrightarrow> jsmn_inv js (pos p) p ts \<Longrightarrow> tokens \<noteq> Some ts"
  using jsmn_loop_inv [of js p tokens count p' None k ts] by auto

section \<open>Counting without an array\<close>

lemma jsmn_step_count:
  assumes "jsmn_step js p (Some ts) count = Inr (p', tokens', count')" and "pos q = pos p"
  shows "\<exists>q'. jsmn_step js q None count = Inr (q', None, count') \<and> pos q' = pos p'"
  using assms
  by (auto simp: jsmn_step_def jsmn_open_def jsmn_close_def jsmn_comma_def jsmn_parse_string_def
      jsmn_parse_primitive_def jsmn_alloc_token_def bump_super_def Let_def map_sum_def
      split: if_splits sum.splits option.splits string_scan.splits)

lemma jsmn_loop_count:
  "jsmn_loop js p tokens count = Inr (p', tokens', count') \<Longrightarrow> tokens = Some ts \<Longrightarrow>
   jsmn_inv js (pos p) p ts \<Longrightarrow> pos q = pos p \<Longrightarrow>
   \<exists>q'. jsmn_loop js q None count = Inr (q', None, count') \<and> pos q' = pos p'"
proof (induction js p tokens count arbitrary: ts q rule: jsmn_loop.induct)
  case (1 js p tokens count)
  note t = 1(3) and inv = 1(4) and q = 1(5)
  show ?case
  proof (cases "pos p < length js \<and> js ! pos p \<noteq> NUL")
    case False
    then show ?thesis using 1(2) q by (auto simp: jsmn_loop.simps)
  next
    case True
    then obtain r u k where st: "jsmn_step js p (Some ts) count = Inr (r, u, k)"
      using 1(2) t by (auto simp: jsmn_loop.simps [of js p] split: sum.splits)
    have l: "jsmn_loop js (r\<lparr>pos := pos r + 1\<rparr>) u k = Inr (p', tokens', count')"
      using 1(2) True t st by (simp add: jsmn_loop.simps [of js p])
    obtain ts1 where ts1: "u = Some ts1" "jsmn_inv js (pos r + 1) r ts1"
      using jsmn_step_inv [OF inv _ _ st] True by auto
    obtain q1 where q1: "jsmn_step js q None count = Inr (q1, None, k)" "pos q1 = pos r"
      using jsmn_step_count [OF st q] by auto
    have "\<exists>q'. jsmn_loop js (q1\<lparr>pos := pos q1 + 1\<rparr>) None k = Inr (q', None, count') \<and> pos q' = pos p'"
      using True st t q1 ts1
      by (intro 1(1) [of "(r, u, k)" r "(u, k)" u k ts1 "q1\<lparr>pos := pos q1 + 1\<rparr>", OF _ _ _ _ l]) auto
    then show ?thesis using True q q1 by (simp add: jsmn_loop.simps [of js q])
  qed
qed

section \<open>Properties\<close>

lemma jsmn_parse_Inr:
  assumes "jsmn_parse jsmn_init js (Some ts) = Inr (p, tokens', n)"
  obtains ts' where "tokens' = Some ts'" "jsmn_inv js (pos p) p ts'" "length ts' = length ts"
    "n = toknext p" "pos p = length js \<or> pos p < length js \<and> js ! pos p = NUL"
    "\<forall>i < n. \<not> tok_open (ts' ! i)" "jsmn_loop js jsmn_init (Some ts) 0 = Inr (p, tokens', n)"
proof -
  obtain q t k where l: "jsmn_loop js jsmn_init (Some ts) 0 = Inr (q, t, k)"
    using assms by (auto simp: jsmn_parse_def split: sum.splits)
  obtain ts' where ts': "t = Some ts'" "jsmn_inv js (pos q) q ts'" "length ts' = length ts"
      "toknext q = k" "pos q = length js \<or> pos q < length js \<and> js ! pos q = NUL"
    using jsmn_loop_inv [OF l refl jsmn_inv_init] by (auto simp: jsmn_init_def)
  then have "find_tok tok_open ts' (toknext q) = None" "p = q" "tokens' = t" "n = k"
    using assms l by (auto simp: jsmn_parse_def split: option.splits)
  with ts' l show thesis by (intro that [of ts']) (auto simp: find_tok_None)
qed

lemma jsmn_parse_wf:
  assumes "jsmn_parse jsmn_init js (Some ts) = Inr (p, tokens', n)"
  shows "\<exists>ts'. tokens' = Some ts' \<and> length ts' = length ts \<and> n \<le> length ts \<and>
    (pos p = length js \<or> pos p < length js \<and> js ! pos p = NUL) \<and>
    (\<forall>i < n. tok_end (ts' ! i) \<noteq> -1 \<and> tok_wf js (length js) (ts' ! i) \<and> i + tok_size (ts' ! i) < n)"
proof -
  obtain ts' where ts': "tokens' = Some ts'" "jsmn_inv js (pos p) p ts'" "length ts' = length ts"
      "n = toknext p" "pos p = length js \<or> pos p < length js \<and> js ! pos p = NUL"
      "\<forall>i < n. \<not> tok_open (ts' ! i)"
    using jsmn_parse_Inr [OF assms] by metis
  have inv: "jsmn_inv js (length js) p ts'" using jsmn_inv_mono [OF ts'(2)] ts'(5) by auto
  have "tok_end (ts' ! i) \<noteq> -1" if "i < n" for i
    using inv that ts'(4,6) tok_wf_start [of js "length js" "ts' ! i"]
    by (auto simp: jsmn_inv_def tok_open_def)
  then show ?thesis
    using ts' inv by (intro exI [of _ ts']) (auto simp: jsmn_inv_def)
qed

text \<open>C12: a successful \<open>jsmn_parse\<close> of a text into a token array reads the text to its length or to its first
  NUL, returns the number of tokens it filled, and leaves the array its capacity.
  Every token of them is closed and is what its type says: a string stands between
  quotes, an object or array between its own brackets, a primitive is not empty and has no
  delimiter and no character outside printable ASCII. The children a token counts fit
  behind it: \<open>i + size < count\<close>, so a walk that skips \<open>size\<close> tokens stays inside the array.\<close>

theorem jsmn_parse_tokens:
  assumes "jsmn_parse jsmn_init js (Some ts) = Inr (p, tokens', n)"
  shows "\<exists>ts'. tokens' = Some ts' \<and> length ts' = length ts \<and> n \<le> length ts \<and>
    (pos p = length js \<or> pos p < length js \<and> js ! pos p = NUL) \<and>
    (\<forall>i < n. tok_end (ts' ! i) \<noteq> -1 \<and> tok_wf js (length js) (ts' ! i) \<and> i + tok_size (ts' ! i) < n)"
  using assms by (rule jsmn_parse_wf)

definition blank_tok :: jsmntok_t where
  "blank_tok = \<lparr>tok_type = JSMN_PRIMITIVE, tok_start = 0, tok_end = 0, tok_size = 0\<rparr>"

definition ex_array :: string where
  "ex_array = ''[1, {}]''"

lemmas jsmn_eval = jsmn_parse_def jsmn_loop.simps jsmn_step_def jsmn_open_def jsmn_close_def
  jsmn_comma_def jsmn_parse_string_def jsmn_parse_primitive_def jsmn_alloc_token_def
  jsmn_fill_token_def bump_super_def jsmn_init_def Let_def map_sum_def prim_scan.simps
  str_scan.simps prim_delim_def prim_bad_def tok_open_def tok_container_def blank_tok_def

lemma ex_array_parse:
  "jsmn_parse jsmn_init ex_array (Some (replicate 4 blank_tok)) =
     Inr (\<lparr>pos = 7, toknext = 3, toksuper = -1\<rparr>,
       Some [\<lparr>tok_type = JSMN_ARRAY, tok_start = 0, tok_end = 7, tok_size = 2\<rparr>,
             \<lparr>tok_type = JSMN_PRIMITIVE, tok_start = 1, tok_end = 2, tok_size = 0\<rparr>,
             \<lparr>tok_type = JSMN_OBJECT, tok_start = 4, tok_end = 6, tok_size = 0\<rparr>, blank_tok], 3)"
  by (simp add: ex_array_def jsmn_eval eval_nat_numeral)

theorem jsmn_parse_tokens_witness:
  "\<exists>ts'. length ts' = 4 \<and> 3 \<le> length (replicate 4 blank_tok) \<and>
    (\<forall>i < 3. tok_end (ts' ! i) \<noteq> -1 \<and> tok_wf ex_array (length ex_array) (ts' ! i))"
proof -
  obtain ts' where "length ts' = length (replicate 4 blank_tok)" "3 \<le> length (replicate 4 blank_tok)"
      "\<forall>i < 3. tok_end (ts' ! i) \<noteq> -1 \<and> tok_wf ex_array (length ex_array) (ts' ! i) \<and> i + tok_size (ts' ! i) < 3"
    using jsmn_parse_tokens [OF ex_array_parse] by blast
  then show ?thesis by (intro exI [of _ ts']) auto
qed


definition ex_full :: string where "ex_full = ''[1''"

lemma ex_full_parse:
  "jsmn_parse jsmn_init ex_full (Some [blank_tok]) =
     Inl (JSMN_ERROR_NOMEM, \<lparr>pos = Suc 0, toknext = Suc 0, toksuper = 0\<rparr>,
       Some [\<lparr>tok_type = JSMN_ARRAY, tok_start = 0, tok_end = -1, tok_size = 0\<rparr>])"
  by (simp add: ex_full_def jsmn_eval)


text \<open>A comma before any container reads \<open>tokens[-1]\<close>: \<open>jsmn_parse\<close> of a text that
  begins with a comma, with a token array of any capacity, has no defined behaviour, while
  counting the tokens of the same text (no array) skips the comma.\<close>

lemma jsmn_leading_comma:
  "jsmn_parse jsmn_init (CHR '','' # js) (Some ts) = Inl (OOB, jsmn_init, Some ts) \<and>
   jsmn_step (CHR '','' # js) jsmn_init None 0 = Inr (jsmn_init, None, 0)"
  by (simp add: jsmn_parse_def jsmn_loop.simps [of "CHR '','' # js" "\<lparr>pos = 0, toknext = 0, toksuper = -1\<rparr>"]
      jsmn_step_def jsmn_comma_def jsmn_init_def)

text \<open>C30: counting the tokens without an array agrees with parsing into one: when parsing succeeds,
  the call with NULL returns the same number.\<close>

theorem jsmn_count_agrees:
  assumes "jsmn_parse jsmn_init js (Some ts) = Inr (p, tokens', n)"
  shows "\<exists>q. jsmn_parse jsmn_init js None = Inr (q, None, n)"
proof -
  have l: "jsmn_loop js jsmn_init (Some ts) 0 = Inr (p, tokens', n)"
    using jsmn_parse_Inr [OF assms] by metis
  show ?thesis
    using jsmn_loop_count [OF l refl jsmn_inv_init refl] by (auto simp: jsmn_parse_def)
qed

theorem jsmn_count_agrees_witness: "\<exists>q. jsmn_parse jsmn_init ex_array None = Inr (q, None, 3)"
  by (rule jsmn_count_agrees [OF ex_array_parse])

end
