(* ===== verification/Jsmn_Json.thy ===== *)
theory Jsmn_Json
  imports Jsmn
begin

text \<open>
  What \<^verbatim>\<open>contrib/jsmn/jsmn.c\<close> makes of JSON: the values, the texts that spell a value (with blanks
  wherever JSON allows them), and the tokens of a text, as a reference definition. The
  tokenizer, started on a text that spells a value, yields exactly those tokens.
\<close>

section \<open>Values and their texts\<close>

text \<open>A string is the text between its quotes: the tokenizer checks its escapes and decodes none of them.\<close>

datatype json = JPrim string | JStr string | JArr "json list" | JObj "(string \<times> json) list"

definition blank :: "char \<Rightarrow> bool" where
  "blank c \<longleftrightarrow> c = CHR 0x09 \<or> c = CHR 0x0D \<or> c = CHR 0x0A \<or> c = CHR '' ''"

abbreviation blanks :: "string \<Rightarrow> bool" where
  "blanks \<equiv> list_all blank"

definition prim_ok :: "string \<Rightarrow> bool" where
  \<comment> \<open>a number, \<open>true\<close>, \<open>false\<close>, \<open>null\<close> (or another word of printable characters)\<close>
  "prim_ok s \<longleftrightarrow> s \<noteq> [] \<and> hd s \<notin> {CHR ''{'', CHR ''['', CHR 0x22} \<and>
     list_all (\<lambda>c. \<not> prim_delim c \<and> \<not> prim_bad c) s"

function str_ok :: "string \<Rightarrow> bool" where
  \<comment> \<open>the contents of a string as JSON writes them: a backslash starts one of its escapes\<close>
  "str_ok [] = True"
| "str_ok (c # s) =
     (if c = CHR 0x5C
      then s \<noteq> [] \<and> (esc_simple (hd s) \<and> str_ok (tl s) \<or>
             hd s = CHR ''u'' \<and> 4 \<le> length (tl s) \<and> list_all is_hex (take 4 (tl s)) \<and> str_ok (drop 4 (tl s)))
      else c \<noteq> CHR 0x22 \<and> c \<noteq> NUL \<and> str_ok s)"
  by pat_completeness auto
termination
  by (relation "measure length") auto

definition quote :: "string \<Rightarrow> string" where
  "quote s = CHR 0x22 # s @ [CHR 0x22]"

definition mk_tok :: "jsmntype_t \<Rightarrow> nat \<Rightarrow> nat \<Rightarrow> nat \<Rightarrow> jsmntok_t" where
  "mk_tok ty s e n = \<lparr>tok_type = ty, tok_start = int s, tok_end = int e, tok_size = n\<rparr>"

text \<open>The third argument of each relation gives the tokens of the text at an offset.\<close>

inductive json_text :: "json \<Rightarrow> string \<Rightarrow> (nat \<Rightarrow> jsmntok_t list) \<Rightarrow> bool"
  and json_elems :: "json list \<Rightarrow> string \<Rightarrow> (nat \<Rightarrow> jsmntok_t list) \<Rightarrow> bool"
  and json_members :: "(string \<times> json) list \<Rightarrow> string \<Rightarrow> (nat \<Rightarrow> jsmntok_t list) \<Rightarrow> bool"
where
  json_prim: "prim_ok s \<Longrightarrow> json_text (JPrim s) s (\<lambda>i. [mk_tok JSMN_PRIMITIVE i (i + length s) 0])"
| json_str: "str_ok s \<Longrightarrow>
    json_text (JStr s) (quote s) (\<lambda>i. [mk_tok JSMN_STRING (i + 1) (i + 1 + length s) 0])"
| json_arr_empty: "blanks b \<Longrightarrow>
    json_text (JArr []) (CHR ''['' # b @ '']'') (\<lambda>i. [mk_tok JSMN_ARRAY i (i + length b + 2) 0])"
| json_arr: "json_elems vs t f \<Longrightarrow>
    json_text (JArr vs) (CHR ''['' # t @ '']'')
      (\<lambda>i. mk_tok JSMN_ARRAY i (i + length t + 2) (length vs) # f (i + 1))"
| json_obj_empty: "blanks b \<Longrightarrow>
    json_text (JObj []) (CHR ''{'' # b @ ''}'') (\<lambda>i. [mk_tok JSMN_OBJECT i (i + length b + 2) 0])"
| json_obj: "json_members ms t f \<Longrightarrow>
    json_text (JObj ms) (CHR ''{'' # t @ ''}'')
      (\<lambda>i. mk_tok JSMN_OBJECT i (i + length t + 2) (length ms) # f (i + 1))"
| json_elem: "json_text v t f \<Longrightarrow> blanks a \<Longrightarrow> blanks b \<Longrightarrow>
    json_elems [v] (a @ t @ b) (\<lambda>i. f (i + length a))"
| json_elem_more: "json_text v t f \<Longrightarrow> blanks a \<Longrightarrow> blanks b \<Longrightarrow> json_elems vs u g \<Longrightarrow>
    json_elems (v # vs) (a @ t @ b @ '','' @ u)
      (\<lambda>i. f (i + length a) @ g (i + length a + length t + length b + 1))"
| json_member: "str_ok k \<Longrightarrow> json_text v t f \<Longrightarrow> blanks a \<Longrightarrow> blanks b \<Longrightarrow> blanks c \<Longrightarrow> blanks d \<Longrightarrow>
    json_members [(k, v)] (a @ quote k @ b @ '':'' @ c @ t @ d)
      (\<lambda>i. mk_tok JSMN_STRING (i + length a + 1) (i + length a + 1 + length k) 1 #
        f (i + length a + length k + length b + length c + 3))"
| json_member_more: "str_ok k \<Longrightarrow> json_text v t f \<Longrightarrow> blanks a \<Longrightarrow> blanks b \<Longrightarrow> blanks c \<Longrightarrow> blanks d \<Longrightarrow>
    json_members ms u g \<Longrightarrow>
    json_members ((k, v) # ms) (a @ quote k @ b @ '':'' @ c @ t @ d @ '','' @ u)
      (\<lambda>i. mk_tok JSMN_STRING (i + length a + 1) (i + length a + 1 + length k) 1 #
        f (i + length a + length k + length b + length c + 3) @
        g (i + length a + length k + length b + length c + length t + length d + 4))"

lemmas json_induct = json_text_json_elems_json_members.inducts

section \<open>The parser state while a text is read\<close>

abbreviation lp :: "string \<Rightarrow> nat \<Rightarrow> nat \<Rightarrow> int \<Rightarrow> jsmntok_t list \<Rightarrow> nat \<Rightarrow>
    (jsmn_parser \<times> tokens \<times> nat) jsmn_result" where
  "lp js i k s ts cnt \<equiv> jsmn_loop js \<lparr>pos = i, toknext = k, toksuper = s\<rparr> (Some ts) cnt"

definition bump :: "int \<Rightarrow> jsmntok_t list \<Rightarrow> jsmntok_t list" where
  "bump s P = (if s = -1 then P else P[nat s := (P ! nat s)\<lparr>tok_size := tok_size (P ! nat s) + 1\<rparr>])"

definition sup_ok :: "int \<Rightarrow> jsmntok_t list \<Rightarrow> bool" where
  "sup_ok s P \<longleftrightarrow> s = -1 \<or> 0 \<le> s \<and> s < int (length P)"

definition last_open :: "jsmntok_t list \<Rightarrow> int" where
  "last_open P = (case find_tok tok_open P (length P) of None \<Rightarrow> -1 | Some k \<Rightarrow> int k)"

definition all_closed :: "jsmntok_t list \<Rightarrow> bool" where
  "all_closed X \<longleftrightarrow> (\<forall>t \<in> set X. \<not> tok_open t)"

lemma length_bump [simp]: "length (bump s P) = length P"
  by (simp add: bump_def)

lemma find_tok_append: "n \<le> length P \<Longrightarrow> find_tok Q (P @ R) n = find_tok Q P n"
  by (induction n) (auto simp: nth_append)

lemma find_tok_cong: "(\<And>i. i < n \<Longrightarrow> Q (xs ! i) = Q (ys ! i)) \<Longrightarrow> find_tok Q xs n = find_tok Q ys n"
  by (induction n) auto

lemma find_tok_skip:
  "\<forall>t \<in> set X. \<not> Q t \<Longrightarrow> find_tok Q (P @ X @ R) (length P + length X) = find_tok Q (P @ X @ R) (length P)"
proof (induction X arbitrary: R rule: rev_induct)
  case (snoc t X)
  then show ?case using snoc.IH [of "t # R"] by (simp add: nth_append)
qed simp

lemma last_open_closed [simp]: "all_closed X \<Longrightarrow> last_open (P @ X) = last_open P"
  using find_tok_skip [of X tok_open P "[]"] find_tok_append [of "length P" P tok_open X]
  by (simp add: last_open_def all_closed_def)

lemma last_open_snoc: "tok_open t \<Longrightarrow> last_open (P @ [t]) = int (length P)"
  by (simp add: last_open_def)

lemma last_open_bump [simp]: "last_open (bump s P) = last_open P"
proof -
  have "find_tok tok_open (bump s P) (length P) = find_tok tok_open P (length P)"
    by (rule find_tok_cong, cases "nat s < length P") (auto simp: bump_def nth_list_update tok_open_def)
  then show ?thesis by (simp add: last_open_def)
qed

lemma last_open_less: "last_open P < int (length P)"
  by (auto simp: last_open_def split: option.split dest: find_tok_Some)

lemma sup_ok_last_open: "sup_ok (last_open P) P"
  using last_open_less [of P] by (auto simp: sup_ok_def last_open_def split: option.split)

lemma lp_unfold:
  assumes "js = pre @ c # post" and "c \<noteq> NUL" and "i = length pre"
  shows "lp js i k s ts cnt = (case jsmn_step js \<lparr>pos = i, toknext = k, toksuper = s\<rparr> (Some ts) cnt of
      Inl e \<Rightarrow> Inl e
    | Inr (p, tokens, count) \<Rightarrow> jsmn_loop js (p\<lparr>pos := pos p + 1\<rparr>) tokens count)"
  using assms by (subst jsmn_loop.simps) simp

lemma lp_blank:
  assumes "js = pre @ c # post" and "blank c" and "i = length pre"
  shows "lp js i k s ts cnt = lp js (Suc i) k s ts cnt"
  using assms by (subst lp_unfold [OF assms(1) _ assms(3)]) (auto simp: jsmn_step_def blank_def)

lemma lp_blanks:
  assumes "js = pre @ b @ post" and "blanks b" and "i = length pre"
  shows "lp js i k s ts cnt = lp js (i + length b) k s ts cnt"
  using assms
proof (induction b arbitrary: pre i)
  case (Cons c b)
  have "lp js i k s ts cnt = lp js (Suc i) k s ts cnt"
    using Cons.prems by (intro lp_blank [of js pre c "b @ post"]) auto
  also have "\<dots> = lp js (Suc i + length b) k s ts cnt"
    using Cons.prems by (intro Cons.IH [of "pre @ [c]"]) auto
  finally show ?case by simp
qed simp

lemma lp_colon:
  assumes "js = pre @ CHR '':'' # post" and "i = length pre"
  shows "lp js i k s ts cnt = lp js (Suc i) k (int k - 1) ts cnt"
  by (subst lp_unfold [OF assms(1) _ assms(2)]) (simp_all add: jsmn_step_def assms)

lemma bump_super_append:
  assumes "sup_ok s P" and "toksuper p = s"
  shows "bump_super p (Some (P @ X)) = Some (bump s P @ X)"
  using assms by (auto simp: bump_super_def bump_def sup_ok_def list_update_append nth_append Let_def)

lemma alloc_append:
  assumes "R \<noteq> []" and "toknext p = length P"
  shows "jsmn_alloc_token p (P @ R) = Some (length P, p\<lparr>toknext := length P + 1\<rparr>,
    P @ (hd R)\<lparr>tok_start := -1, tok_end := -1, tok_size := 0\<rparr> # tl R)"
  using assms by (cases R) (simp_all add: jsmn_alloc_token_def Let_def)

lemma str_ok_plain: "list_all (\<lambda>c. c \<noteq> CHR 0x22 \<and> c \<noteq> CHR 0x5C \<and> c \<noteq> NUL) s \<Longrightarrow> str_ok s"
  by (induction s) auto

lemma is_hex_NUL: "list_all is_hex s \<Longrightarrow> NUL \<notin> set s"
  by (auto simp: list_all_iff is_hex_def)

lemma str_ok_NUL: "str_ok s \<Longrightarrow> NUL \<notin> set s"
proof (induction s rule: str_ok.induct)
  case (2 c s)
  show ?case
  proof (cases "c = CHR 0x5C")
    case True
    then obtain e r where s: "s = e # r" using 2(4) by (cases s) auto
    have "NUL \<notin> set (take 4 r)" if "list_all is_hex (take 4 r)" using is_hex_NUL [OF that] .
    moreover have "set r = set (take 4 r) \<union> set (drop 4 r)" by (metis append_take_drop_id set_append)
    ultimately show ?thesis using 2 True s by (auto simp: esc_simple_def)
  qed (use 2 in auto)
qed simp

lemma hex_scan_digits:
  "list_all is_hex ds \<Longrightarrow> hex_scan (pre @ ds @ post) (length pre) (length ds) = Some (length pre + length ds)"
proof (induction ds arbitrary: pre)
  case (Cons d ds)
  have "d \<noteq> NUL" using Cons.prems by (auto simp: is_hex_def)
  then show ?case using Cons.IH [of "pre @ [d]"] Cons.prems by simp
qed simp

lemma str_scan_closed:
  assumes "js = pre @ s @ CHR 0x22 # post" and "str_ok s" and "i = length pre"
  shows "str_scan js i = Str_End (i + length s)"
  using assms
proof (induction s arbitrary: pre i rule: str_ok.induct)
  case 1
  then show ?case by (subst str_scan.simps) simp
next
  case (2 c s)
  show ?case
  proof (cases "c = CHR 0x5C")
    case False
    then have "str_scan js i = str_scan js (Suc i)"
      using "2.prems" by (subst str_scan.simps) simp
    then show ?thesis using "2.IH"(3) [OF False, of "pre @ [c]" "Suc i"] False "2.prems" by simp
  next
    case esc: True
    then obtain e r where s: "s = e # r" using "2.prems" by (cases s) auto
    show ?thesis
    proof (cases "esc_simple e")
      case True
      have "str_scan js i = str_scan js (i + 2)"
        using "2.prems" esc s True by (subst str_scan.simps) (simp add: nth_append)
      moreover have "str_ok r" using "2.prems"(2) esc s True by (auto simp: esc_simple_def)
      ultimately show ?thesis
        using "2.IH"(1) [OF esc, of "pre @ [c, e]" "i + 2"] "2.prems" s by simp
    next
      case False
      define ds q where "ds = take 4 r" and "q = drop 4 r"
      have u: "e = CHR ''u''" "r = ds @ q" "length ds = 4" "list_all is_hex ds" "str_ok q"
        using "2.prems"(2) esc s False by (auto simp: ds_def q_def)
      have js: "js = (pre @ [c, e]) @ ds @ q @ CHR 0x22 # post" and i: "i + 2 = length (pre @ [c, e])"
        using "2.prems"(1,3) s u(2) by simp_all
      have h: "hex_scan js (i + 2) 4 = Some (i + 6)"
        using hex_scan_digits [OF u(4), of "pre @ [c, e]" "q @ CHR 0x22 # post", folded js i] u(3) by simp
      have "js ! i = c" "js ! (i + 1) = e" "i + 1 < length js"
        using "2.prems"(1,3) s by (simp_all add: nth_append)
      then have "str_scan js i = str_scan js (i + 6)"
        using esc False u(1) h by (subst str_scan.simps) simp
      also have "\<dots> = Str_End (i + 6 + length (drop 4 (tl s)))"
      proof (rule "2.IH"(2) [OF esc])
        show "js = (pre @ [c, e] @ ds) @ drop 4 (tl s) @ CHR 0x22 # post" using js s by (simp add: q_def)
        show "str_ok (drop 4 (tl s))" using u(5) s by (simp add: q_def)
        show "i + 6 = length (pre @ [c, e] @ ds)" using i u(3) by simp
      qed
      finally have "str_scan js i = Str_End (i + 6 + length q)" using s by (simp add: q_def)
      then show ?thesis using s u(2,3) by simp
    qed
  qed
qed

definition delim :: "string \<Rightarrow> bool" where
  "delim post \<longleftrightarrow> post = [] \<or> prim_delim (hd post)"

lemma prim_scan_plain:
  assumes "js = pre @ s @ post" and "list_all (\<lambda>c. \<not> prim_delim c \<and> \<not> prim_bad c) s" and "delim post"
    and "i = length pre"
  shows "prim_scan js i = Some (i + length s)"
  using assms
proof (induction s arbitrary: pre i)
  case Nil
  then show ?case
    by (subst prim_scan.simps) (cases post, auto simp: delim_def)
next
  case (Cons c s)
  have "c \<noteq> NUL" using Cons.prems(2) by (auto simp: prim_bad_def)
  then have "prim_scan js i = prim_scan js (Suc i)"
    using Cons.prems by (subst prim_scan.simps) simp
  then show ?case
    using Cons.IH [of "pre @ [c]" "Suc i"] Cons.prems by simp
qed

section \<open>One step of the parser\<close>

lemma fill_tok: "jsmn_fill_token t ty a b = \<lparr>tok_type = ty, tok_start = a, tok_end = b, tok_size = 0\<rparr>"
  by (cases t) (simp add: jsmn_fill_token_def)

lemma lp_step:
  assumes "js = pre @ c # post" and "c \<noteq> NUL" and "i = length pre"
    and "jsmn_step js \<lparr>pos = i, toknext = k, toksuper = s\<rparr> (Some ts) cnt =
      Inr (\<lparr>pos = j, toknext = k', toksuper = s'\<rparr>, Some ts', cnt')"
  shows "lp js i k s ts cnt = lp js (Suc j) k' s' ts' cnt'"
  by (subst lp_unfold [OF assms(1-3)]) (simp add: assms(4))

lemma nth_pre: "js = pre @ c # post \<Longrightarrow> i = length pre \<Longrightarrow> js ! i = c"
  by simp

lemma lp_string:
  assumes "js = pre @ quote w @ post" and "str_ok w" and "i = length pre" and "sup_ok s P" and "R \<noteq> []"
  shows "lp js i (length P) s (P @ R) cnt =
    lp js (i + length w + 2) (length P + 1) s
      (bump s P @ mk_tok JSMN_STRING (i + 1) (i + 1 + length w) 0 # tl R) (cnt + 1)"
proof -
  have js: "js = pre @ CHR 0x22 # w @ CHR 0x22 # post" using assms(1) by (simp add: quote_def)
  have sc: "str_scan js (Suc i) = Str_End (Suc i + length w)"
    using js assms(2,3) by (intro str_scan_closed [of js "pre @ [CHR 0x22]" w post]) simp_all
  have "jsmn_parse_string \<lparr>pos = i, toknext = length P, toksuper = s\<rparr> js (Some (P @ R)) =
      Inr (\<lparr>pos = i + length w + 1, toknext = length P + 1, toksuper = s\<rparr>,
        Some (P @ mk_tok JSMN_STRING (i + 1) (i + 1 + length w) 0 # tl R))"
    using sc alloc_append [OF assms(5), of "\<lparr>pos = i, toknext = length P, toksuper = s\<rparr>" P]
    by (simp add: jsmn_parse_string_def fill_tok mk_tok_def list_update_append)
  then have "jsmn_step js \<lparr>pos = i, toknext = length P, toksuper = s\<rparr> (Some (P @ R)) cnt =
      Inr (\<lparr>pos = i + length w + 1, toknext = length P + 1, toksuper = s\<rparr>,
        Some (bump s P @ mk_tok JSMN_STRING (i + 1) (i + 1 + length w) 0 # tl R), cnt + 1)"
    using nth_pre [OF js assms(3)] bump_super_append [OF assms(4)] by (simp add: jsmn_step_def)
  from lp_step [OF js _ assms(3) this] show ?thesis by simp
qed

lemma lp_prim:
  assumes "js = pre @ w @ post" and "prim_ok w" and "delim post" and "i = length pre" and "sup_ok s P"
    and "R \<noteq> []"
  shows "lp js i (length P) s (P @ R) cnt =
    lp js (i + length w) (length P + 1) s
      (bump s P @ mk_tok JSMN_PRIMITIVE i (i + length w) 0 # tl R) (cnt + 1)"
proof -
  obtain c w' where w: "w = c # w'" using assms(2) by (cases w) (auto simp: prim_ok_def)
  have js: "js = pre @ c # (w' @ post)" using assms(1) w by simp
  have "\<not> prim_bad c" using assms(2) w by (simp add: prim_ok_def)
  then have nul: "c \<noteq> NUL" by (auto simp: prim_bad_def)
  have c: "c \<notin> {CHR ''{'', CHR ''['', CHR 0x22, CHR ''}'', CHR '']'', CHR 0x09, CHR 0x0D, CHR 0x0A,
      CHR '' '', CHR '':'', CHR '',''}"
    using assms(2) w by (simp add: prim_ok_def prim_delim_def)
  have sc: "prim_scan js i = Some (i + length w)"
    using assms by (intro prim_scan_plain [of js pre w post]) (simp_all add: prim_ok_def)
  have "jsmn_parse_primitive \<lparr>pos = i, toknext = length P, toksuper = s\<rparr> js (Some (P @ R)) =
      Inr (\<lparr>pos = i + length w', toknext = length P + 1, toksuper = s\<rparr>,
        Some (P @ mk_tok JSMN_PRIMITIVE i (i + length w) 0 # tl R))"
    using sc alloc_append [OF assms(6), of "\<lparr>pos = i, toknext = length P, toksuper = s\<rparr>" P]
    by (simp add: jsmn_parse_primitive_def fill_tok mk_tok_def list_update_append w)
  then have "jsmn_step js \<lparr>pos = i, toknext = length P, toksuper = s\<rparr> (Some (P @ R)) cnt =
      Inr (\<lparr>pos = i + length w', toknext = length P + 1, toksuper = s\<rparr>,
        Some (bump s P @ mk_tok JSMN_PRIMITIVE i (i + length w) 0 # tl R), cnt + 1)"
    using nth_pre [OF js assms(4)] bump_super_append [OF assms(5)] c by (simp add: jsmn_step_def)
  from lp_step [OF js nul assms(4) this] show ?thesis by (simp add: w)
qed

definition opens :: "char \<Rightarrow> jsmntype_t \<Rightarrow> bool" where
  "opens c ty \<longleftrightarrow> c = CHR ''{'' \<and> ty = JSMN_OBJECT \<or> c = CHR ''['' \<and> ty = JSMN_ARRAY"

definition closes :: "char \<Rightarrow> jsmntype_t \<Rightarrow> bool" where
  "closes c ty \<longleftrightarrow> c = CHR ''}'' \<and> ty = JSMN_OBJECT \<or> c = CHR '']'' \<and> ty = JSMN_ARRAY"

definition open_tok :: "jsmntype_t \<Rightarrow> nat \<Rightarrow> nat \<Rightarrow> jsmntok_t" where
  "open_tok ty i n = \<lparr>tok_type = ty, tok_start = int i, tok_end = -1, tok_size = n\<rparr>"

lemma lp_open:
  assumes "js = pre @ c # post" and "opens c ty" and "i = length pre" and "sup_ok s P" and "R \<noteq> []"
  shows "lp js i (length P) s (P @ R) cnt =
    lp js (i + 1) (length P + 1) (int (length P)) (bump s P @ open_tok ty i 0 # tl R) (cnt + 1)"
proof -
  have c: "c \<noteq> NUL" "c = CHR ''{'' \<or> c = CHR ''[''" "ty = (if c = CHR ''{'' then JSMN_OBJECT else JSMN_ARRAY)"
    using assms(2) by (auto simp: opens_def)
  have "jsmn_open c \<lparr>pos = i, toknext = length P, toksuper = s\<rparr> (Some (P @ R)) =
      Inr (\<lparr>pos = i, toknext = length P + 1, toksuper = int (length P)\<rparr>,
        Some (bump s P @ open_tok ty i 0 # tl R))"
    using alloc_append [OF assms(5), of "\<lparr>pos = i, toknext = length P, toksuper = s\<rparr>" P]
      bump_super_append [OF assms(4)] c(3)
    by (cases "hd R") (simp add: jsmn_open_def list_update_append nth_append open_tok_def)
  then have "jsmn_step js \<lparr>pos = i, toknext = length P, toksuper = s\<rparr> (Some (P @ R)) cnt =
      Inr (\<lparr>pos = i, toknext = length P + 1, toksuper = int (length P)\<rparr>,
        Some (bump s P @ open_tok ty i 0 # tl R), cnt + 1)"
    using nth_pre [OF assms(1,3)] c(2) by (simp add: jsmn_step_def)
  from lp_step [OF assms(1) c(1) assms(3) this] show ?thesis by simp
qed

lemma lp_close:
  assumes "js = pre @ c # post" and "closes c ty" and "i = length pre" and "all_closed X"
    and "P = Q @ open_tok ty j n # X"
  shows "lp js i (length P) s (P @ R) cnt =
    lp js (i + 1) (length P) (last_open Q) (Q @ mk_tok ty j (i + 1) n # X @ R) cnt"
proof -
  have c: "c \<noteq> NUL" "c = CHR ''}'' \<or> c = CHR '']''" "ty = (if c = CHR ''}'' then JSMN_OBJECT else JSMN_ARRAY)"
    using assms(2) by (auto simp: closes_def)
  let ?q = "Q @ [open_tok ty j n]" and ?u = "mk_tok ty j (i + 1) n"
  have "find_tok tok_open (P @ R) (length P) = find_tok tok_open (?q @ X @ R) (length ?q + length X)"
    by (simp add: assms(5))
  also have "\<dots> = find_tok tok_open (?q @ X @ R) (length ?q)"
    using assms(4) by (intro find_tok_skip) (simp add: all_closed_def)
  also have "\<dots> = Some (length Q)"
    by (simp add: nth_append tok_open_def open_tok_def)
  finally have f: "find_tok tok_open (P @ R) (length P) = Some (length Q)" .
  have n: "(P @ R) ! length Q = open_tok ty j n" by (simp add: assms(5))
  have u: "(P @ R)[length Q := (open_tok ty j n)\<lparr>tok_end := int i + 1\<rparr>] = Q @ ?u # X @ R"
    by (simp add: assms(5) open_tok_def mk_tok_def)
  have l: "(case find_tok tok_open (Q @ ?u # X @ R) (Suc (length Q)) of None \<Rightarrow> -1 | Some k \<Rightarrow> int k) = last_open Q"
    by (simp add: find_tok_append nth_append tok_open_def mk_tok_def last_open_def)
  have "jsmn_close c \<lparr>pos = i, toknext = length P, toksuper = s\<rparr> (Some (P @ R)) =
      Inr (\<lparr>pos = i, toknext = length P, toksuper = last_open Q\<rparr>, Some (Q @ ?u # X @ R))"
    using f n u l c(3) by (simp add: jsmn_close_def Let_def open_tok_def)
  then have "jsmn_step js \<lparr>pos = i, toknext = length P, toksuper = s\<rparr> (Some (P @ R)) cnt =
      Inr (\<lparr>pos = i, toknext = length P, toksuper = last_open Q\<rparr>, Some (Q @ ?u # X @ R), cnt)"
    using nth_pre [OF assms(1,3)] c(2) by (auto simp: jsmn_step_def)
  from lp_step [OF assms(1) c(1) assms(3) this] show ?thesis by simp
qed

definition inside :: "int \<Rightarrow> jsmntok_t list \<Rightarrow> bool" where
  \<comment> \<open>the innermost open token is the container \<open>c\<close>\<close>
  "inside c P \<longleftrightarrow> 0 \<le> c \<and> c = last_open P \<and> tok_container (P ! nat c)"

definition item_end :: "int \<Rightarrow> int \<Rightarrow> jsmntok_t list \<Rightarrow> bool" where
  \<comment> \<open>where the super token may be after an item of the container \<open>c\<close>\<close>
  "item_end c s P \<longleftrightarrow> s = c \<or> 0 \<le> s \<and> s < int (length P) \<and> \<not> tok_container (P ! nat s)"

lemma find_container:
  assumes "inside c P"
  shows "find_tok (\<lambda>t. tok_container t \<and> tok_open t) P (length P) = Some (nat c)"
proof -
  have "find_tok tok_open P (length P) = Some (nat c)"
    using assms by (auto simp: inside_def last_open_def split: option.splits)
  from find_tok_Some [OF this] have 1: "nat c < length P" "tok_open (P ! nat c)"
      "\<And>j. nat c < j \<Longrightarrow> j < length P \<Longrightarrow> \<not> tok_open (P ! j)" by auto
  have "find_tok (\<lambda>t. tok_container t \<and> tok_open t) P (length P) \<noteq> None"
    using 1 assms by (auto simp: find_tok_None inside_def)
  then obtain k where k: "find_tok (\<lambda>t. tok_container t \<and> tok_open t) P (length P) = Some k" by blast
  from find_tok_Some [OF this] have 2: "k < length P" "tok_open (P ! k)"
      "\<And>j. k < j \<Longrightarrow> j < length P \<Longrightarrow> \<not> (tok_container (P ! j) \<and> tok_open (P ! j))" by auto
  have "k = nat c"
    using 1 2 assms by (metis inside_def linorder_neqE_nat)
  then show ?thesis using k by simp
qed

lemma lp_comma:
  assumes "js = pre @ CHR '','' # post" and "i = length pre" and "inside c P" and "item_end c s P"
  shows "lp js i (length P) s (P @ R) cnt = lp js (i + 1) (length P) c (P @ R) cnt"
proof -
  have less: "c < int (length P)" using assms(3) last_open_less by (simp add: inside_def)
  have f: "find_tok (\<lambda>t. tok_container t \<and> tok_open t) (P @ R) (length P) = Some (nat c)"
    using find_container [OF assms(3)] by (simp add: find_tok_append)
  have "jsmn_comma \<lparr>pos = i, toknext = length P, toksuper = s\<rparr> (Some (P @ R)) =
      Inr (\<lparr>pos = i, toknext = length P, toksuper = c\<rparr>, Some (P @ R))"
    using assms(3,4) less f by (auto simp: jsmn_comma_def item_end_def inside_def nth_append)
  then have "jsmn_step js \<lparr>pos = i, toknext = length P, toksuper = s\<rparr> (Some (P @ R)) cnt =
      Inr (\<lparr>pos = i, toknext = length P, toksuper = c\<rparr>, Some (P @ R), cnt)"
    using nth_pre [OF assms(1,2)] by (simp add: jsmn_step_def)
  from lp_step [OF assms(1) _ assms(2) this] show ?thesis by simp
qed

section \<open>The tokens of a text\<close>

lemma delim_blanks: "blanks b \<Longrightarrow> delim post \<Longrightarrow> delim (b @ post)"
  by (cases b) (auto simp: delim_def blank_def prim_delim_def)

lemma delim_Cons: "closes c ty \<or> c = CHR '','' \<Longrightarrow> delim (c # post)"
  by (auto simp: delim_def closes_def prim_delim_def)

lemma all_closed_simps [simp]:
  "all_closed []" "all_closed (t # X) \<longleftrightarrow> \<not> tok_open t \<and> all_closed X"
  "all_closed (X @ Y) \<longleftrightarrow> all_closed X \<and> all_closed Y"
  by (auto simp: all_closed_def)

lemma mk_tok_closed [simp]: "\<not> tok_open (mk_tok ty i j n)"
  by (simp add: tok_open_def mk_tok_def)

lemma json_closed:
  "json_text v t f \<Longrightarrow> all_closed (f i)"
  "json_elems vs t f \<Longrightarrow> all_closed (f i)"
  "json_members ms t f \<Longrightarrow> all_closed (f i)"
  by (induction arbitrary: i and i and i rule: json_induct) auto

lemma bump_append: "0 \<le> c \<Longrightarrow> c < int (length P) \<Longrightarrow> bump c (P @ X) = bump c P @ X"
  by (simp add: bump_def list_update_append nth_append nat_less_iff)

lemma length_bump_pow [simp]: "length ((bump c ^^ m) P) = length P"
  by (induction m) simp_all

lemma bump_pow_append:
  "0 \<le> c \<Longrightarrow> c < int (length P) \<Longrightarrow> (bump c ^^ m) (P @ X) = (bump c ^^ m) P @ X"
  by (induction m) (simp_all add: bump_append)

lemma bump_pow_last:
  "(bump (int (length P)) ^^ m) (P @ [open_tok ty i 0]) = P @ [open_tok ty i m]"
  by (induction m) (simp_all add: bump_def list_update_append open_tok_def)

lemma inside_bump_append:
  assumes "inside c P" and "all_closed X"
  shows "inside c (bump c P @ X)"
proof -
  have "c < int (length P)" using assms(1) last_open_less by (simp add: inside_def)
  then have "tok_container ((bump c P @ X) ! nat c) = tok_container (P ! nat c)"
    using assms(1) by (simp add: inside_def nth_append bump_def tok_container_def nat_less_iff)
  then show ?thesis
    using assms by (auto simp: inside_def)
qed

definition reads_value :: "string \<Rightarrow> string \<Rightarrow> (nat \<Rightarrow> jsmntok_t list) \<Rightarrow> bool" where
  \<comment> \<open>the parser reads the text \<open>t\<close> of a value within \<open>js\<close>, whatever stands around it, into the tokens \<open>f\<close>\<close>
  "reads_value js t f \<longleftrightarrow> (\<forall>pre post P s R cnt. js = pre @ t @ post \<longrightarrow> delim post \<longrightarrow> sup_ok s P \<longrightarrow>
     length (f (length pre)) \<le> length R \<longrightarrow>
     (\<exists>s'. (s' = s \<or> s' = last_open P) \<and>
        lp js (length pre) (length P) s (P @ R) cnt =
        lp js (length pre + length t) (length P + length (f (length pre))) s'
          (bump s P @ f (length pre) @ drop (length (f (length pre))) R) (cnt + length (f (length pre)))))"

definition reads_items :: "string \<Rightarrow> string \<Rightarrow> (nat \<Rightarrow> jsmntok_t list) \<Rightarrow> nat \<Rightarrow> bool" where
  \<comment> \<open>the same for the \<open>m\<close> items of a container\<close>
  "reads_items js t f m \<longleftrightarrow> (\<forall>pre post P R c cnt. js = pre @ t @ post \<longrightarrow> delim post \<longrightarrow> inside c P \<longrightarrow>
     length (f (length pre)) \<le> length R \<longrightarrow>
     (\<exists>s'. lp js (length pre) (length P) c (P @ R) cnt =
        lp js (length pre + length t) (length P + length (f (length pre))) s'
          ((bump c ^^ m) P @ f (length pre) @ drop (length (f (length pre))) R)
          (cnt + length (f (length pre)))))"

lemma reads_valueD:
  assumes "reads_value js t f" and "js = pre @ t @ post" and "delim post" and "sup_ok s P"
    and "length (f i) \<le> length R" and "i = length pre"
  obtains s' where "s' = s \<or> s' = last_open P"
    "lp js i (length P) s (P @ R) cnt = lp js (i + length t) (length P + length (f i)) s'
       (bump s P @ f i @ drop (length (f i)) R) (cnt + length (f i))"
proof -
  from assms(1) [unfolded reads_value_def, rule_format, OF assms(2-4), of R cnt] assms(5)
  show thesis using that unfolding assms(6) by blast
qed

lemma reads_itemsD:
  assumes "reads_items js t f m" and "js = pre @ t @ post" and "delim post" and "inside c P"
    and "length (f i) \<le> length R" and "i = length pre"
  obtains s' where "lp js i (length P) c (P @ R) cnt = lp js (i + length t) (length P + length (f i)) s'
       ((bump c ^^ m) P @ f i @ drop (length (f i)) R) (cnt + length (f i))"
proof -
  from assms(1) [unfolded reads_items_def, rule_format, OF assms(2-4), of R cnt] assms(5)
  show thesis using that unfolding assms(6) by blast
qed

lemma reads_blanks: "blanks b \<Longrightarrow> reads_items js b (\<lambda>_. []) 0"
  unfolding reads_items_def using lp_blanks by fastforce

lemma reads_container:
  assumes "reads_items js t f m" and "opens c ty" and "closes d ty" and cl: "\<And>i. all_closed (f i)"
  shows "reads_value js (c # t @ [d]) (\<lambda>i. mk_tok ty i (i + length t + 2) m # f (i + 1))"
  unfolding reads_value_def
proof (intro allI impI)
  fix pre post :: string and P R :: "jsmntok_t list" and s cnt
  let ?i = "length pre" and ?f = "f (Suc (length pre))"
  assume js: "js = pre @ (c # t @ [d]) @ post" and "delim post" and s: "sup_ok s P"
    and R: "length (mk_tok ty ?i (?i + length t + 2) m # f (?i + 1)) \<le> length R"
  let ?P1 = "bump s P @ [open_tok ty ?i 0]" and ?k = "int (length P)"
  have "tok_open (open_tok ty ?i 0)" by (simp add: tok_open_def open_tok_def)
  moreover have "tok_container (open_tok ty ?i 0)" using assms(2) by (auto simp: tok_container_def open_tok_def opens_def)
  ultimately have ins: "inside ?k ?P1" by (simp add: inside_def last_open_snoc nth_append)
  have o: "lp js ?i (length P) s (P @ R) cnt = lp js (Suc ?i) (length ?P1) ?k (?P1 @ tl R) (cnt + 1)"
    using lp_open [of js pre c "t @ [d] @ post" ty ?i s P R cnt] js assms(2) s R by (cases R) auto
  obtain s' where it: "lp js (Suc ?i) (length ?P1) ?k (?P1 @ tl R) (cnt + 1) =
      lp js (Suc ?i + length t) (length ?P1 + length ?f) s'
        ((bump ?k ^^ m) ?P1 @ ?f @ drop (length ?f) (tl R)) (cnt + 1 + length ?f)"
    by (rule reads_itemsD [OF assms(1), of "pre @ [c]" "d # post" ?k ?P1 "Suc ?i" "tl R" "cnt + 1"])
      (use js ins R delim_Cons [OF disjI1, OF assms(3)] in auto)
  let ?Q = "bump s P" and ?X = ?f
  have "(bump ?k ^^ m) ?P1 = ?Q @ [open_tok ty ?i m]"
    using bump_pow_last [of m "bump s P" ty ?i] by simp
  then have b: "(bump ?k ^^ m) ?P1 @ ?f @ drop (length ?f) (tl R) =
      (?Q @ open_tok ty ?i m # ?X) @ drop (length ?f) (tl R)" by simp
  have "lp js (Suc ?i + length t) (length (?Q @ open_tok ty ?i m # ?X)) s'
      ((?Q @ open_tok ty ?i m # ?X) @ drop (length ?f) (tl R)) (cnt + 1 + length ?f) =
    lp js (Suc ?i + length t + 1) (length (?Q @ open_tok ty ?i m # ?X)) (last_open ?Q)
      (?Q @ mk_tok ty ?i (Suc ?i + length t + 1) m # ?X @ drop (length ?f) (tl R)) (cnt + 1 + length ?f)"
    by (rule lp_close [OF _ assms(3) _ _ refl, of js "pre @ c # t" post]) (use js cl in auto)
  then show "\<exists>s'. (s' = s \<or> s' = last_open P) \<and> lp js ?i (length P) s (P @ R) cnt =
      lp js (?i + length (c # t @ [d])) (length P + length (mk_tok ty ?i (?i + length t + 2) m # f (?i + 1))) s'
        (bump s P @ (mk_tok ty ?i (?i + length t + 2) m # f (?i + 1)) @
          drop (length (mk_tok ty ?i (?i + length t + 2) m # f (?i + 1))) R)
        (cnt + length (mk_tok ty ?i (?i + length t + 2) m # f (?i + 1)))"
    using o it b by (intro exI [of _ "last_open P"]) (simp add: drop_Suc)
qed

lemma reads_prim:
  assumes "prim_ok w"
  shows "reads_value js w (\<lambda>i. [mk_tok JSMN_PRIMITIVE i (i + length w) 0])"
  unfolding reads_value_def
proof (intro allI impI)
  fix pre post :: string and P R :: "jsmntok_t list" and s cnt
  let ?t = "mk_tok JSMN_PRIMITIVE (length pre) (length pre + length w) 0"
  assume "js = pre @ w @ post" "delim post" "sup_ok s P" "length [?t] \<le> length R"
  then show "\<exists>s'. (s' = s \<or> s' = last_open P) \<and> lp js (length pre) (length P) s (P @ R) cnt =
      lp js (length pre + length w) (length P + length [?t]) s' (bump s P @ [?t] @ drop (length [?t]) R)
        (cnt + length [?t])"
    using lp_prim [of js pre w post "length pre" s P R cnt] assms
    by (intro exI [of _ s], cases R) (auto simp: drop_Suc)
qed

lemma reads_string:
  assumes "str_ok w"
  shows "reads_value js (quote w) (\<lambda>i. [mk_tok JSMN_STRING (i + 1) (i + 1 + length w) 0])"
  unfolding reads_value_def
proof (intro allI impI)
  fix pre post :: string and P R :: "jsmntok_t list" and s cnt
  let ?t = "mk_tok JSMN_STRING (length pre + 1) (length pre + 1 + length w) 0"
  assume "js = pre @ quote w @ post" "delim post" "sup_ok s P" "length [?t] \<le> length R"
  then show "\<exists>s'. (s' = s \<or> s' = last_open P) \<and> lp js (length pre) (length P) s (P @ R) cnt =
      lp js (length pre + length (quote w)) (length P + length [?t]) s' (bump s P @ [?t] @ drop (length [?t]) R)
        (cnt + length [?t])"
    using lp_string [of js pre w post "length pre" s P R cnt] assms
    by (intro exI [of _ s], cases R) (auto simp: drop_Suc quote_def)
qed

definition reads_item :: "string \<Rightarrow> string \<Rightarrow> (nat \<Rightarrow> jsmntok_t list) \<Rightarrow> bool" where
  \<comment> \<open>one item of a container, with the blanks around it\<close>
  "reads_item js t f \<longleftrightarrow> (\<forall>pre post P R c cnt. js = pre @ t @ post \<longrightarrow> delim post \<longrightarrow> inside c P \<longrightarrow>
     length (f (length pre)) \<le> length R \<longrightarrow>
     (\<exists>s'. item_end c s' (bump c P @ f (length pre)) \<and>
        lp js (length pre) (length P) c (P @ R) cnt =
        lp js (length pre + length t) (length P + length (f (length pre))) s'
          (bump c P @ f (length pre) @ drop (length (f (length pre))) R)
          (cnt + length (f (length pre)))))"

lemma reads_itemD:
  assumes "reads_item js t f" and "js = pre @ t @ post" and "delim post" and "inside c P"
    and "length (f i) \<le> length R" and "i = length pre"
  obtains s' where "item_end c s' (bump c P @ f i)"
    "lp js i (length P) c (P @ R) cnt = lp js (i + length t) (length P + length (f i)) s'
       (bump c P @ f i @ drop (length (f i)) R) (cnt + length (f i))"
proof -
  from assms(1) [unfolded reads_item_def, rule_format, OF assms(2-4), of R cnt] assms(5)
  show thesis using that unfolding assms(6) by blast
qed

lemma reads_one: "reads_item js t f \<Longrightarrow> reads_items js t f 1"
  unfolding reads_item_def reads_items_def by simp blast

lemma reads_more:
  assumes "reads_item js t f" and "reads_items js u g m" and cl: "\<And>i. all_closed (f i)"
  shows "reads_items js (t @ '','' @ u) (\<lambda>i. f i @ g (i + length t + 1)) (Suc m)"
  unfolding reads_items_def
proof (intro allI impI)
  fix pre post :: string and P R :: "jsmntok_t list" and c cnt
  let ?i = "length pre" and ?j = "length pre + length t + 1"
  let ?P = "bump c P @ f ?i" and ?R = "drop (length (f ?i)) R" and ?n = "length (f ?i @ g ?j)"
  assume js: "js = pre @ (t @ '','' @ u) @ post" and d: "delim post" and c: "inside c P" and R: "?n \<le> length R"
  obtain s' where e: "item_end c s' ?P" and 1: "lp js ?i (length P) c (P @ R) cnt =
      lp js (?i + length t) (length P + length (f ?i)) s' (bump c P @ f ?i @ ?R) (cnt + length (f ?i))"
    by (rule reads_itemD [OF assms(1), of pre "CHR '','' # u @ post" c P ?i R cnt])
      (use js c R in \<open>auto simp: delim_def prim_delim_def\<close>)
  have ins: "inside c ?P" using c cl by (rule inside_bump_append)
  have 2: "lp js (?i + length t) (length ?P) s' (?P @ ?R) (cnt + length (f ?i)) =
      lp js ?j (length ?P) c (?P @ ?R) (cnt + length (f ?i))"
    using js e ins by (intro lp_comma [of js "pre @ t" "u @ post"]) auto
  obtain s'' where 3: "lp js ?j (length ?P) c (?P @ ?R) (cnt + length (f ?i)) =
      lp js (?j + length u) (length ?P + length (g ?j)) s'' ((bump c ^^ m) ?P @ g ?j @ drop (length (g ?j)) ?R)
        (cnt + length (f ?i) + length (g ?j))"
    by (rule reads_itemsD [OF assms(2), of "pre @ t @ '',''" post c ?P ?j ?R "cnt + length (f ?i)"])
      (use js d ins R in auto)
  have "(bump c ^^ m) ?P = (bump c ^^ Suc m) P @ f ?i"
    using c last_open_less [of P] by (simp add: bump_pow_append inside_def funpow_swap1)
  then show "\<exists>s''. lp js ?i (length P) c (P @ R) cnt =
      lp js (?i + length (t @ '','' @ u)) (length P + ?n) s''
        ((bump c ^^ Suc m) P @ (f ?i @ g ?j) @ drop ?n R) (cnt + ?n)"
    using 1 2 3 by (intro exI [of _ s'']) (simp add: ac_simps)
qed

lemma reads_elem:
  assumes "reads_value js t f" and "blanks a" and "blanks b"
  shows "reads_item js (a @ t @ b) (\<lambda>i. f (i + length a))"
  unfolding reads_item_def
proof (intro allI impI)
  fix pre post :: string and P R :: "jsmntok_t list" and c cnt
  let ?i = "length pre + length a"
  assume js: "js = pre @ (a @ t @ b) @ post" and d: "delim post" and c: "inside c P" and R: "length (f ?i) \<le> length R"
  have 1: "lp js (length pre) (length P) c (P @ R) cnt = lp js ?i (length P) c (P @ R) cnt"
    using js assms(2) by (intro lp_blanks [of js pre a "t @ b @ post"]) auto
  obtain s' where s': "s' = c \<or> s' = last_open P" and
    2: "lp js ?i (length P) c (P @ R) cnt = lp js (?i + length t) (length P + length (f ?i)) s'
      (bump c P @ f ?i @ drop (length (f ?i)) R) (cnt + length (f ?i))"
    by (rule reads_valueD [OF assms(1), of "pre @ a" "b @ post" c P ?i R cnt])
      (use js d c R assms(3) sup_ok_last_open in \<open>auto simp: delim_blanks inside_def\<close>)
  have 3: "lp js (?i + length t) k s' T n = lp js (?i + length t + length b) k s' T n" for k T n
    using js assms(3) by (intro lp_blanks [of js "pre @ a @ t" b post]) auto
  show "\<exists>s'. item_end c s' (bump c P @ f ?i) \<and> lp js (length pre) (length P) c (P @ R) cnt =
      lp js (length pre + length (a @ t @ b)) (length P + length (f ?i)) s'
        (bump c P @ f ?i @ drop (length (f ?i)) R) (cnt + length (f ?i))"
    using 1 2 3 s' c by (intro exI [of _ s']) (auto simp: add.assoc item_end_def inside_def)
qed

lemma reads_member:
  assumes "str_ok k" and "reads_value js t f" and cl: "\<And>i. all_closed (f i)"
    and "blanks a" and "blanks b" and "blanks b'" and "blanks d"
  shows "reads_item js (a @ quote k @ b @ '':'' @ b' @ t @ d)
    (\<lambda>i. mk_tok JSMN_STRING (i + length a + 1) (i + length a + 1 + length k) 1 #
      f (i + length a + length k + length b + length b' + 3))"
  unfolding reads_item_def
proof (intro allI impI)
  fix pre post :: string and P R :: "jsmntok_t list" and c cnt
  let ?i = "length pre + length a"
  let ?j = "length pre + length a + length k + length b + length b' + 3"
  let ?k = "mk_tok JSMN_STRING (?i + 1) (?i + 1 + length k)"
  let ?P = "bump c P @ [?k 0]" and ?m = "length (f ?j)"
  assume js: "js = pre @ (a @ quote k @ b @ '':'' @ b' @ t @ d) @ post" and de: "delim post"
    and c: "inside c P" and R: "length (?k 1 # f ?j) \<le> length R"
  have sup: "sup_ok c P" using c sup_ok_last_open by (auto simp: inside_def)
  have "lp js (length pre) (length P) c (P @ R) cnt = lp js ?i (length P) c (P @ R) cnt"
    using js assms(4) by (intro lp_blanks [of js pre a "quote k @ b @ '':'' @ b' @ t @ d @ post"]) auto
  also have "\<dots> = lp js (?i + length k + 2) (length ?P) c (?P @ tl R) (cnt + 1)"
    using lp_string [of js "pre @ a" k "b @ '':'' @ b' @ t @ d @ post" ?i c P R cnt] js assms(1) sup R
    by (cases R) auto
  also have "\<dots> = lp js (?i + length k + 2 + length b) (length ?P) c (?P @ tl R) (cnt + 1)"
    using js assms(5) by (intro lp_blanks [of js "pre @ a @ quote k" b "'':'' @ b' @ t @ d @ post"]) (auto simp: quote_def)
  also have "\<dots> = lp js (Suc (?i + length k + 2 + length b)) (length ?P) (int (length P)) (?P @ tl R) (cnt + 1)"
    using lp_colon [of js "pre @ a @ quote k @ b" "b' @ t @ d @ post" "?i + length k + 2 + length b" "length ?P" c
        "?P @ tl R" "cnt + 1"] js by (simp add: quote_def)
  also have "\<dots> = lp js ?j (length ?P) (int (length P)) (?P @ tl R) (cnt + 1)"
    using js assms(6) lp_blanks [of js "pre @ a @ quote k @ b @ '':''" b' "t @ d @ post" "Suc (?i + length k + 2 + length b)"]
    by (simp add: quote_def eval_nat_numeral ac_simps)
  finally have 1: "lp js (length pre) (length P) c (P @ R) cnt =
      lp js ?j (length ?P) (int (length P)) (?P @ tl R) (cnt + 1)" .
  obtain s' where s': "s' = int (length P) \<or> s' = last_open ?P" and
    2: "lp js ?j (length ?P) (int (length P)) (?P @ tl R) (cnt + 1) =
      lp js (?j + length t) (length ?P + ?m) s' (bump (int (length P)) ?P @ f ?j @ drop ?m (tl R)) (cnt + 1 + ?m)"
    by (rule reads_valueD [OF assms(2), of "pre @ a @ quote k @ b @ '':'' @ b'" "d @ post" "int (length P)" ?P ?j "tl R" "cnt + 1"])
      (use js de R assms(7) in \<open>auto simp: delim_blanks quote_def sup_ok_def\<close>)
  have 3: "lp js (?j + length t) n s' T z = lp js (?j + length t + length d) n s' T z" for n T z
    using js assms(7) by (intro lp_blanks [of js "pre @ a @ quote k @ b @ '':'' @ b' @ t" d post]) (auto simp: quote_def)
  have b: "bump (int (length P)) ?P = bump c P @ [?k 1]"
    by (simp add: bump_def nth_append list_update_append mk_tok_def)
  have "last_open ?P = c" using c by (simp add: inside_def)
  then have "item_end c s' (bump c P @ ?k 1 # f ?j)"
    using s' by (auto simp: item_end_def nth_append tok_container_def mk_tok_def)
  then show "\<exists>s'. item_end c s' (bump c P @ ?k 1 # f ?j) \<and> lp js (length pre) (length P) c (P @ R) cnt =
      lp js (length pre + length (a @ quote k @ b @ '':'' @ b' @ t @ d)) (length P + length (?k 1 # f ?j)) s'
        (bump c P @ (?k 1 # f ?j) @ drop (length (?k 1 # f ?j)) R) (cnt + length (?k 1 # f ?j))"
    using 1 2 3 b by (intro exI [of _ s']) (simp add: drop_Suc quote_def eval_nat_numeral ac_simps)
qed

lemma json_reads:
  "json_text v t f \<Longrightarrow> reads_value js t f"
  "json_elems vs t f \<Longrightarrow> reads_items js t f (length vs)"
  "json_members ms t f \<Longrightarrow> reads_items js t f (length ms)"
proof (induction rule: json_induct)
  case (json_arr_empty b)
  then show ?case
    using reads_container [OF reads_blanks [of b js], of "CHR ''[''" JSMN_ARRAY "CHR '']''"]
    by (simp add: opens_def closes_def)
next
  case (json_arr vs t f)
  then show ?case
    using reads_container [of js t f "length vs" "CHR ''[''" JSMN_ARRAY "CHR '']''"]
    by (simp add: opens_def closes_def json_closed)
next
  case (json_obj_empty b)
  then show ?case
    using reads_container [OF reads_blanks [of b js], of "CHR ''{''" JSMN_OBJECT "CHR ''}''"]
    by (simp add: opens_def closes_def)
next
  case (json_obj ms t f)
  then show ?case
    using reads_container [of js t f "length ms" "CHR ''{''" JSMN_OBJECT "CHR ''}''"]
    by (simp add: opens_def closes_def json_closed)
next
  case (json_elem v t f a b)
  then show ?case using reads_one [OF reads_elem [of js t f a b]] by simp
next
  case (json_elem_more v t f a b vs u g)
  then show ?case
    using reads_more [OF reads_elem [of js t f a b], of u g "length vs"] by (simp add: json_closed ac_simps)
next
  case (json_member k v t f a b c d)
  then show ?case using reads_one [OF reads_member [of k js t f a b c d]] by (simp add: json_closed)
next
  case (json_member_more k v t f a b c d ms u g)
  then show ?case
    using reads_more [OF reads_member [of k js t f a b c d], of u g "length ms"]
    by (simp add: json_closed quote_def eval_nat_numeral ac_simps)
next
  case (json_str s)
  then show ?case by (rule reads_string)
qed (rule reads_prim)

lemma json_text_tokens:
  assumes "json_text v t f" and "blanks post" and "length (f 0) \<le> length mem"
  shows "\<exists>p. jsmn_parse jsmn_init (t @ post) (Some mem) =
    Inr (p, Some (f 0 @ drop (length (f 0)) mem), length (f 0))"
proof -
  let ?js = "t @ post" and ?n = "length (f 0)" and ?ts = "f 0 @ drop (length (f 0)) mem"
  have "delim post" using delim_blanks [OF assms(2), of "[]"] by (simp add: delim_def)
  then obtain s where 1: "lp ?js 0 (length []) (-1) ([] @ mem) 0 = lp ?js (0 + length t) (length [] + ?n) s
        (bump (-1) [] @ f 0 @ drop ?n mem) (0 + ?n)"
    using reads_valueD [OF json_reads(1) [OF assms(1)], of ?js "[]" post "-1" "[]" 0 mem 0] assms
    by (auto simp: sup_ok_def)
  have "lp ?js (length t) ?n s ?ts ?n = lp ?js (length t + length post) ?n s ?ts ?n"
    by (rule lp_blanks [of ?js t post "[]"]) (use assms(2) in simp_all)
  then obtain q where q: "jsmn_loop ?js jsmn_init (Some mem) 0 = Inr (q, Some ?ts, ?n)" "toknext q = ?n"
    using 1 by (simp add: jsmn_init_def bump_def
      jsmn_loop.simps [of ?js "\<lparr>pos = length t + length post, toknext = ?n, toksuper = s\<rparr>"])
  have "find_tok tok_open ?ts ?n = None"
    using json_closed(1) [OF assms(1), of 0] by (auto simp: find_tok_None nth_append all_closed_def)
  then show ?thesis using q by (auto simp: jsmn_parse_def)
qed

text \<open>C10: the tokenizer is correct on JSON: for every text that spells a value, with blanks wherever JSON allows
  them, and an array with room for the tokens of that text, \<open>jsmn_parse\<close> succeeds, fills the array with exactly those tokens
  (type, bounds and number of children of each, in the order of the text), leaves the rest of
  it, and returns their number.\<close>

theorem json_tokens:
  assumes "json_text v t f" and "blanks post" and "length (f 0) \<le> length mem"
  shows "\<exists>p. jsmn_parse jsmn_init (t @ post) (Some mem) =
    Inr (p, Some (f 0 @ drop (length (f 0)) mem), length (f 0))"
  using assms by (rule json_text_tokens)

lemma json_example:
  \<open>json_text (JObj [(''a'', JArr [JPrim ''1'', JStr ''x'']), (''b'', JObj [])]) ''{"a": [1,"x"] ,"b":{ }}''
    (\<lambda>i. [mk_tok JSMN_OBJECT i (i + 23) 2, mk_tok JSMN_STRING (i + 2) (i + 3) 1, mk_tok JSMN_ARRAY (i + 6) (i + 13) 2,
      mk_tok JSMN_PRIMITIVE (i + 7) (i + 8) 0, mk_tok JSMN_STRING (i + 10) (i + 11) 0,
      mk_tok JSMN_STRING (i + 16) (i + 17) 1, mk_tok JSMN_OBJECT (i + 19) (i + 22) 0])\<close>
proof -
  have one: "json_text (JPrim ''1'') ''1'' (\<lambda>i. [mk_tok JSMN_PRIMITIVE i (i + 1) 0])"
    using json_prim [of "''1''"] by (simp add: prim_ok_def prim_delim_def prim_bad_def)
  have x: "json_text (JStr ''x'') (quote ''x'') (\<lambda>i. [mk_tok JSMN_STRING (i + 1) (i + 2) 0])"
    using json_str [of "''x''"] by (simp)
  note arr = json_arr [OF json_elem_more [OF one _ _ json_elem [OF x]], of "[]" "[]" "[]" "[]"]
  note obj = json_obj_empty [of "'' ''"]
  note mem = json_member [of "''b''", OF _ obj, of "[]" "[]" "[]" "[]"]
  note all = json_obj [OF json_member_more [of "''a''", OF _ arr _ _ _ _ mem, of "[]" "[]" "'' ''" "'' ''"]]
  from all show ?thesis
    by (simp add: blank_def quote_def eval_nat_numeral)
qed

text \<open>A string with escapes is one token; its text is kept as it is.\<close>

lemma json_escapes_example:
  "json_text (JStr (''a'' @ [CHR 0x5C, CHR 0x22] @ ''b'' @ [CHR 0x5C] @ ''u00e9''))
    (quote (''a'' @ [CHR 0x5C, CHR 0x22] @ ''b'' @ [CHR 0x5C] @ ''u00e9'')) (\<lambda>i. [mk_tok JSMN_STRING (i + 1) (i + 11) 0])"
  using json_str [of "''a'' @ [CHR 0x5C, CHR 0x22] @ ''b'' @ [CHR 0x5C] @ ''u00e9''"]
  by (simp add: esc_simple_def is_hex_def eval_nat_numeral)

theorem json_tokens_witness:
  \<open>\<exists>p ts. jsmn_parse jsmn_init ''{"a": [1,"x"] ,"b":{ }}'' (Some (replicate 8 blank_tok)) = Inr (p, Some ts, 7) \<and>
    tok_size (ts ! 0) = 2 \<and> ts ! 4 = mk_tok JSMN_STRING 10 11 0 \<and> ts ! 7 = blank_tok\<close>
  using json_tokens [OF json_example, of "[]" "replicate 8 blank_tok"] by (auto simp: mk_tok_def)

section \<open>A canonical text\<close>

fun commas :: "string list \<Rightarrow> string" where
  "commas [] = []"
| "commas [x] = x"
| "commas (x # xs) = x @ '','' @ commas xs"

fun render :: "json \<Rightarrow> string" where
  "render (JPrim w) = w"
| "render (JStr s) = quote s"
| "render (JArr vs) = ''['' @ commas (map render vs) @ '']''"
| "render (JObj ms) = ''{'' @ commas (map (\<lambda>m. quote (fst m) @ '':'' @ render (snd m)) ms) @ ''}''"

fun json_ok :: "json \<Rightarrow> bool" where
  "json_ok (JPrim w) = prim_ok w"
| "json_ok (JStr s) = str_ok s"
| "json_ok (JArr vs) = list_all json_ok vs"
| "json_ok (JObj ms) = list_all (\<lambda>m. str_ok (fst m) \<and> json_ok (snd m)) ms"

fun json_size :: "json \<Rightarrow> nat" where
  \<comment> \<open>the number of tokens\<close>
  "json_size (JPrim w) = 1"
| "json_size (JStr s) = 1"
| "json_size (JArr vs) = 1 + sum_list (map json_size vs)"
| "json_size (JObj ms) = 1 + sum_list (map (\<lambda>m. 1 + json_size (snd m)) ms)"

lemma json_elems_commas:
  assumes "vs \<noteq> []" and "\<forall>v \<in> set vs. \<exists>f. json_text v (g v) f \<and> (\<forall>i. length (f i) = n v)"
  shows "\<exists>f. json_elems vs (commas (map g vs)) f \<and> (\<forall>i. length (f i) = sum_list (map n vs))"
  using assms
proof (induction vs rule: induct_list012)
  case (2 v)
  then obtain f where f: "json_text v (g v) f" "\<forall>i. length (f i) = n v" by auto
  from json_elem [OF f(1), of "[]" "[]"] f(2) show ?case by fastforce
next
  case (3 v w vs)
  then obtain f where f: "json_text v (g v) f" "\<forall>i. length (f i) = n v" by auto
  from 3 obtain h where h: "json_elems (w # vs) (commas (map g (w # vs))) h"
      "\<forall>i. length (h i) = sum_list (map n (w # vs))" by auto
  from json_elem_more [OF f(1) _ _ h(1), of "[]" "[]"] f(2) h(2) show ?case by fastforce
qed simp

lemma json_members_commas:
  assumes "ms \<noteq> []" and "\<forall>m \<in> set ms. str_ok (fst m) \<and>
    (\<exists>f. json_text (snd m) (g (snd m)) f \<and> (\<forall>i. length (f i) = n (snd m)))"
  shows "\<exists>f. json_members ms (commas (map (\<lambda>m. quote (fst m) @ '':'' @ g (snd m)) ms)) f \<and>
    (\<forall>i. length (f i) = sum_list (map (\<lambda>m. 1 + n (snd m)) ms))"
  using assms
proof (induction ms rule: induct_list012)
  case (2 m)
  then obtain f where f: "json_text (snd m) (g (snd m)) f" "\<forall>i. length (f i) = n (snd m)" by auto
  from json_member [of "fst m" "snd m", OF _ f(1), of "[]" "[]" "[]" "[]"] 2 f(2) show ?case by fastforce
next
  case (3 m m' ms)
  then obtain f where f: "json_text (snd m) (g (snd m)) f" "\<forall>i. length (f i) = n (snd m)" by auto
  from 3 obtain h where h: "json_members (m' # ms) (commas (map (\<lambda>m. quote (fst m) @ '':'' @ g (snd m)) (m' # ms))) h"
      "\<forall>i. length (h i) = sum_list (map (\<lambda>m. 1 + n (snd m)) (m' # ms))" by auto
  have k: "str_ok (fst m)" using 3 by auto
  show ?case
    using json_member_more [of "fst m" "snd m", OF k f(1) _ _ _ _ h(1), of "[]" "[]" "[]" "[]"] f(2) h(2)
    by (intro exI conjI) auto
qed simp

lemma json_text_render:
  "json_ok v \<Longrightarrow> \<exists>f. json_text v (render v) f \<and> (\<forall>i. length (f i) = json_size v)"
proof (induction v rule: render.induct)
  case (1 w)
  then show ?case using json_prim [of w] by fastforce
next
  case (2 s)
  then show ?case using json_str [of s] by fastforce
next
  case (3 vs)
  show ?case
  proof (cases "vs = []")
    case True
    then show ?thesis using json_arr_empty [of "[]"] by fastforce
  next
    case False
    have "\<forall>v \<in> set vs. \<exists>f. json_text v (render v) f \<and> (\<forall>i. length (f i) = json_size v)"
      using 3 by (auto simp: list_all_iff)
    from json_elems_commas [OF False this] obtain f where
      f: "json_elems vs (commas (map render vs)) f" "\<forall>i. length (f i) = sum_list (map json_size vs)" by blast
    from json_arr [OF f(1)] f(2) show ?thesis by fastforce
  qed
next
  case (4 ms)
  show ?case
  proof (cases "ms = []")
    case True
    then show ?thesis using json_obj_empty [of "[]"] by fastforce
  next
    case False
    have "\<forall>m \<in> set ms. str_ok (fst m) \<and>
        (\<exists>f. json_text (snd m) (render (snd m)) f \<and> (\<forall>i. length (f i) = json_size (snd m)))"
      using 4 by (auto simp: list_all_iff)
    from json_members_commas [OF False this] obtain f where
      f: "json_members ms (commas (map (\<lambda>m. quote (fst m) @ '':'' @ render (snd m)) ms)) f"
        "\<forall>i. length (f i) = sum_list (map (\<lambda>m. 1 + json_size (snd m)) ms)" by blast
    from json_obj [OF f(1)] f(2) show ?thesis by fastforce
  qed
qed

end
