(* ===== verification/Sampler_Request.thy ===== *)
theory Sampler_Request
  imports Jsmn
begin

unbundle bit_operations_syntax

text \<open>
  The request parser of \<^verbatim>\<open>src/sampler.c\<close>: \<open>parse_stats_string\<close>, \<open>is_token\<close>, \<open>has_next\<close>
  and \<open>sampler_parse_request\<close>, on the tokens of \<^verbatim>\<open>jsmn_parse\<close>. The constants of libvirt are the
  fields of a record and \<open>uuid_parse\<close> of libuuid is a function, both parameters: what
  \<open>uuid_parse\<close> leaves in its argument is a function of the string and of what was there
  (its result is ignored by the code). \<open>None\<close> is undefined behaviour: a token read outside the \<open>r\<close> tokens that were
  filled, or the read of \<open>tokens[-1]\<close> in the tokenizer. Log messages are not modelled.
\<close>

section \<open>Data\<close>

record libvirt_consts =
  VIR_UUID_STRING_BUFLEN :: nat
  VIR_DOMAIN_STATS_STATE :: guint
  VIR_DOMAIN_STATS_CPU_TOTAL :: guint
  VIR_DOMAIN_STATS_BALLOON :: guint
  VIR_DOMAIN_STATS_VCPU :: guint
  VIR_DOMAIN_STATS_INTERFACE :: guint
  VIR_DOMAIN_STATS_BLOCK :: guint

record SampleRequest =
  sr_uuid :: "byte list"
  sr_stats :: guint

abbreviation UUID_LEN :: nat where "UUID_LEN \<equiv> 16"
abbreviation UUID_STRING_LEN :: nat where "UUID_STRING_LEN \<equiv> 36 + 1"
abbreviation JSON_REQUEST_MAX_TOKENS :: nat where "JSON_REQUEST_MAX_TOKENS \<equiv> 32"

definition sr_clear :: SampleRequest where
  \<comment> \<open>\<open>memset (sr, 0, sizeof (*sr))\<close> and \<open>uuid_clear (sr->uuid)\<close>\<close>
  "sr_clear = \<lparr>sr_uuid = replicate UUID_LEN 0, sr_stats = 0\<rparr>"

section \<open>Operations\<close>

definition parse_stats_string ::
    "libvirt_consts \<Rightarrow> SampleRequest \<Rightarrow> string \<Rightarrow> nat \<Rightarrow> int \<times> SampleRequest" where
  "parse_stats_string lv sr name len =
     (let (err, stat) =
        (if strncmp_eq name ''state'' len then (0, VIR_DOMAIN_STATS_STATE lv)
         else if strncmp_eq name ''cpu-total'' len then (0, VIR_DOMAIN_STATS_CPU_TOTAL lv)
         else if strncmp_eq name ''balloon'' len then (0, VIR_DOMAIN_STATS_BALLOON lv)
         else if strncmp_eq name ''vcpu'' len then (0, VIR_DOMAIN_STATS_VCPU lv)
         else if strncmp_eq name ''interface'' len then (0, VIR_DOMAIN_STATS_INTERFACE lv)
         else if strncmp_eq name ''block'' len then (0, VIR_DOMAIN_STATS_BLOCK lv)
         else (-1, 0))
      in (err, sr\<lparr>sr_stats := sr_stats sr OR stat\<rparr>))"

definition is_token :: "string \<Rightarrow> jsmntok_t \<Rightarrow> string \<Rightarrow> bool" where
  "is_token json tok s \<longleftrightarrow> tok_type tok = JSMN_STRING \<and>
     strncmp_eq (drop (nat (tok_start tok)) json) s (nat (tok_end tok - tok_start tok))"

definition has_next :: "nat \<Rightarrow> nat \<Rightarrow> bool" where
  "has_next i r \<longleftrightarrow> i + 1 < r"

definition tok_at :: "jsmntok_t list \<Rightarrow> nat \<Rightarrow> nat \<Rightarrow> jsmntok_t option" where
  \<comment> \<open>\<open>tokens[i]\<close>, of which \<open>r\<close> are filled\<close>
  "tok_at ts r i = (if i < r \<and> i < length ts then Some (ts ! i) else None)"

definition tok_len :: "jsmntok_t \<Rightarrow> nat" where
  "tok_len tok = nat (tok_end tok - tok_start tok)"

fun parse_stat_items ::
    "libvirt_consts \<Rightarrow> string \<Rightarrow> jsmntok_t list \<Rightarrow> nat \<Rightarrow> SampleRequest \<Rightarrow> nat \<Rightarrow> nat \<Rightarrow>
     (int \<times> SampleRequest) option" where
  \<comment> \<open>the loop over the items of \<open>get-stats\<close>: \<open>k\<close> items from the token \<open>b\<close> on\<close>
  "parse_stat_items lv text ts r sr b 0 = Some (0, sr)"
| "parse_stat_items lv text ts r sr b (Suc k) =
     (case tok_at ts r b of
        None \<Rightarrow> None
      | Some stat \<Rightarrow>
          if tok_type stat \<noteq> JSMN_STRING then Some (-1, sr)
          else (case parse_stats_string lv sr (drop (nat (tok_start stat)) text) (tok_len stat) of
                  (err, sr) \<Rightarrow> if err < 0 then Some (-1, sr)
                               else parse_stat_items lv text ts r sr (b + 1) k))"

definition req_id_string :: "string \<Rightarrow> jsmntok_t \<Rightarrow> string" where
  \<comment> \<open>the C string in \<open>uuidbuf\<close>, after \<open>strncpy\<close> and the terminator\<close>
  "req_id_string text tok = takeWhile (\<lambda>c. c \<noteq> NUL)
     (take (UUID_STRING_LEN - 1)
       (take (min (tok_len tok) UUID_STRING_LEN) (drop (nat (tok_start tok)) text)))"

definition request_item ::
    "libvirt_consts \<Rightarrow> (string \<Rightarrow> byte list \<Rightarrow> byte list) \<Rightarrow> string \<Rightarrow> jsmntok_t list \<Rightarrow> nat \<Rightarrow>
     SampleRequest \<Rightarrow> nat \<Rightarrow> (SampleRequest + nat \<times> SampleRequest) option" where
  \<comment> \<open>the body of the loop at \<open>i\<close>: \<open>Inl\<close> is \<open>return -1\<close>, \<open>Inr\<close> the next \<open>i\<close>, after \<open>i++\<close>\<close>
  "request_item lv uuid_parse text ts r sr i =
     (case tok_at ts r i of None \<Rightarrow> None | Some tok \<Rightarrow>
       if is_token text tok ''req-id'' \<and> has_next i r then
         (case tok_at ts r (i + 1) of None \<Rightarrow> None | Some val \<Rightarrow>
            if tok_type val \<noteq> JSMN_STRING then Some (Inl sr)
            else if tok_len val > VIR_UUID_STRING_BUFLEN lv then Some (Inl sr)
            else Some (Inr (i + 2,
                   sr\<lparr>sr_uuid := uuid_parse (req_id_string text val) (sr_uuid sr)\<rparr>)))
       else if is_token text tok ''get-stats'' \<and> has_next i r then
         (case tok_at ts r (i + 1) of None \<Rightarrow> None | Some val \<Rightarrow>
            if tok_type val \<noteq> JSMN_ARRAY then Some (Inl sr)
            else (case parse_stat_items lv text ts r sr (i + 2) (tok_size val) of
                    None \<Rightarrow> None
                  | Some (err, sr) \<Rightarrow>
                      if err < 0 then Some (Inl sr) else Some (Inr (i + tok_size val + 2, sr))))
       else Some (Inr (i + 1, sr)))"

lemma request_item_progress:
  "request_item lv up text ts r sr i = Some (Inr (j, sr')) \<Longrightarrow> i < j"
  by (auto simp: request_item_def split: option.splits if_splits prod.splits)

function request_loop ::
    "libvirt_consts \<Rightarrow> (string \<Rightarrow> byte list \<Rightarrow> byte list) \<Rightarrow> string \<Rightarrow> jsmntok_t list \<Rightarrow> nat \<Rightarrow>
     SampleRequest \<Rightarrow> nat \<Rightarrow> (int \<times> SampleRequest) option" where
  "request_loop lv up text ts r sr i =
     (if i < r
      then (case request_item lv up text ts r sr i of
              None \<Rightarrow> None
            | Some (Inl sr) \<Rightarrow> Some (-1, sr)
            | Some (Inr (j, sr)) \<Rightarrow> request_loop lv up text ts r sr j)
      else Some (0, sr))"
  by pat_completeness auto
termination
  by (relation "measure (\<lambda>(_, _, _, _, r, _, i). r - i)") (auto dest: request_item_progress)

declare request_loop.simps [simp del]

definition sampler_parse_request ::
    "libvirt_consts \<Rightarrow> (string \<Rightarrow> byte list \<Rightarrow> byte list) \<Rightarrow> jsmntok_t list \<Rightarrow> string \<Rightarrow> nat \<Rightarrow>
     (int \<times> SampleRequest) option" where
  \<comment> \<open>\<open>mem\<close>: what the local array \<open>tokens\<close> holds on entry; \<open>size\<close> is the length of the text
    to read, at most that of \<open>text\<close>\<close>
  "sampler_parse_request lv up mem text sz =
     (case jsmn_parse jsmn_init (take sz text) (Some mem) of
        Inl (OOB, _) \<Rightarrow> None
      | Inl (_, _) \<Rightarrow> Some (-1, sr_clear)
      | Inr (_, tokens, r) \<Rightarrow>
          (case tokens of None \<Rightarrow> Some (-1, sr_clear)
           | Some ts \<Rightarrow>
               if r < 1 \<or> tok_type (ts ! 0) \<noteq> JSMN_OBJECT then Some (-1, sr_clear)
               else request_loop lv up text ts r sr_clear 1))"

lemma all_less_two: "(\<forall>k < Suc (Suc 0). P k) \<longleftrightarrow> P 0 \<and> P (Suc 0)"
  by (auto simp: less_Suc_eq)

section \<open>Memory safety\<close>

lemma parse_stat_items_Some:
  "b + k \<le> r \<Longrightarrow> r \<le> length ts \<Longrightarrow> parse_stat_items lv js ts r sr b k \<noteq> None"
  by (induction lv js ts r sr b k rule: parse_stat_items.induct)
    (auto simp: tok_at_def split: prod.splits)

lemma request_item_Some:
  assumes "\<forall>k < r. k + tok_size (ts ! k) < r" and "r \<le> length ts" and "i < r"
  shows "request_item lv up js ts r sr i \<noteq> None"
proof -
  have "parse_stat_items lv js ts r sr (i + 2) (tok_size (ts ! (i + 1))) \<noteq> None" if "i + 1 < r"
    using assms that by (intro parse_stat_items_Some) auto
  then show ?thesis
    using assms by (auto simp: request_item_def tok_at_def has_next_def split: option.splits prod.splits)
qed

lemma request_loop_Some:
  assumes "\<forall>k < r. k + tok_size (ts ! k) < r" and "r \<le> length ts"
  shows "request_loop lv up js ts r sr i \<noteq> None"
  using assms
proof (induction lv up js ts r sr i rule: request_loop.induct)
  case (1 lv up js ts r sr i)
  then show ?case
    using request_item_Some [of r ts i lv up js sr]
    by (auto simp: request_loop.simps [of lv up js ts r sr i] split: option.splits sum.splits)
qed

text \<open>\<open>sampler_parse_request\<close> never reads outside the tokens the tokenizer filled: whatever the
  bytes of the request, the array on entry and \<open>uuid_parse\<close>, its behaviour is
  undefined only where the tokenizer itself reads \<open>tokens[-1]\<close> (a comma before any value).\<close>

lemma parse_request_safe:
  "sampler_parse_request lv up mem text sz = None \<longleftrightarrow>
   (\<exists>q. jsmn_parse jsmn_init (take sz text) (Some mem) = Inl (OOB, q))"
proof (cases "jsmn_parse jsmn_init (take sz text) (Some mem)")
  case (Inl x)
  then show ?thesis
    by (cases x) (auto simp: sampler_parse_request_def split: jsmnerr_t.splits)
next
  case (Inr x)
  obtain p tokens r where x: "x = (p, tokens, r)" by (cases x)
  with Inr have "\<exists>ts. tokens = Some ts \<and> length ts = length mem \<and> r \<le> length mem \<and>
      (\<forall>i < r. i + tok_size (ts ! i) < r)"
    using jsmn_parse_wf by blast
  then show ?thesis
    using Inr x request_loop_Some by (auto simp: sampler_parse_request_def)
qed

section \<open>What a request asks for\<close>

definition stat_names :: "libvirt_consts \<Rightarrow> (string \<times> guint) list" where
  "stat_names lv =
     [(''state'', VIR_DOMAIN_STATS_STATE lv), (''cpu-total'', VIR_DOMAIN_STATS_CPU_TOTAL lv),
      (''balloon'', VIR_DOMAIN_STATS_BALLOON lv), (''vcpu'', VIR_DOMAIN_STATS_VCPU lv),
      (''interface'', VIR_DOMAIN_STATS_INTERFACE lv), (''block'', VIR_DOMAIN_STATS_BLOCK lv)]"

lemma strncmp_eq_prefix: "n \<le> length s1 \<Longrightarrow> strncmp_eq s1 s2 n \<longleftrightarrow> prefix (take n s1) s2"
  unfolding strncmp_eq_def prefix_def
  by (metis append_take_drop_id append_eq_conv_conj length_take min_absorb2)

lemma parse_stats_string_find:
  assumes "n \<le> length s"
  shows "parse_stats_string lv sr s n =
    (case find (\<lambda>(name, _). prefix (take n s) name) (stat_names lv) of
       None \<Rightarrow> (-1, sr)
     | Some (_, flag) \<Rightarrow> (0, sr\<lparr>sr_stats := sr_stats sr OR flag\<rparr>))"
  by (simp add: parse_stats_string_def stat_names_def strncmp_eq_prefix [OF assms])

text \<open>\<open>parse_stats_string\<close> compares only as many characters as the filter has: it accepts exactly the prefixes of the
  six names, the empty string included, and adds the flag of the first name with that prefix, in the
  order of the comparisons; anything else is an error and leaves the mask as it is. So an empty
  name asks for \<^verbatim>\<open>state\<close>, and \<^verbatim>\<open>b\<close> for \<^verbatim>\<open>balloon\<close>.\<close>

lemma parse_stats_string_prefix:
  assumes "n \<le> length s"
  shows "parse_stats_string lv sr s n =
      (case find (\<lambda>(name, _). prefix (take n s) name) (stat_names lv) of
         None \<Rightarrow> (-1, sr)
       | Some (_, flag) \<Rightarrow> (0, sr\<lparr>sr_stats := sr_stats sr OR flag\<rparr>)) \<and>
    parse_stats_string lv sr s 0 =
      (0, sr\<lparr>sr_stats := sr_stats sr OR VIR_DOMAIN_STATS_STATE lv\<rparr>)"
  using parse_stats_string_find [OF assms] parse_stats_string_find [of 0 s lv sr]
  by (simp add: stat_names_def)

lemma parse_stats_string_prefix_example:
  "\<forall>lv sr. parse_stats_string lv sr ''b'' 1 =
     (0, sr\<lparr>sr_stats := sr_stats sr OR VIR_DOMAIN_STATS_BALLOON lv\<rparr>)"
proof (intro allI)
  fix lv sr
  show "parse_stats_string lv sr ''b'' 1 = (0, sr\<lparr>sr_stats := sr_stats sr OR VIR_DOMAIN_STATS_BALLOON lv\<rparr>)"
    using parse_stats_string_prefix [of 1 "''b''" lv sr] by (simp add: stat_names_def)
qed

definition flag_mask :: "libvirt_consts \<Rightarrow> guint \<Rightarrow> guint \<Rightarrow> bool" where
  \<comment> \<open>\<open>m'\<close> is \<open>m\<close> with some of the six flags added\<close>
  "flag_mask lv m m' \<longleftrightarrow> (\<exists>fs. set fs \<subseteq> snd ` set (stat_names lv) \<and> m' = foldl (OR) m fs)"

lemma flag_mask_refl [simp]: "flag_mask lv m m"
  unfolding flag_mask_def by (rule exI [of _ "[]"]) simp

lemma flag_mask_trans: "flag_mask lv a b \<Longrightarrow> flag_mask lv b c \<Longrightarrow> flag_mask lv a c"
  unfolding flag_mask_def by (metis foldl_append le_sup_iff set_append)

lemma flag_mask_one: "fl \<in> snd ` set (stat_names lv) \<Longrightarrow> flag_mask lv m (m OR fl)"
  unfolding flag_mask_def by (rule exI [of _ "[fl]"]) auto

lemma parse_stats_string_cases:
  "parse_stats_string lv sr s n = (-1, sr) \<or>
   (\<exists>flag \<in> snd ` set (stat_names lv). parse_stats_string lv sr s n = (0, sr\<lparr>sr_stats := sr_stats sr OR flag\<rparr>))"
  by (simp add: parse_stats_string_def stat_names_def)

lemma parse_stats_string_mask:
  obtains (err) "parse_stats_string lv sr s n = (-1, sr)"
  | (ok) m where "parse_stats_string lv sr s n = (0, sr\<lparr>sr_stats := m\<rparr>)" "flag_mask lv (sr_stats sr) m"
  using parse_stats_string_cases [of lv sr s n] flag_mask_one by metis

lemma parse_stat_items_mask:
  "parse_stat_items lv js ts r sr b k = Some (e, sr') \<Longrightarrow>
   (e = 0 \<or> e = -1) \<and> flag_mask lv (sr_stats sr) (sr_stats sr') \<and> sr_uuid sr' = sr_uuid sr"
proof (induction lv js ts r sr b k rule: parse_stat_items.induct)
  case (2 lv js ts r sr b k)
  then obtain stat where st: "tok_at ts r b = Some stat" by (auto split: option.splits)
  show ?case
  proof (cases rule: parse_stats_string_mask [of lv sr "drop (nat (tok_start stat)) js" "tok_len stat"])
    case err
    then show ?thesis using 2(2) st by (auto split: if_splits)
  next
    case (ok m)
    show ?thesis
    proof (cases "tok_type stat = JSMN_STRING")
      case True
      then show ?thesis
        using 2(1) [OF st, of 0 "sr\<lparr>sr_stats := m\<rparr>"] 2(2) st ok flag_mask_trans [OF ok(2)] by auto
    qed (use 2(2) st in auto)
  qed
qed auto

lemma request_item_mask:
  assumes "request_item lv up js ts r sr i = Some x"
  shows "case x of Inl sr' \<Rightarrow> flag_mask lv (sr_stats sr) (sr_stats sr')
    | Inr (j, sr') \<Rightarrow> flag_mask lv (sr_stats sr) (sr_stats sr')"
  using assms
  by (auto simp: request_item_def split: option.splits if_splits prod.splits
      dest!: parse_stat_items_mask)

lemma request_loop_mask:
  "request_loop lv up js ts r sr i = Some (e, sr') \<Longrightarrow>
   (e = 0 \<or> e = -1) \<and> flag_mask lv (sr_stats sr) (sr_stats sr')"
proof (induction lv up js ts r sr i rule: request_loop.induct)
  case (1 lv up js ts r sr i)
  show ?case
  proof (cases "i < r")
    case True
    then obtain x where x: "request_item lv up js ts r sr i = Some x"
      using 1(2) by (auto simp: request_loop.simps [of lv up js ts r sr i] split: option.splits)
    show ?thesis
      using 1 True x request_item_mask [OF x] flag_mask_trans
      by (auto simp: request_loop.simps [of lv up js ts r sr i] split: sum.splits prod.splits)
  next
    case False
    then show ?thesis using 1(2) by (simp add: request_loop.simps)
  qed
qed

text \<open>Whatever the request, \<open>sampler_parse_request\<close> returns 0 or -1 and a mask that is an OR of
  the six \<^verbatim>\<open>VIR_DOMAIN_STATS\<close> flags: no other bit of it is ever set.\<close>

lemma parse_request_mask:
  assumes "sampler_parse_request lv up mem text sz = Some (e, sr)"
  shows "(e = 0 \<or> e = -1) \<and>
    (\<exists>flags. set flags \<subseteq> snd ` set (stat_names lv) \<and> sr_stats sr = foldl (OR) 0 flags)"
proof -
  have "(e = 0 \<or> e = -1) \<and> flag_mask lv (sr_stats sr_clear) (sr_stats sr)"
    using assms
    by (auto simp: sampler_parse_request_def split: sum.splits prod.splits jsmnerr_t.splits
        option.splits if_splits dest: request_loop_mask)
  then show ?thesis by (simp add: flag_mask_def sr_clear_def)
qed

section \<open>Examples\<close>

definition lv0 :: libvirt_consts where
  "lv0 = \<lparr>VIR_UUID_STRING_BUFLEN = 37, VIR_DOMAIN_STATS_STATE = 1, VIR_DOMAIN_STATS_CPU_TOTAL = 2,
     VIR_DOMAIN_STATS_BALLOON = 4, VIR_DOMAIN_STATS_VCPU = 8, VIR_DOMAIN_STATS_INTERFACE = 16,
     VIR_DOMAIN_STATS_BLOCK = 32\<rparr>"

definition mem0 :: "jsmntok_t list" where
  "mem0 = replicate JSON_REQUEST_MAX_TOKENS blank_tok"

definition keep_uuid :: "string \<Rightarrow> byte list \<Rightarrow> byte list" where
  "keep_uuid s u = u"

definition req_stats_foobar :: string where
  \<comment> \<open>the request of \<open>test_bad_stats_array_invalid_string\<close>\<close>
  \<open>req_stats_foobar = ''{ "stats": ["foobar"] }''\<close>

definition req_get_stats :: string where
  \<open>req_get_stats = ''{"get-stats": ["block", "vcpu"]}''\<close>

lemmas request_eval = sampler_parse_request_def request_loop.simps request_item_def tok_at_def
  is_token_def has_next_def strncmp_eq_def parse_stats_string_def tok_len_def sr_clear_def
  lv0_def mem0_def jsmn_eval

lemma req_get_stats_parse:
  "sampler_parse_request lv0 keep_uuid mem0 req_get_stats (length req_get_stats) =
     Some (0, sr_clear\<lparr>sr_stats := 40\<rparr>)"
  by code_simp

lemma parse_request_mask_example:
  "\<exists>flags. set flags \<subseteq> {1, 2, 4, 8, 16, 32 :: guint} \<and> (40 :: guint) = foldl (OR) 0 flags"
  using parse_request_mask [OF req_get_stats_parse] by (simp add: stat_names_def lv0_def sr_clear_def)

text \<open>The item that follows a \<^verbatim>\<open>req-id\<close> key must be a string of at most
  \<^verbatim>\<open>VIR_UUID_STRING_BUFLEN\<close> characters. Then \<open>uuid_parse\<close> gets its first 36 characters: one of 36, the
  length of a UUID, whole; one of 37, which the check lets pass, without its last
  character. Nothing but the identifier changes.\<close>

lemma req_id_item:
  assumes key: "is_token text (ts ! i) ''req-id''" and i: "i + 1 < r" and r: "r \<le> length ts"
    and val: "tok_type (ts ! (i + 1)) = JSMN_STRING" "tok_start (ts ! (i + 1)) = int s"
      "tok_end (ts ! (i + 1)) = int (s + length w)"
    and slice: "take (length w) (drop s text) = w" "NUL \<notin> set w"
  shows "request_item lv up text ts r sr i =
    Some (if length w > VIR_UUID_STRING_BUFLEN lv then Inl sr
          else Inr (i + 2, sr\<lparr>sr_uuid := up (take 36 w) (sr_uuid sr)\<rparr>))"
proof -
  have "take 36 (take (min (length w) 37) (drop s text)) = take 36 w"
    using arg_cong [OF slice(1), of "take 36"] by (simp add: min.commute min.left_commute)
  moreover have "takeWhile (\<lambda>c. c \<noteq> NUL) (take 36 w) = take 36 w"
    using slice(2) by (intro takeWhile_eq_all_conv [THEN iffD2]) (auto dest: in_set_takeD)
  ultimately have "req_id_string text (ts ! (i + 1)) = take 36 w"
    using val by (simp add: req_id_string_def tok_len_def)
  then show ?thesis
    using key i r val by (simp add: request_item_def tok_at_def has_next_def tok_len_def)
qed

definition ex_req :: string where \<open>ex_req = ''{"req-id":"7"}''\<close>

definition ex_req_toks :: "jsmntok_t list" where
  "ex_req_toks =
     [\<lparr>tok_type = JSMN_OBJECT, tok_start = 0, tok_end = 14, tok_size = 1\<rparr>,
      \<lparr>tok_type = JSMN_STRING, tok_start = 2, tok_end = 8, tok_size = 1\<rparr>,
      \<lparr>tok_type = JSMN_STRING, tok_start = 11, tok_end = 12, tok_size = 0\<rparr>]"

lemma req_id_item_example:
  "request_item lv0 (\<lambda>s _. map of_char s) ex_req ex_req_toks 3 sr_clear 1 =
     Some (Inr (3, sr_clear\<lparr>sr_uuid := [55]\<rparr>))"
  using req_id_item [of ex_req ex_req_toks 1 3 11 "''7''" lv0 "\<lambda>s _. map of_char s" sr_clear]
  by (simp add: ex_req_def ex_req_toks_def is_token_def strncmp_eq_def lv0_def)

lemma parse_stats_string_name:
  assumes "map_of (stat_names lv) n \<noteq> None" and "take (length n) s = n"
  shows "parse_stats_string lv sr s (length n) =
    (0, sr\<lparr>sr_stats := sr_stats sr OR the (map_of (stat_names lv) n)\<rparr>)"
proof -
  have "n \<in> {''state'', ''cpu-total'', ''balloon'', ''vcpu'', ''interface'', ''block''}"
    using assms(1) by (simp add: stat_names_def split: if_splits)
  then show ?thesis
    using assms(2) by (elim insertE) (simp_all add: parse_stats_string_def strncmp_eq_def stat_names_def)
qed

text \<open>An item list of exact names adds the flags of those names, in order, and consumes the whole list.\<close>

lemma stat_items_flags:
  assumes "b + length names \<le> r" and "r \<le> length ts"
    and "\<forall>k < length names. tok_type (ts ! (b + k)) = JSMN_STRING \<and>
      take (tok_len (ts ! (b + k))) (drop (nat (tok_start (ts ! (b + k)))) text) = names ! k \<and>
      tok_len (ts ! (b + k)) = length (names ! k)"
    and "\<forall>n \<in> set names. map_of (stat_names lv) n \<noteq> None"
  shows "parse_stat_items lv text ts r sr b (length names) =
    Some (0, sr\<lparr>sr_stats := foldl (OR) (sr_stats sr) (map (the \<circ> map_of (stat_names lv)) names)\<rparr>)"
  using assms
proof (induction names arbitrary: b sr)
  case Nil
  then show ?case by simp
next
  case (Cons n names)
  let ?t = "ts ! b" and ?m = "sr_stats sr OR the (map_of (stat_names lv) n)"
  have t: "tok_type ?t = JSMN_STRING" "take (tok_len ?t) (drop (nat (tok_start ?t)) text) = n"
      "tok_len ?t = length n"
    using Cons.prems(3) by (auto dest: spec [of _ 0])
  have at: "tok_at ts r b = Some ?t" using Cons.prems(1,2) by (simp add: tok_at_def)
  have p: "parse_stats_string lv sr (drop (nat (tok_start ?t)) text) (tok_len ?t) =
      (0, sr\<lparr>sr_stats := ?m\<rparr>)"
    using parse_stats_string_name [of lv n] Cons.prems(4) t by simp
  have tail: "\<forall>k < length names. tok_type (ts ! (Suc b + k)) = JSMN_STRING \<and>
      take (tok_len (ts ! (Suc b + k))) (drop (nat (tok_start (ts ! (Suc b + k)))) text) = names ! k \<and>
      tok_len (ts ! (Suc b + k)) = length (names ! k)"
    using Cons.prems(3) by fastforce
  have ih: "parse_stat_items lv text ts r (sr\<lparr>sr_stats := ?m\<rparr>) (Suc b) (length names) =
    Some (0, (sr\<lparr>sr_stats := ?m\<rparr>)\<lparr>sr_stats := foldl (OR) ?m (map (the \<circ> map_of (stat_names lv)) names)\<rparr>)"
    by (subst Cons.IH [OF _ _ tail]) (use Cons.prems(1,2,4) in auto)
  show ?case using at p t ih by (simp add: comp_def)
qed

definition ex_stat_text :: string where "ex_stat_text = ''vcpu,block''"

definition ex_stat_toks :: "jsmntok_t list" where
  "ex_stat_toks =
     [\<lparr>tok_type = JSMN_STRING, tok_start = 0, tok_end = 4, tok_size = 0\<rparr>,
      \<lparr>tok_type = JSMN_STRING, tok_start = 5, tok_end = 10, tok_size = 0\<rparr>]"

lemma stat_items_flags_example:
  "parse_stat_items lv0 ex_stat_text ex_stat_toks 2 sr_clear 0
     (length [''vcpu'', ''block'']) = Some (0, sr_clear\<lparr>sr_stats := 40\<rparr>)"
proof -
  have 1: "\<forall>k < length [''vcpu'', ''block'']. tok_type (ex_stat_toks ! (0 + k)) = JSMN_STRING \<and>
      take (tok_len (ex_stat_toks ! (0 + k))) (drop (nat (tok_start (ex_stat_toks ! (0 + k)))) ex_stat_text) =
        [''vcpu'', ''block''] ! k \<and>
      tok_len (ex_stat_toks ! (0 + k)) = length ([''vcpu'', ''block''] ! k)"
    by (simp add: ex_stat_toks_def ex_stat_text_def tok_len_def all_less_two)
  have 2: "\<forall>n \<in> set [''vcpu'', ''block'']. map_of (stat_names lv0) n \<noteq> None"
    by (simp add: stat_names_def)
  have "parse_stat_items lv0 ex_stat_text ex_stat_toks 2 sr_clear 0 (length [''vcpu'', ''block'']) =
    Some (0, sr_clear\<lparr>sr_stats := foldl (OR) (sr_stats sr_clear)
      (map (the \<circ> map_of (stat_names lv0)) [''vcpu'', ''block''])\<rparr>)"
    by (rule stat_items_flags [OF _ _ 1 2]) (simp_all add: ex_stat_toks_def)
  moreover have "foldl (OR) (sr_stats sr_clear)
      (map (the \<circ> map_of (stat_names lv0)) [''vcpu'', ''block'']) = 40"
    by (simp add: stat_names_def lv0_def sr_clear_def)
  ultimately show ?thesis by (simp only:)
qed

text \<open>Only \<^verbatim>\<open>req-id\<close> and \<^verbatim>\<open>get-stats\<close> are looked at. A request with the key \<^verbatim>\<open>stats\<close>, whose items
  the tests of \<^verbatim>\<open>tests/test_sampler_request.c\<close> expect to be checked, is accepted whatever
  its value, and asks for nothing.\<close>

lemma unknown_key_accepted:
  "sampler_parse_request lv0 keep_uuid mem0 req_stats_foobar (length req_stats_foobar) = Some (0, sr_clear)"
  by code_simp

end
