(* ===== verification/Request_Json.thy ===== *)
theory Request_Json
  imports Jsmn_Json Sampler_Request
begin

text \<open>
  What a request means: the members of its JSON object, as a reference definition, and the
  proof that \<^verbatim>\<open>sampler_parse_request\<close> (\<^verbatim>\<open>src/sampler.c\<close>), from the bytes of the request through the
  tokens of jsmn, computes that meaning however the request is laid out.
\<close>

section \<open>The meaning of a request\<close>

definition stats_of :: "libvirt_consts \<Rightarrow> string list \<Rightarrow> guint \<Rightarrow> guint" where
  "stats_of lv names m = foldl (OR) m (map (the \<circ> map_of (stat_names lv)) names)"

definition json_names :: "json list \<Rightarrow> string list" where
  "json_names vs = map (\<lambda>v. case v of JStr s \<Rightarrow> s | _ \<Rightarrow> []) vs"

definition apply_member ::
    "libvirt_consts \<Rightarrow> (string \<Rightarrow> byte list \<Rightarrow> byte list) \<Rightarrow> SampleRequest \<Rightarrow> string \<times> json \<Rightarrow> SampleRequest" where
  "apply_member lv up sr = (\<lambda>(k, v).
     case v of
       JStr u \<Rightarrow> if k = ''req-id'' then sr\<lparr>sr_uuid := up (take 36 u) (sr_uuid sr)\<rparr> else sr
     | JArr vs \<Rightarrow> if k = ''get-stats'' then sr\<lparr>sr_stats := stats_of lv (json_names vs) (sr_stats sr)\<rparr> else sr
     | _ \<Rightarrow> sr)"

definition request_meaning ::
    "libvirt_consts \<Rightarrow> (string \<Rightarrow> byte list \<Rightarrow> byte list) \<Rightarrow> (string \<times> json) list \<Rightarrow> SampleRequest" where
  "request_meaning lv up ms = foldl (apply_member lv up) sr_clear ms"

fun strings :: "json \<Rightarrow> string list" where
  \<comment> \<open>the strings that occur in a value, keys included\<close>
  "strings (JPrim w) = []"
| "strings (JStr s) = [s]"
| "strings (JArr vs) = concat (map strings vs)"
| "strings (JObj ms) = concat (map (\<lambda>m. fst m # strings (snd m)) ms)"

definition neutral :: "string \<Rightarrow> bool" where
  \<comment> \<open>a string that the parser does not take for one of its keys\<close>
  "neutral w \<longleftrightarrow> \<not> prefix w ''req-id'' \<and> \<not> prefix w ''get-stats''"

definition member_ok :: "libvirt_consts \<Rightarrow> string \<times> json \<Rightarrow> bool" where
  "member_ok lv = (\<lambda>(k, v).
     k = ''req-id'' \<and> (\<exists>u. v = JStr u \<and> length u \<le> VIR_UUID_STRING_BUFLEN lv) \<or>
     k = ''get-stats'' \<and> (\<exists>names. v = JArr (map JStr names) \<and> set names \<subseteq> fst ` set (stat_names lv)) \<or>
     list_all neutral (k # strings v))"

section \<open>The text of a token\<close>

definition tok_text :: "string \<Rightarrow> jsmntok_t \<Rightarrow> string" where
  "tok_text js tok = take (tok_len tok) (drop (nat (tok_start tok)) js)"

definition string_tok :: "string \<Rightarrow> string \<Rightarrow> jsmntok_t \<Rightarrow> bool" where
  "string_tok js w tok \<longleftrightarrow> tok_type tok = JSMN_STRING \<and> tok_text js tok = w \<and> tok_len tok = length w"

lemma string_tok_mk:
  assumes "js = pre @ CHR 0x22 # w @ post" and "i = length pre + 1" and "j = i + length w"
  shows "string_tok js w (mk_tok JSMN_STRING i j n)"
proof -
  have "nat (int i) = Suc (length pre)" using assms(2) by simp
  then show ?thesis
    using assms by (simp add: string_tok_def tok_text_def mk_tok_def tok_len_def del: nat_int)
qed

lemma is_token_prefix:
  assumes "string_tok js w tok"
  shows "is_token js tok s \<longleftrightarrow> prefix w s"
proof -
  have "take (length w) (drop (nat (tok_start tok)) js) = w" and "nat (tok_end tok - tok_start tok) = length w"
    and "tok_type tok = JSMN_STRING"
    using assms by (auto simp: string_tok_def tok_text_def tok_len_def)
  moreover have "prefix w s \<longleftrightarrow> w = take (length w) s"
    by (auto simp: prefix_def) (metis append_take_drop_id)
  ultimately show ?thesis by (simp add: is_token_def strncmp_eq_def)
qed

definition spelled :: "string \<Rightarrow> string set \<Rightarrow> jsmntok_t list \<Rightarrow> bool" where
  \<comment> \<open>the string tokens are strings of \<open>S\<close>\<close>
  "spelled js S X \<longleftrightarrow> (\<forall>tok \<in> set X. tok_type tok = JSMN_STRING \<longrightarrow> (\<exists>w \<in> S. string_tok js w tok))"

lemma spelled_simps [simp]:
  "spelled js S []"
  "spelled js S (tok # X) \<longleftrightarrow> (tok_type tok = JSMN_STRING \<longrightarrow> (\<exists>w \<in> S. string_tok js w tok)) \<and> spelled js S X"
  "spelled js S (X @ Y) \<longleftrightarrow> spelled js S X \<and> spelled js S Y"
  by (auto simp: spelled_def)

lemma spelled_mono: "spelled js S X \<Longrightarrow> S \<subseteq> S' \<Longrightarrow> spelled js S' X"
  unfolding spelled_def by blast

lemma mk_tok_type [simp]: "tok_type (mk_tok ty i j n) = ty"
  by (simp add: mk_tok_def)

definition member_strings :: "(string \<times> json) list \<Rightarrow> string set" where
  "member_strings ms = (\<Union>m \<in> set ms. insert (fst m) (set (strings (snd m))))"

lemma json_string_toks:
  "json_text v t f \<Longrightarrow> js = pre @ t @ post \<Longrightarrow> spelled js (set (strings v)) (f (length pre))"
  "json_elems vs t f \<Longrightarrow> js = pre @ t @ post \<Longrightarrow> spelled js (\<Union>v \<in> set vs. set (strings v)) (f (length pre))"
  "json_members ms t f \<Longrightarrow> js = pre @ t @ post \<Longrightarrow> spelled js (member_strings ms) (f (length pre))"
proof (induction arbitrary: pre post and pre post and pre post rule: json_induct)
  case (json_str s)
  then show ?case by (auto simp: quote_def intro!: string_tok_mk)
next
  case (json_arr vs t f)
  then show ?case using json_arr.IH [of "pre @ ''[''" "'']'' @ post"] by simp
next
  case (json_obj ms t f)
  have "member_strings ms = set (strings (JObj ms))" by (auto simp: member_strings_def)
  then show ?case using json_obj.IH [of "pre @ ''{''" "''}'' @ post"] json_obj.prems by simp
next
  case (json_elem v t f a b)
  then show ?case using json_elem.IH [of "pre @ a" "b @ post"] by simp
next
  case (json_elem_more v t f a b vs u g)
  have 1: "spelled js (set (strings v)) (f (length pre + length a))"
    using json_elem_more.IH(1) [of "pre @ a" "b @ '','' @ u @ post"] json_elem_more.prems by simp
  have 2: "spelled js (\<Union>v \<in> set vs. set (strings v)) (g (length pre + length a + length t + length b + 1))"
    using json_elem_more.IH(2) [of "pre @ a @ t @ b @ '',''" post] json_elem_more.prems by (simp add: ac_simps)
  show ?case unfolding spelled_simps by (intro conjI spelled_mono [OF 1] spelled_mono [OF 2]) auto
next
  case (json_member k v t f a b c d)
  have 0: "string_tok js k (mk_tok JSMN_STRING (length pre + length a + 1) (length pre + length a + 1 + length k) 1)"
    using json_member.prems by (intro string_tok_mk [of _ "pre @ a"]) (auto simp: quote_def)
  have 1: "spelled js (set (strings v)) (f (length pre + length a + length k + length b + length c + 3))"
    using json_member.IH [of "pre @ a @ quote k @ b @ '':'' @ c" "d @ post"] json_member.prems
    by (simp add: quote_def ac_simps eval_nat_numeral)
  show ?case unfolding spelled_simps
    by (intro conjI impI spelled_mono [OF 1] bexI [of _ k] 0) (auto simp: member_strings_def)
next
  case (json_member_more k v t f a b c d ms u g)
  have 0: "string_tok js k (mk_tok JSMN_STRING (length pre + length a + 1) (length pre + length a + 1 + length k) 1)"
    using json_member_more.prems by (intro string_tok_mk [of _ "pre @ a"]) (auto simp: quote_def)
  have 1: "spelled js (set (strings v)) (f (length pre + length a + length k + length b + length c + 3))"
    using json_member_more.IH(1) [of "pre @ a @ quote k @ b @ '':'' @ c" "d @ '','' @ u @ post"] json_member_more.prems
    by (simp add: quote_def ac_simps eval_nat_numeral)
  have 2: "spelled js (member_strings ms) (g (length pre + length a + length k + length b + length c + length t + length d + 4))"
    using json_member_more.IH [of "pre @ a @ quote k @ b @ '':'' @ c @ t @ d @ '',''" post] json_member_more.prems
    by (simp add: quote_def ac_simps eval_nat_numeral)
  show ?case unfolding spelled_simps
    by (intro conjI impI spelled_mono [OF 1] spelled_mono [OF 2] bexI [of _ k] 0) (auto simp: member_strings_def)
qed simp_all

inductive_cases json_strE: "json_text (JStr u) t f"
inductive_cases json_arrE: "json_text (JArr vs) t f"
inductive_cases json_objE: "json_text (JObj ms) t f"

lemma json_arr_cases:
  assumes "json_text (JArr vs) t f"
  obtains (empty) b where "vs = []" "blanks b" "f = (\<lambda>i. [mk_tok JSMN_ARRAY i (i + length b + 2) 0])"
  | (elems) u g where "json_elems vs u g" "t = CHR ''['' # u @ '']''"
      "f = (\<lambda>i. mk_tok JSMN_ARRAY i (i + length u + 2) (length vs) # g (i + 1))"
  using assms by (rule json_arrE) (use that in auto)

lemma json_obj_cases:
  assumes "json_text (JObj ms) t f"
  obtains (empty) b where "ms = []" "blanks b" "f = (\<lambda>i. [mk_tok JSMN_OBJECT i (i + length b + 2) 0])"
  | (members) u g where "json_members ms u g" "t = CHR ''{'' # u @ ''}''"
      "f = (\<lambda>i. mk_tok JSMN_OBJECT i (i + length u + 2) (length ms) # g (i + 1))"
  using assms by (rule json_objE) (use that in auto)

lemma json_elems_strings:
  "json_elems vs t f \<Longrightarrow> vs = map JStr names \<Longrightarrow> js = pre @ t @ post \<Longrightarrow>
    list_all2 (string_tok js) names (f (length pre))"
proof (induction arbitrary: names pre post
    rule: json_induct(2) [where ?P1.0 = "\<lambda>_ _ _. True" and ?P3.0 = "\<lambda>_ _ _. True"])
  case (json_elem v t f a b)
  then obtain n where n: "names = [n]" "v = JStr n" by auto
  with json_elem(1) have "t = quote n" "f = (\<lambda>i. [mk_tok JSMN_STRING (i + 1) (i + 1 + length n) 0])"
    by (auto elim: json_strE)
  then show ?case using json_elem.prems n string_tok_mk [of js "pre @ a" n "CHR 0x22 # b @ post"]
    by (simp add: quote_def)
next
  case (json_elem_more v t f a b vs u g)
  then obtain n ns where n: "names = n # ns" "v = JStr n" "vs = map JStr ns" by auto
  with json_elem_more(1) have t: "t = quote n" "f = (\<lambda>i. [mk_tok JSMN_STRING (i + 1) (i + 1 + length n) 0])"
    by (auto elim: json_strE)
  have "string_tok js n (mk_tok JSMN_STRING (length pre + length a + 1) (length pre + length a + 1 + length n) 0)"
    using json_elem_more.prems t by (intro string_tok_mk [of _ "pre @ a"]) (auto simp: quote_def)
  then show ?case
    using json_elem_more.IH [of ns "pre @ a @ t @ b @ '',''" post] json_elem_more.prems n t
    by (simp add: ac_simps)
qed simp_all

section \<open>The loop over the members\<close>

lemma request_loop_item:
  assumes "request_item lv up js ts r sr i = Some (Inr (j, sr'))" and "i < r"
  shows "request_loop lv up js ts r sr i = request_loop lv up js ts r sr' j"
  using assms by (simp add: request_loop.simps [of lv up js ts r sr i])

lemma request_loop_end: "r \<le> i \<Longrightarrow> request_loop lv up js ts r sr i = Some (0, sr)"
  by (simp add: request_loop.simps [of lv up js ts r sr i])

lemma request_loop_skip:
  assumes "ts = T @ X @ Y" and "r \<le> length ts" and "length T + length X \<le> r"
    and "\<forall>tok \<in> set X. tok_type tok = JSMN_STRING \<longrightarrow> (\<exists>w. neutral w \<and> string_tok js w tok)"
  shows "request_loop lv up js ts r sr (length T) = request_loop lv up js ts r sr (length T + length X)"
  using assms
proof (induction X arbitrary: T)
  case (Cons x X)
  have at: "tok_at ts r (length T) = Some x" using Cons.prems by (simp add: tok_at_def)
  have "\<not> is_token js x ''req-id'' \<and> \<not> is_token js x ''get-stats''"
  proof (cases "tok_type x = JSMN_STRING")
    case True
    then show ?thesis using Cons.prems(4) by (auto simp: is_token_prefix neutral_def)
  qed (simp add: is_token_def)
  then have "request_item lv up js ts r sr (length T) = Some (Inr (length T + 1, sr))"
    using at by (simp add: request_item_def)
  then have "request_loop lv up js ts r sr (length T) = request_loop lv up js ts r sr (length (T @ [x]))"
    using request_loop_item [of lv up js ts r sr "length T"] Cons.prems(3) by simp
  then show ?case using Cons.IH [of "T @ [x]"] Cons.prems by simp
qed simp

lemma request_loop_req_id:
  assumes "ts = T @ [k, x] @ Y" and "r \<le> length ts" and "length T + 2 \<le> r"
    and "string_tok js ''req-id'' k" and "js = pre @ quote u @ post" and "str_ok u"
    and "x = mk_tok JSMN_STRING (length pre + 1) (length pre + 1 + length u) 0"
    and "length u \<le> VIR_UUID_STRING_BUFLEN lv"
  shows "request_loop lv up js ts r sr (length T) =
    request_loop lv up js ts r (sr\<lparr>sr_uuid := up (take 36 u) (sr_uuid sr)\<rparr>) (length T + 2)"
proof -
  have "request_item lv up js ts r sr (length T) =
      Some (if length u > VIR_UUID_STRING_BUFLEN lv then Inl sr
            else Inr (length T + 2, sr\<lparr>sr_uuid := up (take 36 u) (sr_uuid sr)\<rparr>))"
    using assms(1-6)
    by (intro req_id_item [of js ts "length T" r "length pre + 1" u])
      (auto simp: is_token_prefix nth_append assms(7) mk_tok_def quote_def dest: str_ok_NUL)
  then show ?thesis
    using assms(3,8) by (intro request_loop_item) simp_all
qed

lemma request_loop_get_stats:
  assumes "ts = T @ [k, x] @ X @ Y" and "r \<le> length ts" and "length T + 2 + length X \<le> r"
    and "string_tok js ''get-stats'' k" and "list_all2 (string_tok js) names X"
    and "tok_type x = JSMN_ARRAY" and "tok_size x = length names"
    and "set names \<subseteq> fst ` set (stat_names lv)"
  shows "request_loop lv up js ts r sr (length T) =
    request_loop lv up js ts r (sr\<lparr>sr_stats := stats_of lv names (sr_stats sr)\<rparr>) (length T + 2 + length X)"
proof -
  have n: "length names = length X" using assms(5) by (rule list_all2_lengthD)
  have X: "string_tok js (names ! j) (X ! j)" if "j < length names" for j
    using assms(5) that by (rule list_all2_nthD)
  have at: "ts ! (length T + 2 + j) = X ! j" if "j < length X" for j
    using that by (simp add: assms(1) nth_append)
  have "parse_stat_items lv js ts r sr (length T + 2) (length names) =
      Some (0, sr\<lparr>sr_stats := stats_of lv names (sr_stats sr)\<rparr>)"
    unfolding stats_of_def
  proof (rule stat_items_flags)
    show "\<forall>k < length names. tok_type (ts ! (length T + 2 + k)) = JSMN_STRING \<and>
        take (tok_len (ts ! (length T + 2 + k))) (drop (nat (tok_start (ts ! (length T + 2 + k)))) js) = names ! k \<and>
        tok_len (ts ! (length T + 2 + k)) = length (names ! k)"
    proof (intro allI impI)
      fix k assume "k < length names"
      then show "tok_type (ts ! (length T + 2 + k)) = JSMN_STRING \<and>
          take (tok_len (ts ! (length T + 2 + k))) (drop (nat (tok_start (ts ! (length T + 2 + k)))) js) = names ! k \<and>
          tok_len (ts ! (length T + 2 + k)) = length (names ! k)"
        using X [of k] at [of k] n by (auto simp: string_tok_def tok_text_def)
    qed
    show "\<forall>n \<in> set names. map_of (stat_names lv) n \<noteq> None"
      using assms(8) by (auto simp: map_of_eq_None_iff)
  qed (use assms(2,3) n in auto)
  moreover have "tok_at ts r (length T) = Some k" "tok_at ts r (length T + 1) = Some x"
    using assms(1-3) by (auto simp: tok_at_def nth_append)
  moreover have "\<not> is_token js k ''req-id''" "is_token js k ''get-stats''"
    using is_token_prefix [OF assms(4)] by simp_all
  ultimately have "request_item lv up js ts r sr (length T) =
      Some (Inr (length T + length X + 2, sr\<lparr>sr_stats := stats_of lv names (sr_stats sr)\<rparr>))"
    using assms(3,6,7) n by (simp add: request_item_def has_next_def)
  then show ?thesis
    using assms(3) by (intro request_loop_item) (simp_all add: ac_simps)
qed

lemma request_loop_member:
  assumes v: "json_text v t f"
    and js: "js = pre @ (a @ quote k @ b @ '':'' @ b' @ t @ d) @ post"
    and j: "j = length pre + length a + length k + length b + length b' + 3"
    and kt: "kt = mk_tok JSMN_STRING (length pre + length a + 1) (length pre + length a + 1 + length k) 1"
    and ts: "ts = T @ (kt # f j) @ Y" and r: "r \<le> length ts" "length T + length (kt # f j) \<le> r"
    and ok: "member_ok lv (k, v)"
  shows "request_loop lv up js ts r sr (length T) =
    request_loop lv up js ts r (apply_member lv up sr (k, v)) (length T + length (kt # f j))"
proof -
  let ?pre = "pre @ a @ quote k @ b @ '':'' @ b'"
  have pre: "length ?pre = j" "js = ?pre @ t @ d @ post" using js j by (simp_all add: quote_def)
  have key: "string_tok js k kt"
    unfolding kt using js by (intro string_tok_mk [of _ "pre @ a"]) (auto simp: quote_def)
  consider (req) u where "k = ''req-id''" "v = JStr u" "length u \<le> VIR_UUID_STRING_BUFLEN lv"
    | (stats) names where "k = ''get-stats''" "v = JArr (map JStr names)" "set names \<subseteq> fst ` set (stat_names lv)"
    | (other) "neutral k" "list_all neutral (strings v)"
    using ok by (auto simp: member_ok_def)
  then show ?thesis
  proof cases
    case req
    with v have t: "t = quote u" "f = (\<lambda>i. [mk_tok JSMN_STRING (i + 1) (i + 1 + length u) 0])" "str_ok u"
      by (auto elim: json_strE)
    have "request_loop lv up js ts r sr (length T) =
        request_loop lv up js ts r (sr\<lparr>sr_uuid := up (take 36 u) (sr_uuid sr)\<rparr>) (length T + 2)"
      by (rule request_loop_req_id [OF _ r(1) _ _ _ t(3), of T kt "hd (f j)" Y js ?pre "d @ post"])
        (use ts r key req pre t in \<open>simp_all\<close>)
    then show ?thesis using req t by (simp add: apply_member_def)
  next
    case stats
    have "\<exists>X n. f j = mk_tok JSMN_ARRAY j n (length names) # X \<and> list_all2 (string_tok js) names X"
      using v [unfolded stats]
    proof (cases rule: json_arr_cases)
      case (elems u g)
      have "list_all2 (string_tok js) names (g (length (?pre @ ''['')))"
        using pre elems by (intro json_elems_strings [OF elems(1) refl, of js _ "'']'' @ d @ post"]) simp
      then show ?thesis using pre(1) elems(3) by auto
    qed auto
    then obtain X n where f: "f j = mk_tok JSMN_ARRAY j n (length names) # X" "list_all2 (string_tok js) names X"
      by blast
    have "request_loop lv up js ts r sr (length T) = request_loop lv up js ts r
        (sr\<lparr>sr_stats := stats_of lv names (sr_stats sr)\<rparr>) (length T + 2 + length X)"
      by (rule request_loop_get_stats [OF _ r(1) _ _ f(2) _ _ stats(3),
            where x = "mk_tok JSMN_ARRAY j n (length names)" and k = kt and Y = Y])
        (use ts r key stats f in \<open>simp_all add: mk_tok_def\<close>)
    moreover have "json_names (map JStr names) = names" by (simp add: json_names_def comp_def)
    ultimately show ?thesis using stats f by (simp add: apply_member_def)
  next
    case other
    have "spelled js (set (strings v)) (f j)" using json_string_toks(1) [OF v pre(2)] pre(1) by simp
    then have "\<forall>tok \<in> set (kt # f j). tok_type tok = JSMN_STRING \<longrightarrow> (\<exists>w. neutral w \<and> string_tok js w tok)"
      using other key by (auto simp: spelled_def list_all_iff)
    from request_loop_skip [OF ts r this]
    have "request_loop lv up js ts r sr (length T) = request_loop lv up js ts r sr (length T + length (kt # f j))" .
    moreover have "k \<noteq> ''req-id''" "k \<noteq> ''get-stats''" using other by (auto simp: neutral_def)
    then have "apply_member lv up sr (k, v) = sr" by (simp add: apply_member_def split: json.split)
    ultimately show ?thesis by simp
  qed
qed

lemma request_loop_members:
  "json_members ms t f \<Longrightarrow> js = pre @ t @ post \<Longrightarrow> ts = T @ f (length pre) @ Y \<Longrightarrow> r \<le> length ts \<Longrightarrow>
    length T + length (f (length pre)) \<le> r \<Longrightarrow> list_all (member_ok lv) ms \<Longrightarrow>
    request_loop lv up js ts r sr (length T) =
    request_loop lv up js ts r (foldl (apply_member lv up) sr ms) (length T + length (f (length pre)))"
proof (induction arbitrary: pre post T Y sr
    rule: json_induct(3) [where ?P1.0 = "\<lambda>_ _ _. True" and ?P2.0 = "\<lambda>_ _ _. True"])
  case (json_member k v t f a b b' d)
  then show ?case
    using request_loop_member [OF json_member(2) json_member.prems(1) refl refl json_member.prems(2-3), of lv up sr]
    by simp
next
  case (json_member_more k v t f a b b' d ms u g)
  let ?kt = "mk_tok JSMN_STRING (length pre + length a + 1) (length pre + length a + 1 + length k) 1"
  let ?X = "?kt # f (length pre + length a + length k + length b + length b' + 3)"
  let ?i = "length pre + length a + length k + length b + length b' + length t + length d + 4"
  have "request_loop lv up js ts r sr (length T) =
      request_loop lv up js ts r (apply_member lv up sr (k, v)) (length T + length ?X)"
    by (rule request_loop_member [OF json_member_more(2) _ refl refl, where pre = pre and a = a and b = b and
          b' = b' and d = d and post = "'','' @ u @ post" and Y = "g ?i @ Y"])
      (use json_member_more.prems in auto)
  also have "\<dots> = request_loop lv up js ts r (foldl (apply_member lv up) (apply_member lv up sr (k, v)) ms)
      (length (T @ ?X) + length (g ?i))"
    using json_member_more.IH [of "pre @ a @ quote k @ b @ '':'' @ b' @ t @ d @ '',''" post "T @ ?X" Y
        "apply_member lv up sr (k, v)"] json_member_more.prems
    by (simp add: quote_def ac_simps eval_nat_numeral)
  finally show ?case by (simp add: ac_simps)
qed simp_all

lemma parse_request_meaning:
  assumes "json_text (JObj ms) t f" and "list_all (member_ok lv) ms" and "blanks post"
    and "length (f 0) \<le> length mem"
  shows "sampler_parse_request lv up mem (t @ post) (length (t @ post)) = Some (0, request_meaning lv up ms)"
proof -
  let ?ts = "f 0 @ drop (length (f 0)) mem" and ?r = "length (f 0)" and ?js = "t @ post"
  obtain p where p: "jsmn_parse jsmn_init ?js (Some mem) = Inr (p, Some ?ts, ?r)"
    using json_text_tokens [OF assms(1,3,4)] by blast
  have "(\<exists>x X. f 0 = x # X \<and> tok_type x = JSMN_OBJECT) \<and>
      request_loop lv up ?js ?ts ?r sr_clear 1 = Some (0, request_meaning lv up ms)"
    using assms(1)
  proof (cases rule: json_obj_cases)
    case (empty b)
    then show ?thesis
      by (simp add: request_loop_end request_meaning_def)
  next
    case (members u g)
    let ?x = "mk_tok JSMN_OBJECT 0 (length u + 2) (length ms)"
    have "request_loop lv up ?js ?ts ?r sr_clear (length [?x]) =
        request_loop lv up ?js ?ts ?r (foldl (apply_member lv up) sr_clear ms) (length [?x] + length (g (length ''{'')))"
      by (rule request_loop_members [OF members(1), of ?js "''{''" "''}'' @ post"]) (use members assms in simp_all)
    then have "request_loop lv up ?js ?ts ?r sr_clear 1 =
        request_loop lv up ?js ?ts ?r (request_meaning lv up ms) ?r"
      using members(3) by (simp add: request_meaning_def)
    then show ?thesis
      using members(3) by (simp add: request_loop_end)
  qed
  then show ?thesis using p by (auto simp: sampler_parse_request_def)
qed


definition ex_members :: "(string \<times> json) list" where
  "ex_members = [(''req-id'', JStr ''7''), (''get-stats'', JArr [JStr ''vcpu'', JStr ''block'']), (''x'', JPrim ''1'')]"


text \<open>Members that are not known are walked through token by token: a string value that equals a key is taken for the
  key, and this request, which only has unknown members, is refused.\<close>

lemma value_taken_for_key:
  \<open>sampler_parse_request lv0 keep_uuid mem0 ''{"a":"get-stats","b":1}'' 23 = Some (-1, sr_clear)\<close>
  by code_simp

end
