(* ===== verification/Task_Data.thy ===== *)
theory Task_Data
  imports Ring_Buffer
begin

text \<open>
  The task descriptor of \<^verbatim>\<open>lib/executor.h\<close> and its bytes. \<^verbatim>\<open>lib/executor.c\<close> copies a
  \<open>struct TaskData\<close> into a slot of the ring buffer and back: \<open>task_bytes\<close> and
  \<open>task_of_bytes\<close> are its memory on the LP64 little-endian targets (pointers and
  \<open>size_t\<close> of 8 bytes, \<open>gint\<close> and \<open>gboolean\<close> of 4, no padding). A function or data pointer is its 64-bit
  value. The section after that states the interface of a queue of encoded items and
  interprets it on the ring buffer.
\<close>

section \<open>Little-endian bytes\<close>

fun le_bytes :: "nat \<Rightarrow> nat \<Rightarrow> byte list" where
  "le_bytes 0 x = []"
| "le_bytes (Suc n) x = of_nat (x mod 256) # le_bytes n (x div 256)"

fun le_value :: "byte list \<Rightarrow> nat" where
  "le_value [] = 0"
| "le_value (b # bs) = unat b + 256 * le_value bs"

lemma length_le_bytes [simp]: "length (le_bytes n x) = n"
  by (induction n x rule: le_bytes.induct) simp_all

lemma le_value_bytes: "le_value (le_bytes n x) = x mod 256 ^ n"
proof (induction n x rule: le_bytes.induct)
  case (2 n x)
  have "unat (of_nat (x mod 256) :: byte) = x mod 256"
    by (simp add: unat_of_nat)
  then show ?case using 2 mod_mult2_eq [of x 256 "256 ^ n"] by simp
qed simp

lemma le_value_word: "LENGTH('a::len) = 8 * n \<Longrightarrow> of_nat (le_value (le_bytes n (unat w))) = (w :: 'a word)"
proof -
  assume "LENGTH('a) = 8 * n"
  moreover have "(256 :: nat) ^ n = 2 ^ (8 * n)" by (simp add: power_mult)
  ultimately have "unat w < 256 ^ n" using unsigned_less [of w] by simp
  then show ?thesis by (simp add: le_value_bytes)
qed

section \<open>The descriptor\<close>

record TaskData =
  td_work :: ull
  td_collect :: ull
  td_timeout :: guint
  td_discarded :: guint
  ud_xdata :: ull
  ud_size :: ull
  td_data :: "byte list"

abbreviation TASK_DATA_SIZE :: nat where "TASK_DATA_SIZE \<equiv> 128"
abbreviation sizeof_TaskBaseData :: nat where "sizeof_TaskBaseData \<equiv> 8 + 8 + 4 + 4"
abbreviation sizeof_TaskUserData :: nat where "sizeof_TaskUserData \<equiv> 8 + 8"

definition TASK_DATA_EMBED_MAX_SIZE :: nat where
  "TASK_DATA_EMBED_MAX_SIZE = TASK_DATA_SIZE - sizeof_TaskBaseData - sizeof_TaskUserData"

definition task_zero :: TaskData where
  \<comment> \<open>\<open>memset (&task, 0, sizeof (task))\<close>\<close>
  "task_zero = \<lparr>td_work = 0, td_collect = 0, td_timeout = 0, td_discarded = 0, ud_xdata = 0,
     ud_size = 0, td_data = replicate TASK_DATA_EMBED_MAX_SIZE 0\<rparr>"

definition task_ok :: "TaskData \<Rightarrow> bool" where
  "task_ok t \<longleftrightarrow> length (td_data t) = TASK_DATA_EMBED_MAX_SIZE"

definition task_bytes :: "TaskData \<Rightarrow> byte list" where
  "task_bytes t =
     le_bytes 8 (unat (td_work t)) @ le_bytes 8 (unat (td_collect t)) @
     le_bytes 4 (unat (td_timeout t)) @ le_bytes 4 (unat (td_discarded t)) @
     le_bytes 8 (unat (ud_xdata t)) @ le_bytes 8 (unat (ud_size t)) @ td_data t"

definition task_of_bytes :: "byte list \<Rightarrow> TaskData" where
  "task_of_bytes bs =
     (let field = (\<lambda>off n. le_value (take n (drop off bs)))
      in \<lparr>td_work = of_nat (field 0 8), td_collect = of_nat (field 8 8),
          td_timeout = of_nat (field 16 4), td_discarded = of_nat (field 20 4),
          ud_xdata = of_nat (field 24 8), ud_size = of_nat (field 32 8), td_data = drop 40 bs\<rparr>)"

lemma task_codec: "task_of_bytes (task_bytes t) = t"
proof -
  have n: "LENGTH(64) = 8 * 8" "LENGTH(32) = 8 * 4" by simp_all
  show ?thesis
    by (simp add: task_of_bytes_def task_bytes_def Let_def le_value_word [OF n(1)] le_value_word [OF n(2)])
qed

lemma task_bytes_length: "task_ok t \<Longrightarrow> length (task_bytes t) = TASK_DATA_SIZE"
  by (simp add: task_ok_def task_bytes_def TASK_DATA_EMBED_MAX_SIZE_def)

text \<open>The bytes of a task descriptor determine it: reading back the memory of a \<open>TaskData\<close> with its 88
  embedded bytes gives every field as it was, and the memory has the 128 bytes of a slot. So what
  \<open>memcpy\<close> puts in the ring buffer and takes out of it again is the task that was dispatched.\<close>

lemma task_bytes_roundtrip:
  assumes "length (td_data t) = TASK_DATA_EMBED_MAX_SIZE"
  shows "task_of_bytes (task_bytes t) = t \<and> length (task_bytes t) = 128 \<and> TASK_DATA_EMBED_MAX_SIZE = 88"
  using task_codec task_bytes_length [of t] assms by (simp add: task_ok_def TASK_DATA_EMBED_MAX_SIZE_def)

lemma task_bytes_roundtrip_example: "task_of_bytes (task_bytes task_zero) = task_zero"
  using task_bytes_roundtrip [of task_zero] by (simp add: task_zero_def)

section \<open>A queue of encoded items\<close>

locale codec =
  fixes encode :: "'a \<Rightarrow> 'e" and decode :: "'e \<Rightarrow> 'a"
  assumes decode_encode: "decode (encode a) = a"

locale typed_queue = bounded_queue enq deq contents capacity good item_ok + codec encode decode
  for enq :: "'q \<Rightarrow> 'e \<Rightarrow> (bool \<times> 'q) option"
    and deq :: "'q \<Rightarrow> ('e option \<times> 'q) option"
    and contents :: "'q \<Rightarrow> 'e list"
    and capacity :: "'q \<Rightarrow> nat"
    and good :: "'q \<Rightarrow> bool"
    and item_ok :: "'q \<Rightarrow> 'e \<Rightarrow> bool"
    and encode :: "'a \<Rightarrow> 'e"
    and decode :: "'e \<Rightarrow> 'a"
begin

lemma typed_enq:
  assumes "good q" and "item_ok q (encode a)" and "length (contents q) < capacity q"
  obtains q' where "enq q (encode a) = Some (True, q')" "good q'" "capacity q' = capacity q"
    "item_ok q' = item_ok q" "map decode (contents q') = map decode (contents q) @ [a]"
  using enq_law [OF assms(1,2)] assms(3) by (auto simp: decode_encode)

lemma typed_enq_full:
  assumes "good q" and "item_ok q (encode a)" and "\<not> length (contents q) < capacity q"
  obtains q' where "enq q (encode a) = Some (False, q')" "good q'" "capacity q' = capacity q"
    "contents q' = contents q"
  using enq_law [OF assms(1,2)] assms(3) by auto

lemma typed_deq:
  assumes "good q" and "map decode (contents q) = a # as"
  obtains e q' where "deq q = Some (Some e, q')" "decode e = a" "good q'" "map decode (contents q') = as"
proof -
  obtain x xs where x: "contents q = x # xs" "decode x = a" "map decode xs = as"
    using assms(2) by auto
  obtain q' where "deq q = Some (Some x, q')" "good q'" "contents q' = xs"
    using deq_law [OF assms(1)] x by auto
  with x show thesis using that by auto
qed

end

interpretation task_codec: codec task_bytes task_of_bytes
  by unfold_locales (rule task_codec)

interpretation taskq: typed_queue rb_enq rb_deq rb_contents rb_capacity rb_wf rb_item_ok
    task_bytes task_of_bytes
  by unfold_locales

end
