(* ===== verification/Scheduler.thy ===== *)
theory Scheduler
  imports Vmon_Prelude
begin

text \<open>
  The task scheduler of \<^verbatim>\<open>lib/scheduler.c\<close>. GLib is a parameter: a record of the functions the code
  calls, on an abstract state \<open>'g\<close> of GLib. \<open>g_timeout_source_new\<close>, \<open>g_source_set_callback\<close>,
  \<open>g_source_attach\<close> and \<open>g_source_unref\<close> are called as one sequence, so they are one field. What the
  properties rely on of GLib's documentation is the predicate \<open>glib_doc\<close>. NULL is \<open>None\<close>.
\<close>

section \<open>GLib\<close>

record ('c, 'l, 'f, 'g) glib =
  g_main_context_default :: 'c
  g_main_context_new :: "'g \<Rightarrow> 'c \<times> 'g"
  g_main_loop_new :: "'c \<Rightarrow> 'g \<Rightarrow> 'l \<times> 'g"
  g_main_loop_quit :: "'l option \<Rightarrow> 'g \<Rightarrow> 'g"
  g_thread_join :: "'g \<Rightarrow> 'g"
  g_timeout_attach :: "guint \<Rightarrow> 'f \<Rightarrow> 'c option \<Rightarrow> 'g \<Rightarrow> guint \<times> 'g"
    \<comment> \<open>a new timeout source with that interval and callback, attached to the context\<close>
  g_source_remove :: "guint \<Rightarrow> 'g \<Rightarrow> 'g"

section \<open>State and operations\<close>

record ('c, 'l) Scheduler =
  sc_context :: "'c option"
  sc_loop :: "'l option"
  sc_thread :: bool  \<comment> \<open>the thread was created\<close>
  sc_standalone :: bool

definition scheduler_init :: "bool \<Rightarrow> bool \<Rightarrow> int \<times> ('c, 'l) Scheduler option" where
  \<comment> \<open>the first argument: \<open>calloc\<close> returns a block\<close>
  "scheduler_init alloc sa =
     (if alloc
      then (0, Some \<lparr>sc_context = None, sc_loop = None, sc_thread = False, sc_standalone = sa\<rparr>)
      else (-1, None))"

definition scheduler_run ::
    "('c, 'l, 'f, 'g) glib \<Rightarrow> ('c, 'l) Scheduler \<Rightarrow> 'g \<Rightarrow> ('c, 'l) Scheduler \<times> 'g" where
  \<comment> \<open>the scheduler thread, up to the start of its main loop\<close>
  "scheduler_run G sched g =
     (let (c, g) = g_main_context_new G g;
          sched = sched\<lparr>sc_context := Some c\<rparr>;
          (l, g) = g_main_loop_new G c g
      in (sched\<lparr>sc_loop := Some l\<rparr>, g))"

definition scheduler_start_standalone :: "bool \<Rightarrow> ('c, 'l) Scheduler \<Rightarrow> int \<times> ('c, 'l) Scheduler" where
  \<comment> \<open>the first argument: \<open>g_thread_try_new\<close> succeeds; the new thread goes on with \<open>scheduler_run\<close>\<close>
  "scheduler_start_standalone created sched =
     (let sched = sched\<lparr>sc_thread := created\<rparr>
      in if sc_thread sched then (0, sched) else (-1, sched))"

definition scheduler_start ::
    "('c, 'l, 'f, 'g) glib \<Rightarrow> bool \<Rightarrow> ('c, 'l) Scheduler \<Rightarrow> int \<times> ('c, 'l) Scheduler" where
  "scheduler_start G created sched =
     (if \<not> sc_standalone sched
      then (0, sched\<lparr>sc_context := Some (g_main_context_default G), sc_loop := None\<rparr>)
      else scheduler_start_standalone created sched)"

definition scheduler_stop ::
    "('c, 'l, 'f, 'g) glib \<Rightarrow> ('c, 'l) Scheduler \<Rightarrow> 'g \<Rightarrow> int \<times> 'g" where
  "scheduler_stop G sched g =
     (0, if sc_standalone sched
         then g_thread_join G (g_main_loop_quit G (sc_loop sched) g)
         else g)"

definition scheduler_add ::
    "('c, 'l, 'f, 'g) glib \<Rightarrow> ('c, 'l) Scheduler \<Rightarrow> int \<Rightarrow> 'f \<Rightarrow> 'g \<Rightarrow> guint \<times> 'g" where
  \<comment> \<open>the task and its data are one value; \<open>delay\<close>, an \<open>int\<close>, becomes a \<open>guint\<close>\<close>
  "scheduler_add G sched delay task g = g_timeout_attach G (word_of_int delay) task (sc_context sched) g"

definition scheduler_del ::
    "('c, 'l, 'f, 'g) glib \<Rightarrow> ('c, 'l) Scheduler \<Rightarrow> guint \<Rightarrow> 'g \<Rightarrow> int \<times> 'g" where
  "scheduler_del G sched ident g = (0, g_source_remove G ident g)"

section \<open>What GLib documents\<close>

definition ids_left :: "('c \<times> guint) set \<Rightarrow> 'c \<Rightarrow> bool" where
  "ids_left P c \<longleftrightarrow> (\<exists>i. i \<noteq> 0 \<and> (c, i) \<notin> P)"

definition context_of :: "('c, 'l, 'f, 'g) glib \<Rightarrow> 'c option \<Rightarrow> 'c" where
  "context_of G c = (case c of None \<Rightarrow> g_main_context_default G | Some c1 \<Rightarrow> c1)"

definition glib_doc ::
    "('c, 'l, 'f, 'g) glib \<Rightarrow> ('g \<Rightarrow> ('c \<times> guint) set) \<Rightarrow> bool" where
  \<comment> \<open>the sources pending in a state, by context and ID: a source is attached to the given context, the
    default one for NULL, under a positive ID that is new in that context, as long as one is left;
    \<open>g_source_remove\<close> removes the source of that ID from the default context; a new context is
    not the default one\<close>
  "glib_doc G pending \<longleftrightarrow>
     (\<forall>iv f c g. ids_left (pending g) (context_of G c) \<longrightarrow>
        (let r = g_timeout_attach G iv f c g
         in fst r \<noteq> 0 \<and> (context_of G c, fst r) \<notin> pending g \<and>
            pending (snd r) = insert (context_of G c, fst r) (pending g))) \<and>
     (\<forall>ident g. pending (g_source_remove G ident g) = pending g - {(g_main_context_default G, ident)}) \<and>
     (\<forall>g. fst (g_main_context_new G g) \<noteq> g_main_context_default G \<and>
        pending (snd (g_main_context_new G g)) = pending g) \<and>
     (\<forall>c g. pending (snd (g_main_loop_new G c g)) = pending g)"

lemma glib_attach:
  assumes "glib_doc G pending" and "ids_left (pending g) (context_of G c)"
    and "g_timeout_attach G iv f c g = (ident, g')"
  shows "ident \<noteq> 0" and "(context_of G c, ident) \<notin> pending g"
    and "pending g' = insert (context_of G c, ident) (pending g)"
proof -
  have law: "\<forall>iv f c g. ids_left (pending g) (context_of G c) \<longrightarrow>
      (let r = g_timeout_attach G iv f c g
       in fst r \<noteq> 0 \<and> (context_of G c, fst r) \<notin> pending g \<and>
          pending (snd r) = insert (context_of G c, fst r) (pending g))"
    using assms(1) unfolding glib_doc_def by (rule conjunct1)
  note r = law [rule_format, OF assms(2), of iv f, unfolded assms(3) Let_def fst_conv snd_conv]
  show "ident \<noteq> 0" using r by (rule conjunct1)
  show "(context_of G c, ident) \<notin> pending g" using r by (rule conjunct1 [OF conjunct2])
  show "pending g' = insert (context_of G c, ident) (pending g)"
    using r by (rule conjunct2 [OF conjunct2])
qed

lemma context_of_simps [simp]:
  "context_of G None = g_main_context_default G" "context_of G (Some c) = c"
  by (simp_all add: context_of_def)

lemma glib_remove:
  "glib_doc G pending \<Longrightarrow>
   pending (g_source_remove G ident g) = pending g - {(g_main_context_default G, ident)}"
  unfolding glib_doc_def by blast

lemma glib_context_new:
  "glib_doc G pending \<Longrightarrow> g_main_context_new G g = (c, g') \<Longrightarrow>
   c \<noteq> g_main_context_default G \<and> pending g' = pending g"
  unfolding glib_doc_def by (metis fst_conv snd_conv)

lemma glib_loop_new:
  "glib_doc G pending \<Longrightarrow> g_main_loop_new G c g = (l, g') \<Longrightarrow> pending g' = pending g"
  unfolding glib_doc_def by (metis snd_conv)

text \<open>A GLib that does what the predicate says: contexts are numbers, the state is the list of the
  pending sources.\<close>

definition free_id :: "(nat \<times> guint) list \<Rightarrow> nat \<Rightarrow> guint" where
  "free_id g c = (case find (\<lambda>i. (c, i) \<notin> set g) (map of_nat [1..<2 ^ 32]) of None \<Rightarrow> 0 | Some i \<Rightarrow> i)"

definition list_glib :: "(nat, nat, 'f, (nat \<times> guint) list) glib" where
  "list_glib =
     \<lparr>g_main_context_default = 0,
      g_main_context_new = (\<lambda>g. (1, g)),
      g_main_loop_new = (\<lambda>c g. (c, g)),
      g_main_loop_quit = (\<lambda>l g. g),
      g_thread_join = (\<lambda>g. g),
      g_timeout_attach = (\<lambda>iv f c g.
        (let c' = (case c of None \<Rightarrow> 0 | Some c1 \<Rightarrow> c1); i = free_id g c' in (i, (c', i) # g))),
      g_source_remove = (\<lambda>i g. filter (\<lambda>p. p \<noteq> (0, i)) g)\<rparr>"

lemma free_id_left:
  assumes "ids_left (set g) c"
  shows "free_id g c \<noteq> 0 \<and> (c, free_id g c) \<notin> set g"
proof -
  obtain i :: guint where i: "i \<noteq> 0" "(c, i) \<notin> set g" using assms by (auto simp: ids_left_def)
  have "0 < unat i" "unat i < 2 ^ 32"
    using i(1) unsigned_less [of i] by (simp_all add: unat_gt_0)
  then have mem: "i \<in> set (map of_nat [1..<2 ^ 32])"
    unfolding set_map by (intro image_eqI [of _ _ "unat i"]) (simp_all add: Suc_le_eq)
  then have "find (\<lambda>i. (c, i) \<notin> set g) (map of_nat [1..<2 ^ 32]) \<noteq> None"
    using i(2) unfolding find_None_iff by blast
  then obtain j :: guint where j: "find (\<lambda>i. (c, i) \<notin> set g) (map of_nat [1..<2 ^ 32]) = Some j" by blast
  then obtain n where "j \<in> set (map of_nat [1..<2 ^ 32])" "(c, j) \<notin> set g"
    unfolding find_Some_iff by (metis nth_mem)
  moreover from this obtain m where "1 \<le> m" "m < 2 ^ 32" "j = of_nat m" by auto
  then have "j \<noteq> 0" by (auto simp: word_of_nat_eq_0_iff dest: dvd_imp_le)
  ultimately show ?thesis unfolding free_id_def j option.simps by blast
qed

lemma list_glib_doc: "glib_doc list_glib set"
  using free_id_left by (auto simp: glib_doc_def list_glib_def Let_def context_of_def split: option.splits)

section \<open>Properties\<close>


text \<open>On a standalone scheduler \<open>scheduler_del\<close> does not cancel: \<open>g_source_remove\<close> looks in the default context only, so
  a task that was added once the scheduler thread runs is still pending after it is deleted, while a
  source of the default context with the same identifier, if there is one, is gone. Before
  the scheduler thread has set its context, \<open>scheduler_add\<close> puts the task on the default context instead.\<close>

lemma scheduler_del_standalone:
  assumes "glib_doc G pending" and "\<forall>c. ids_left (pending g) c"
    and "sc_standalone sched" and "sc_context sched = None"
    and "scheduler_start G True sched = (err, sched1)" and "scheduler_run G sched1 g = (sched2, g1)"
    and "scheduler_add G sched2 delay task g1 = (ident, g2)"
    and "scheduler_del G sched2 ident g2 = (err', g3)"
    and "scheduler_add G sched1 delay task g = (early, ge)"
  shows "\<exists>c. sc_context sched2 = Some c \<and> c \<noteq> g_main_context_default G \<and> (c, ident) \<in> pending g3 \<and>
    (g_main_context_default G, ident) \<notin> pending g3 \<and> err' = 0 \<and>
    (g_main_context_default G, early) \<in> pending ge"
proof -
  obtain c where c: "sc_context sched2 = Some c" "c \<noteq> g_main_context_default G" "pending g1 = pending g"
    using assms(6) glib_context_new [OF assms(1)] glib_loop_new [OF assms(1)]
    by (auto simp: scheduler_run_def Let_def split: prod.splits)
  have s1: "sc_context sched1 = None"
    using assms(3-5) by (auto simp: scheduler_start_def scheduler_start_standalone_def Let_def)
  have a: "g_timeout_attach G (word_of_int delay) task (Some c) g1 = (ident, g2)"
    and e: "g_timeout_attach G (word_of_int delay) task None g = (early, ge)"
    using assms(7,9) c s1 by (simp_all add: scheduler_add_def)
  have left: "ids_left (pending g1) (context_of G (Some c))" "ids_left (pending g) (context_of G None)"
    using assms(2) c by simp_all
  show ?thesis
    using glib_attach [OF assms(1) left(1) a] glib_attach [OF assms(1) left(2) e]
      glib_remove [OF assms(1)] assms(8) c
    by (auto simp: scheduler_del_def)
qed

definition sched0 :: "bool \<Rightarrow> (nat, nat) Scheduler" where
  "sched0 sa = \<lparr>sc_context = None, sc_loop = None, sc_thread = False, sc_standalone = sa\<rparr>"

lemma ids_left_nil: "ids_left (set []) c"
  by (auto simp: ids_left_def intro: exI [of _ 1])

definition unit_glib :: "(nat, nat, unit, (nat \<times> guint) list) glib" where
  "unit_glib = list_glib"

lemma unit_glib_doc: "glib_doc unit_glib set"
  by (simp add: unit_glib_def list_glib_doc)


lemma scheduler_del_standalone_example:
  "\<exists>s g1 ident g2. scheduler_run unit_glib (snd (scheduler_start unit_glib True (sched0 True))) [] = (s, g1) \<and>
    scheduler_add unit_glib s 100 () g1 = (ident, g2) \<and> (1, ident) \<in> set (snd (scheduler_del unit_glib s ident g2))"
proof -
  let ?s1 = "snd (scheduler_start unit_glib True (sched0 True))"
  have st: "scheduler_start unit_glib True (sched0 True) = (0, ?s1)"
    by (simp add: scheduler_start_def scheduler_start_standalone_def sched0_def)
  obtain s2 g1 where r: "scheduler_run unit_glib ?s1 [] = (s2, g1)" by (metis prod.collapse)
  obtain ident g2 where a: "scheduler_add unit_glib s2 100 () g1 = (ident, g2)" by (metis prod.collapse)
  obtain early ge where e: "scheduler_add unit_glib ?s1 100 () [] = (early, ge)" by (metis prod.collapse)
  have d: "scheduler_del unit_glib s2 ident g2 = (0, snd (scheduler_del unit_glib s2 ident g2))"
    by (simp add: scheduler_del_def)
  obtain c where c: "sc_context s2 = Some c" "(c, ident) \<in> set (snd (scheduler_del unit_glib s2 ident g2))"
    using scheduler_del_standalone [OF unit_glib_doc _ _ _ st r a d e] ids_left_nil
    by (auto simp: sched0_def)
  then have "c = 1" using r by (auto simp: scheduler_run_def unit_glib_def list_glib_def Let_def)
  with c r a show ?thesis by auto
qed

end
