(* ===== verification/Executor.thy ===== *)
theory Executor
  imports Task_Data Scheduler
begin

text \<open>
  The task executor of \<^verbatim>\<open>lib/executor.c\<close>: its state and its operations, each run without
  interference; the worker threads are in the theory after this one. Whether an
  allocation succeeds and what the pthread functions return are arguments. \<open>None\<close> is undefined behaviour (a
  NULL queue or worker array, a read past the caller's data); an executor with a queue of tasks
  is related to the list of the tasks in it by \<open>exec_tasks\<close>. Log messages are not modelled.
\<close>

section \<open>State\<close>

record Worker =
  wo_id :: nat
  wo_thread :: "nat option"
  wo_sched_id :: guint
  wo_current :: "nat option"  \<comment> \<open>the thread whose \<open>task\<close> is pointed to\<close>

record 'u Executor =
  ex_workers :: "Worker list option"
  ex_workers_count :: nat
  ex_tasks :: "'u RingBuffer option"
  ex_running :: bool

abbreviation (input) EXECUTOR_ERROR_NONE :: int where "EXECUTOR_ERROR_NONE \<equiv> 0"
abbreviation (input) EXECUTOR_ERROR_NOT_RUNNING :: int where "EXECUTOR_ERROR_NOT_RUNNING \<equiv> -1"
abbreviation (input) EXECUTOR_ERROR_ALREADY_STARTED :: int where "EXECUTOR_ERROR_ALREADY_STARTED \<equiv> -2"
abbreviation (input) EXECUTOR_ERROR_TOO_MANY_TASKS :: int where "EXECUTOR_ERROR_TOO_MANY_TASKS \<equiv> -3"
abbreviation (input) EXECUTOR_ERROR_TOO_MUCH_DATA :: int where "EXECUTOR_ERROR_TOO_MUCH_DATA \<equiv> -4"

text \<open>The addresses of the two functions that the executor itself dispatches.\<close>

record exec_symbols =
  StopWorker_addr :: ull
  StopCollect_addr :: ull

definition StopWorker :: int where
  "StopWorker = 1"

definition StopCollect :: "int \<Rightarrow> bool \<Rightarrow> int" where
  "StopCollect err timeout = err"

section \<open>Start\<close>

definition worker_zero :: Worker where
  "worker_zero = \<lparr>wo_id = 0, wo_thread = None, wo_sched_id = 0, wo_current = None\<rparr>"

definition worker_init :: "nat \<Rightarrow> int \<Rightarrow> nat \<Rightarrow> int \<times> Worker" where
  \<comment> \<open>the worker is cleared, whatever it held; \<open>rc\<close> is the result of \<open>pthread_create\<close>, \<open>tid\<close> the new
    thread. (\<open>exec->max_data\<close>, added to the length that is cleared, is always 0.)\<close>
  "worker_init ident rc tid =
     (rc, worker_zero\<lparr>wo_id := ident, wo_thread := (if rc = 0 then Some tid else None)\<rparr>)"

definition executor_init ::
    "bool \<Rightarrow> bool \<Rightarrow> bool \<Rightarrow> int \<Rightarrow> int \<Rightarrow> int \<times> 'u Executor option" where
  \<comment> \<open>the first three arguments: the allocations of the executor, the queue and the workers succeed\<close>
  "executor_init alloc_ex alloc_rb alloc_wo workers_count max_tasks =
     (if alloc_ex
      then let (err, rb) = ringbuffer_init alloc_rb max_tasks TASK_DATA_SIZE;
               count = unat (word_of_int workers_count :: ull)
           in (0, Some \<lparr>ex_workers = (if alloc_wo then Some (replicate count worker_zero) else None),
                        ex_workers_count = count, ex_tasks = rb, ex_running = False\<rparr>)
      else (-1, None))"

fun start_workers :: "(nat \<Rightarrow> int) \<Rightarrow> (nat \<Rightarrow> nat) \<Rightarrow> Worker list \<Rightarrow> nat \<Rightarrow> nat \<Rightarrow> int \<Rightarrow> int \<times> Worker list" where
  \<comment> \<open>the loop of \<open>executor_start\<close>, \<open>k\<close> workers from \<open>j\<close> on\<close>
  "start_workers create tid ws j 0 err = (err, ws)"
| "start_workers create tid ws j (Suc k) err =
     (let (err, wo) = worker_init j (create j) (tid j)
      in start_workers create tid (ws[j := wo]) (j + 1) k err)"

definition executor_start ::
    "(nat \<Rightarrow> int) \<Rightarrow> (nat \<Rightarrow> nat) \<Rightarrow> 'u Executor \<Rightarrow> (int \<times> 'u Executor) option" where
  "executor_start create tid exc =
     (if ex_running exc then Some (EXECUTOR_ERROR_ALREADY_STARTED, exc)
      else let exc = exc\<lparr>ex_running := True\<rparr>
           in case ex_workers exc of
                None \<Rightarrow> if ex_workers_count exc = 0 then Some (0, exc) else None
              | Some ws \<Rightarrow>
                  (let (err, ws) = start_workers create tid ws 0 (ex_workers_count exc) 0
                   in Some (err, exc\<lparr>ex_workers := Some ws\<rparr>)))"

section \<open>Dispatch and stop\<close>

definition queue_task :: "'u Executor \<Rightarrow> TaskData \<Rightarrow> (int \<times> 'u Executor) option" where
  \<comment> \<open>\<open>ringbuffer_put (exc->tasks, &task)\<close>\<close>
  "queue_task exc task =
     (case ex_tasks exc of
        None \<Rightarrow> None
      | Some rb \<Rightarrow> map_option (\<lambda>(r, rb', sig). (r, exc\<lparr>ex_tasks := Some rb'\<rparr>))
                    (ringbuffer_put rb (task_bytes task)))"

definition stop_task :: "exec_symbols \<Rightarrow> TaskData" where
  "stop_task syms = task_zero\<lparr>td_work := StopWorker_addr syms, td_collect := StopCollect_addr syms\<rparr>"

definition executor_stop_worker :: "exec_symbols \<Rightarrow> 'u Executor \<Rightarrow> (int \<times> 'u Executor) option" where
  "executor_stop_worker syms exc = queue_task exc (stop_task syms)"

fun stop_workers :: "exec_symbols \<Rightarrow> nat \<Rightarrow> 'u Executor \<Rightarrow> 'u Executor option" where
  \<comment> \<open>the first loop of \<open>executor_stop\<close>: the results are dropped\<close>
  "stop_workers syms 0 exc = Some exc"
| "stop_workers syms (Suc k) exc =
     (case executor_stop_worker syms exc of
        None \<Rightarrow> None
      | Some (r, exc) \<Rightarrow> stop_workers syms k exc)"

definition worker_join :: "Worker \<Rightarrow> bool \<Rightarrow> int \<Rightarrow> int" where
  \<comment> \<open>the last argument: what \<open>pthread_join\<close> returns\<close>
  "worker_join wo wait rc = (if wait \<and> wo_current wo \<noteq> None then -1 else rc)"

fun join_workers :: "(nat \<Rightarrow> int) \<Rightarrow> Worker list \<Rightarrow> bool \<Rightarrow> nat \<Rightarrow> nat \<Rightarrow> int \<Rightarrow> int" where
  "join_workers rc ws wait j 0 err = err"
| "join_workers rc ws wait j (Suc k) err =
     join_workers rc ws wait (j + 1) k (worker_join (ws ! j) wait (rc j))"

definition executor_stop ::
    "exec_symbols \<Rightarrow> 'u Executor \<Rightarrow> bool \<Rightarrow> Worker list \<Rightarrow> (nat \<Rightarrow> int) \<Rightarrow> (int \<times> 'u Executor) option" where
  \<comment> \<open>\<open>ws\<close> is what the worker array holds when the workers are joined\<close>
  "executor_stop syms exc wait ws rc =
     (case stop_workers syms (ex_workers_count exc) exc of
        None \<Rightarrow> None
      | Some exc \<Rightarrow>
          (let err = (if wait then join_workers rc ws wait 0 (ex_workers_count exc) 0 else 0)
           in Some (err, exc\<lparr>ex_running := False\<rparr>)))"

definition dispatch_task :: "ull \<Rightarrow> ull \<Rightarrow> byte list \<Rightarrow> nat \<Rightarrow> int \<Rightarrow> TaskData option" where
  \<comment> \<open>the task that \<open>executor_dispatch\<close> fills in\<close>
  "dispatch_task work collect dat n timeout =
     map_option (\<lambda>src. task_zero\<lparr>td_work := work, td_collect := collect,
         td_timeout := word_of_int timeout, ud_size := of_nat n, ud_xdata := 0,
         td_data := src @ drop n (td_data task_zero)\<rparr>)
       (mem_read dat 0 n)"

definition executor_dispatch ::
    "'u Executor \<Rightarrow> ull \<Rightarrow> ull \<Rightarrow> byte list \<Rightarrow> nat \<Rightarrow> int \<Rightarrow> (int \<times> 'u Executor) option" where
  "executor_dispatch exc work collect dat n timeout =
     (if n > TASK_DATA_EMBED_MAX_SIZE then Some (EXECUTOR_ERROR_TOO_MUCH_DATA, exc)
      else if \<not> ex_running exc then Some (EXECUTOR_ERROR_NOT_RUNNING, exc)
      else (case dispatch_task work collect dat n timeout of
              None \<Rightarrow> None
            | Some task \<Rightarrow> queue_task exc task))"

definition executor_replace ::
    "int \<Rightarrow> nat \<Rightarrow> 'u Executor \<Rightarrow> nat \<Rightarrow> (int \<times> 'u Executor) option" where
  \<comment> \<open>the first two arguments: the result of \<open>pthread_create\<close> and the new thread\<close>
  "executor_replace rc tid exc worker_id =
     (if worker_id < ex_workers_count exc
      then (case ex_workers exc of
              None \<Rightarrow> None
            | Some ws \<Rightarrow> (let (ret, wo) = worker_init worker_id rc tid
                          in Some (ret, exc\<lparr>ex_workers := Some (ws[worker_id := wo])\<rparr>)))
      else Some (-1, exc))"

definition executor_free :: "'u Executor \<Rightarrow> int" where
  "executor_free exc = 0"

definition executor_set_dump ::
    "'u Executor \<Rightarrow> ('u option \<Rightarrow> byte list \<Rightarrow> 'u option) \<Rightarrow> 'u option \<Rightarrow> 'u Executor option" where
  "executor_set_dump exc dump ud =
     map_option (\<lambda>rb. exc\<lparr>ex_tasks := Some (ringbuffer_set_dump rb dump ud)\<rparr>) (ex_tasks exc)"

section \<open>Invariant and abstraction\<close>

definition exec_wf :: "'u Executor \<Rightarrow> bool" where
  "exec_wf exc \<longleftrightarrow>
     (\<exists>rb ws. ex_tasks exc = Some rb \<and> rb_wf rb \<and> rb_elem_size rb = TASK_DATA_SIZE \<and>
       ex_workers exc = Some ws \<and> length ws = ex_workers_count exc)"

definition exec_tasks :: "'u Executor \<Rightarrow> TaskData list" where
  "exec_tasks exc = (case ex_tasks exc of None \<Rightarrow> [] | Some rb \<Rightarrow> map task_of_bytes (rb_contents rb))"

definition exec_room :: "'u Executor \<Rightarrow> nat" where
  \<comment> \<open>the free slots of the queue\<close>
  "exec_room exc = (case ex_tasks exc of None \<Rightarrow> 0 | Some rb \<Rightarrow> rb_capacity rb - length (rb_contents rb))"

lemma queue_task_law:
  assumes wf: "exec_wf exc" and t: "task_ok t"
  shows "\<exists>exc'. queue_task exc t = Some (if 0 < exec_room exc then 0 else -1, exc') \<and> exec_wf exc' \<and>
    exec_tasks exc' = (if 0 < exec_room exc then exec_tasks exc @ [t] else exec_tasks exc) \<and>
    exec_room exc' = exec_room exc - 1 \<and>
    ex_workers exc' = ex_workers exc \<and> ex_workers_count exc' = ex_workers_count exc \<and>
    ex_running exc' = ex_running exc \<and> (exec_room exc = 0 \<longrightarrow> exc' = exc)"
proof -
  obtain rb ws where rb: "ex_tasks exc = Some rb" "rb_wf rb" "rb_elem_size rb = 128"
      "ex_workers exc = Some ws" "length ws = ex_workers_count exc"
    using wf by (auto simp: exec_wf_def)
  have len: "length (task_bytes t) = rb_elem_size rb" using task_bytes_length [OF t] rb by simp
  show ?thesis
  proof (cases "rb_is_full rb")
    case True
    have room: "exec_room exc = 0" using True rb by (simp add: exec_room_def rb_is_full_def rb_contents_def)
    have same: "exc\<lparr>ex_tasks := Some rb\<rparr> = exc" using rb(1) by (cases exc) simp
    show ?thesis
      using rb wf True by (simp add: queue_task_def ringbuffer_put_full same room)
  next
    case False
    then have "rb_used rb < rb_size rb" using rb by (simp add: rb_is_full_def rb_wf_def)
    then obtain rb' where rb': "ringbuffer_put rb (task_bytes t) = Some (0, rb', rb_waiters rb > 0)"
        "rb_wf rb'" "rb_contents rb' = rb_contents rb @ [task_bytes t]" "rb_size rb' = rb_size rb"
        "rb_elem_size rb' = rb_elem_size rb"
      using ringbuffer_put_room [OF rb(2) _ len] by metis
    have room: "0 < exec_room exc"
      using False rb_contents_full [OF rb(2)] rb by (simp add: exec_room_def)
    have "exec_room (exc\<lparr>ex_tasks := Some rb'\<rparr>) = exec_room exc - 1"
      using rb rb' by (simp add: exec_room_def)
    then show ?thesis
      using rb rb' room by (simp add: queue_task_def exec_wf_def exec_tasks_def task_codec)
  qed
qed

lemma stop_task_ok [simp]: "task_ok (stop_task syms)"
  by (simp add: stop_task_def task_zero_def task_ok_def)

lemma stop_workers_law:
  "exec_wf exc \<Longrightarrow> \<exists>exc'. stop_workers syms k exc = Some exc' \<and> exec_wf exc' \<and>
    exec_tasks exc' = exec_tasks exc @ replicate (min k (exec_room exc)) (stop_task syms) \<and>
    ex_running exc' = ex_running exc \<and> ex_workers exc' = ex_workers exc \<and>
    ex_workers_count exc' = ex_workers_count exc"
proof (induction k arbitrary: exc)
  case 0
  then show ?case by simp
next
  case (Suc k)
  from queue_task_law [OF Suc.prems stop_task_ok, of syms]
  obtain exc1 where 1: "queue_task exc (stop_task syms) = Some (if 0 < exec_room exc then 0 else -1, exc1)"
      "exec_wf exc1" "exec_room exc1 = exec_room exc - 1" "ex_workers exc1 = ex_workers exc"
      "ex_workers_count exc1 = ex_workers_count exc" "ex_running exc1 = ex_running exc"
      "exec_tasks exc1 = (if 0 < exec_room exc then exec_tasks exc @ [stop_task syms] else exec_tasks exc)"
    by metis
  have "min (Suc k) (exec_room exc) = (if 0 < exec_room exc then Suc (min k (exec_room exc1)) else 0)"
    using 1(3) by auto
  then show ?case
    using Suc.IH [OF 1(2)] 1 by (auto simp: executor_stop_worker_def replicate_append_same)
qed

lemma dispatch_task_data:
  assumes "length dat = n" and "n \<le> TASK_DATA_EMBED_MAX_SIZE"
  obtains t where "dispatch_task work collect dat n timeout = Some t" "task_ok t"
    "td_work t = work" "td_collect t = collect" "td_timeout t = word_of_int timeout" "td_discarded t = 0"
    "ud_xdata t = 0" "ud_size t = of_nat n" "td_data t = dat @ replicate (TASK_DATA_EMBED_MAX_SIZE - n) 0"
  using assms
  by (intro that) (auto simp: dispatch_task_def mem_read_def task_zero_def task_ok_def)

section \<open>Properties\<close>

lemma executor_dispatch_cases:
  assumes "exec_wf exc" and "length dat = n"
  shows "\<exists>r exc'. executor_dispatch exc work collect dat n timeout = Some (r, exc') \<and> exec_wf exc' \<and>
    r = (if n > 88 then EXECUTOR_ERROR_TOO_MUCH_DATA
         else if \<not> ex_running exc \<or> exec_room exc = 0 then EXECUTOR_ERROR_NOT_RUNNING else 0) \<and>
    (if r = 0
     then (\<exists>t. exec_tasks exc' = exec_tasks exc @ [t] \<and> td_work t = work \<and> td_collect t = collect \<and>
            td_timeout t = word_of_int timeout \<and> td_discarded t = 0 \<and> ud_xdata t = 0 \<and>
            td_data t = dat @ replicate (88 - n) 0)
     else exc' = exc)"
proof (cases "n > 88 \<or> \<not> ex_running exc")
  case True
  then show ?thesis
    using assms(1) by (auto simp: executor_dispatch_def TASK_DATA_EMBED_MAX_SIZE_def)
next
  case False
  then obtain t where t: "dispatch_task work collect dat n timeout = Some t" "task_ok t"
      "td_work t = work" "td_collect t = collect" "td_timeout t = word_of_int timeout" "td_discarded t = 0"
      "ud_xdata t = 0" "td_data t = dat @ replicate (88 - n) 0"
    using dispatch_task_data [OF assms(2), of work collect timeout]
    by (auto simp: TASK_DATA_EMBED_MAX_SIZE_def)
  have d: "executor_dispatch exc work collect dat n timeout = queue_task exc t"
    using False t(1) by (simp add: executor_dispatch_def TASK_DATA_EMBED_MAX_SIZE_def)
  show ?thesis
    using queue_task_law [OF assms(1) t(2)] False t by (auto simp: d)
qed

text \<open>C19: what \<open>executor_dispatch\<close> does on every branch, for data of the size it is told: more than 88 bytes is
  \<^verbatim>\<open>EXECUTOR_ERROR_TOO_MUCH_DATA\<close>; an executor that does not run is \<^verbatim>\<open>EXECUTOR_ERROR_NOT_RUNNING\<close>, both
  without a change; otherwise, with room in the queue, exactly one task is appended, which
  carries the functions, the time-out and the data (zero-padded, embedded), and 0 is returned. A full queue
  changes nothing and returns -1: the value of \<^verbatim>\<open>EXECUTOR_ERROR_NOT_RUNNING\<close>, not of
  \<^verbatim>\<open>EXECUTOR_ERROR_TOO_MANY_TASKS\<close>, which no path returns.\<close>

theorem executor_dispatch_result:
  assumes "exec_wf exc" and "length dat = n"
  shows "\<exists>r exc'. executor_dispatch exc work collect dat n timeout = Some (r, exc') \<and> exec_wf exc' \<and>
    r = (if n > 88 then EXECUTOR_ERROR_TOO_MUCH_DATA
         else if \<not> ex_running exc \<or> exec_room exc = 0 then EXECUTOR_ERROR_NOT_RUNNING else 0) \<and>
    (if r = 0
     then (\<exists>t. exec_tasks exc' = exec_tasks exc @ [t] \<and> td_work t = work \<and> td_collect t = collect \<and>
            td_timeout t = word_of_int timeout \<and> td_discarded t = 0 \<and> ud_xdata t = 0 \<and>
            td_data t = dat @ replicate (88 - n) 0)
     else exc' = exc)"
  using assms by (rule executor_dispatch_cases)

definition ex_running_exec :: "unit Executor" where
  \<comment> \<open>two workers, a queue of one, started\<close>
  "ex_running_exec =
     (case executor_init True True True 2 1 of (_, Some exc) \<Rightarrow>
       (case executor_start (\<lambda>j. 0) (\<lambda>j. j) exc of Some (_, exc) \<Rightarrow> exc))"

lemma executor_init_wf:
  assumes "0 < m" and "m * 128 \<le> INT_MAX" and "executor_init True True True n m = (0, Some (exc :: 'u Executor))"
  shows "exec_wf exc" and "exec_tasks exc = []" and "exec_room exc = nat m" and "\<not> ex_running exc"
proof -
  note rb = rb_new_wf [of m 128]
  have "ringbuffer_init True m 128 = (0, Some (rb_new m 128 :: 'u RingBuffer))"
    by (simp add: rb_new_def ringbuffer_init_def)
  with assms(3) have "exc = \<lparr>ex_workers = Some (replicate (unat (word_of_int n :: ull)) worker_zero),
      ex_workers_count = unat (word_of_int n :: ull), ex_tasks = Some (rb_new m 128), ex_running = False\<rparr>"
    by (simp add: executor_init_def Let_def)
  then show "exec_wf exc" "exec_tasks exc = []" "exec_room exc = nat m" "\<not> ex_running exc"
    using assms(1,2) by (simp_all add: exec_wf_def exec_tasks_def exec_room_def rb)
qed

lemma start_workers_length: "length (snd (start_workers create tid ws j k err)) = length ws"
  by (induction create tid ws j k err rule: start_workers.induct) (auto simp: Let_def split: prod.splits)

lemma start_workers_err:
  "fst (start_workers create tid ws j k err) = (if k = 0 then err else create (j + k - 1))"
proof (induction create tid ws j k err rule: start_workers.induct)
  case (2 create tid ws j k err)
  then show ?case by (cases k) (auto simp: worker_init_def)
qed simp

lemma start_workers_nth:
  "j + k \<le> length ws \<Longrightarrow> snd (start_workers create tid ws j k err) ! i =
    (if j \<le> i \<and> i < j + k then snd (worker_init i (create i) (tid i)) else ws ! i)"
proof (induction create tid ws j k err rule: start_workers.induct)
  case (2 create tid ws j k err)
  then show ?case by (auto simp: worker_init_def nth_list_update not_less_eq_eq dest: le_antisym)
qed auto

lemma ex_running_exec_facts:
  "exec_wf ex_running_exec" "exec_tasks ex_running_exec = []" "exec_room ex_running_exec = 1"
  "ex_running ex_running_exec"
proof -
  obtain exc :: "unit Executor" where i: "executor_init True True True 2 1 = (0, Some exc)"
    by (simp add: executor_init_def ringbuffer_init_def Let_def)
  note wf = executor_init_wf [OF _ _ i]
  have c: "ex_workers_count exc = 2" "ex_workers exc = Some (replicate 2 worker_zero)"
    using i by (auto simp: executor_init_def Let_def split: prod.splits)
  have eq: "ex_running_exec = exc\<lparr>ex_running := True,
      ex_workers := Some (snd (start_workers (\<lambda>j. 0) (\<lambda>j. j) (replicate 2 worker_zero) 0 2 0))\<rparr>"
    using i wf(4) c by (simp add: ex_running_exec_def executor_start_def INT_MAX_def split: prod.splits)
  then show "exec_wf ex_running_exec" "exec_tasks ex_running_exec = []"
      "exec_room ex_running_exec = 1" "ex_running ex_running_exec"
    unfolding eq using wf c
    by (auto simp: exec_wf_def exec_tasks_def exec_room_def start_workers_length INT_MAX_def)
qed

theorem executor_dispatch_result_witness:
  "\<exists>exc t. executor_dispatch ex_running_exec 7 8 [1, 2] 2 100 = Some (0, exc) \<and> exec_tasks exc = [t] \<and>
    td_work t = 7 \<and> td_data t = [1, 2] @ replicate 86 0"
  using executor_dispatch_result [OF ex_running_exec_facts(1), of "[1, 2]" 2 7 8 100]
    ex_running_exec_facts by auto

lemma executor_start_cases:
  assumes "exec_wf exc" and "0 < ex_workers_count exc"
  shows "\<exists>r exc' ws. executor_start create tid exc = Some (r, exc') \<and> exec_wf exc' \<and>
    exec_tasks exc' = exec_tasks exc \<and> ex_workers exc' = Some ws \<and> ex_tasks exc' = ex_tasks exc \<and>
    ex_workers_count exc' = ex_workers_count exc \<and>
    (if ex_running exc then r = EXECUTOR_ERROR_ALREADY_STARTED \<and> exc' = exc
     else ex_running exc' \<and> r = create (ex_workers_count exc - 1) \<and>
       (\<forall>i < ex_workers_count exc. ws ! i =
          \<lparr>wo_id = i, wo_thread = (if create i = 0 then Some (tid i) else None),
           wo_sched_id = 0, wo_current = None\<rparr>))"
proof -
  obtain ws where ws: "ex_workers exc = Some ws" "length ws = ex_workers_count exc"
    using assms(1) by (auto simp: exec_wf_def)
  let ?r = "start_workers create tid ws 0 (ex_workers_count exc) 0"
  have "executor_start create tid exc = (if ex_running exc then Some (-2, exc)
      else Some (fst ?r, exc\<lparr>ex_running := True, ex_workers := Some (snd ?r)\<rparr>))"
    using ws by (simp add: executor_start_def split: prod.splits)
  then show ?thesis
    using ws assms start_workers_err [of create tid ws 0 "ex_workers_count exc" 0]
    by (auto simp: exec_wf_def exec_tasks_def start_workers_length start_workers_nth worker_init_def
        worker_zero_def)
qed

text \<open>C20: what \<open>executor_start\<close> returns: on a running executor \<^verbatim>\<open>EXECUTOR_ERROR_ALREADY_STARTED\<close> without a change.
  Otherwise it runs from then on, every worker is initialised with its index and no current task, and the result is
  that of the last \<open>pthread_create\<close> alone: the failures of the workers before it are not reported.\<close>

theorem executor_start_result:
  assumes "exec_wf exc" and "0 < ex_workers_count exc"
  shows "\<exists>r exc' ws. executor_start create tid exc = Some (r, exc') \<and> exec_wf exc' \<and>
    exec_tasks exc' = exec_tasks exc \<and> ex_workers exc' = Some ws \<and>
    (if ex_running exc then r = EXECUTOR_ERROR_ALREADY_STARTED \<and> exc' = exc
     else ex_running exc' \<and> r = create (ex_workers_count exc - 1) \<and>
       (\<forall>i < ex_workers_count exc. ws ! i =
          \<lparr>wo_id = i, wo_thread = (if create i = 0 then Some (tid i) else None),
           wo_sched_id = 0, wo_current = None\<rparr>))"
  using executor_start_cases [OF assms, of create tid] by blast

theorem executor_start_result_witness:
  "\<exists>exc'. executor_start (\<lambda>j. 0) (\<lambda>j. j) ex_running_exec = Some (-2, exc') \<and> exec_tasks exc' = []"
proof -
  have "0 < ex_workers_count ex_running_exec" by code_simp
  from executor_start_result [OF ex_running_exec_facts(1) this, of "\<lambda>j. 0" "\<lambda>j. j"]
  show ?thesis using ex_running_exec_facts by auto
qed


definition syms0 :: exec_symbols where
  "syms0 = \<lparr>StopWorker_addr = 1, StopCollect_addr = 2\<rparr>"


text \<open>\<open>executor_init\<close> ignores the failure of the queue: it returns 0 with no queue at all, and on such an
  executor, once started, the dispatch of a task and the stop of a worker use a NULL ring buffer.\<close>

lemma executor_init_ignores_queue:
  assumes "executor_init True False True n m = (r, exc :: 'a Executor option)"
  shows "r = 0 \<and> (\<exists>ex. exc = Some ex \<and> executor_stop_worker syms ex = None \<and>
    (\<exists>r' ex'. executor_start create tid ex = Some (r', ex') \<and>
       executor_dispatch ex' work collect [] 0 timeout = None))"
proof -
  let ?c = "unat (word_of_int n :: ull)"
  define ex where "ex = \<lparr>ex_workers = Some (replicate ?c worker_zero), ex_workers_count = ?c,
    ex_tasks = None :: 'a RingBuffer option, ex_running = False\<rparr>"
  have r: "r = 0" "exc = Some ex"
    using assms by (simp_all add: executor_init_def ringbuffer_init_def ex_def Let_def)
  obtain r' ws where "start_workers create tid (replicate ?c worker_zero) 0 ?c 0 = (r', ws)"
    by (metis prod.collapse)
  then have "executor_start create tid ex = Some (r', ex\<lparr>ex_running := True, ex_workers := Some ws\<rparr>)"
    by (simp add: executor_start_def ex_def)
  then show ?thesis
    using r by (simp add: executor_stop_worker_def queue_task_def executor_dispatch_def
        dispatch_task_def mem_read_def ex_def)
qed

lemma executor_init_ignores_queue_example:
  "fst (executor_init True False True 5 1000 :: int \<times> unit Executor option) = 0"
  using executor_init_ignores_queue [of 5 1000, OF prod.collapse [symmetric]] by blast

end
