(* ===== verification/Vminfo.thy ===== *)
theory Vminfo
  imports C_String
begin

text \<open>
  The VM statistics of \<^verbatim>\<open>lib/vminfo.h\<close> and \<^verbatim>\<open>lib/vminfo.c\<close>: the records, their
  initialisation and release, and the disk usage events. A pointer that owns a block of the
  heap is NULL, a block, or a pointer whose block was freed; freeing it again, or reading
  through it or past the end of an array, is \<open>None\<close>.
\<close>

section \<open>Owned pointers\<close>

datatype 'a ptr = Null | Block 'a | Freed

fun c_free :: "'a ptr \<Rightarrow> 'a ptr option" where
  "c_free Null = Some Null"
| "c_free (Block x) = Some Freed"
| "c_free Freed = None"

section \<open>The records\<close>

abbreviation STATS_NAME_LEN :: nat where "STATS_NAME_LEN \<equiv> 128"
abbreviation BLOCK_STATS_NUM :: nat where "BLOCK_STATS_NUM \<equiv> 8"
abbreviation IFACE_STATS_NUM :: nat where "IFACE_STATS_NUM \<equiv> 8"
abbreviation VCPU_STATS_NUM :: nat where "VCPU_STATS_NUM \<equiv> 16"

record BlockStats =
  bs_xname :: "string ptr"
  bs_name :: string
  rd_reqs :: ull
  rd_bytes :: ull
  rd_times :: ull
  wr_reqs :: ull
  wr_bytes :: ull
  wr_times :: ull
  fl_bytes :: ull
  fl_times :: ull
  allocation :: ull
  capacity :: ull
  physical :: ull

record IfaceStats =
  is_xname :: "string ptr"
  is_name :: string
  rx_bytes :: ull
  rx_pkts :: ull
  rx_errs :: ull
  rx_drop :: ull
  tx_bytes :: ull
  tx_pkts :: ull
  tx_errs :: ull
  tx_drop :: ull

record VCpuStats =
  vs_present :: bool
  vs_state :: int
  vs_time :: ull

text \<open>The three device tables: a count, an array for many devices, an array for few.\<close>

record 's devices =
  nstats :: nat
  xstats :: "'s list ptr"
  stats :: "'s list"

type_synonym BlockInfo = "BlockStats devices"
type_synonym IfaceInfo = "IfaceStats devices"

record VCpuInfo = "VCpuStats devices" +
  vcpu_current :: nat

record PCpuInfo =
  pc_time :: ull
  pc_user :: ull
  pc_system :: ull

record BalloonInfo =
  ba_current :: ull
  ba_maximum :: ull

record StateInfo =
  st_state :: int
  st_reason :: int

record VmInfo =
  vm_uuid :: string
  vm_state :: StateInfo
  vm_pcpu :: PCpuInfo
  vm_balloon :: BalloonInfo
  vm_vcpu :: VCpuInfo
  vm_block :: BlockInfo
  vm_iface :: IfaceInfo

record VmChecks =
  disk_usage_perc :: int

definition zero_block :: BlockStats where
  "zero_block = \<lparr>bs_xname = Null, bs_name = [], rd_reqs = 0, rd_bytes = 0, rd_times = 0,
     wr_reqs = 0, wr_bytes = 0, wr_times = 0, fl_bytes = 0, fl_times = 0,
     allocation = 0, capacity = 0, physical = 0\<rparr>"

definition zero_iface :: IfaceStats where
  "zero_iface = \<lparr>is_xname = Null, is_name = [], rx_bytes = 0, rx_pkts = 0, rx_errs = 0,
     rx_drop = 0, tx_bytes = 0, tx_pkts = 0, tx_errs = 0, tx_drop = 0\<rparr>"

definition zero_vcpu :: VCpuStats where
  "zero_vcpu = \<lparr>vs_present = False, vs_state = 0, vs_time = 0\<rparr>"

definition vminfo_init :: VmInfo where
  \<comment> \<open>every byte 0\<close>
  "vminfo_init = \<lparr>vm_uuid = [], vm_state = \<lparr>st_state = 0, st_reason = 0\<rparr>,
     vm_pcpu = \<lparr>pc_time = 0, pc_user = 0, pc_system = 0\<rparr>,
     vm_balloon = \<lparr>ba_current = 0, ba_maximum = 0\<rparr>,
     vm_vcpu = \<lparr>nstats = 0, xstats = Null, stats = replicate VCPU_STATS_NUM zero_vcpu,
                vcpu_current = 0\<rparr>,
     vm_block = \<lparr>nstats = 0, xstats = Null, stats = replicate BLOCK_STATS_NUM zero_block\<rparr>,
     vm_iface = \<lparr>nstats = 0, xstats = Null, stats = replicate IFACE_STATS_NUM zero_iface\<rparr>\<rparr>"

section \<open>The array in use\<close>

definition device_array :: "('s, 'm) devices_scheme \<Rightarrow> 's list" where
  \<comment> \<open>\<open>(xstats) ? xstats : stats\<close>; nothing can be read through a freed pointer\<close>
  "device_array d = (case xstats d of Null \<Rightarrow> stats d | Block xs \<Rightarrow> xs | Freed \<Rightarrow> [])"

definition set_device_array :: "('s, 'm) devices_scheme \<Rightarrow> 's list \<Rightarrow> ('s, 'm) devices_scheme" where
  "set_device_array d xs =
     (case xstats d of Null \<Rightarrow> d\<lparr>stats := xs\<rparr> | Block _ \<Rightarrow> d\<lparr>xstats := Block xs\<rparr> | Freed \<Rightarrow> d)"

definition stats_at :: "('s, 'm) devices_scheme \<Rightarrow> nat \<Rightarrow> 's option" where
  "stats_at d i = (if i < length (device_array d) then Some (device_array d ! i) else None)"

definition devices_wf :: "('s, 'm) devices_scheme \<Rightarrow> bool" where
  "devices_wf d \<longleftrightarrow> nstats d \<le> length (device_array d)"

section \<open>Release\<close>

definition vcpuinfo_free :: "VCpuInfo \<Rightarrow> VCpuInfo option" where
  "vcpuinfo_free vcpu = map_option (\<lambda>p. vcpu\<lparr>xstats := p\<rparr>) (c_free (xstats vcpu))"

fun free_xnames :: "('s \<Rightarrow> string ptr) \<Rightarrow> (string ptr \<Rightarrow> 's \<Rightarrow> 's) \<Rightarrow> 's list \<Rightarrow> nat \<Rightarrow> nat \<Rightarrow> 's list option" where
  \<comment> \<open>the loop over \<open>i < n\<close>, with \<open>k\<close> turns left\<close>
  "free_xnames get put xs i 0 = Some xs"
| "free_xnames get put xs i (Suc k) =
     (if i < length xs
      then do { p \<leftarrow> c_free (get (xs ! i)); free_xnames get put (xs[i := put p (xs ! i)]) (Suc i) k }
      else None)"

definition blockinfo_free :: "BlockInfo \<Rightarrow> BlockInfo option" where
  "blockinfo_free block = do {
     xs \<leftarrow> free_xnames bs_xname (\<lambda>p s. s\<lparr>bs_xname := p\<rparr>) (device_array block) 0 (nstats block);
     let block = set_device_array block xs;
     p \<leftarrow> c_free (xstats block);
     Some (block\<lparr>xstats := p\<rparr>) }"

definition ifaceinfo_free :: "IfaceInfo \<Rightarrow> IfaceInfo option" where
  "ifaceinfo_free iface = do {
     xs \<leftarrow> free_xnames is_xname (\<lambda>p s. s\<lparr>is_xname := p\<rparr>) (device_array iface) 0 (nstats iface);
     let iface = set_device_array iface xs;
     p \<leftarrow> c_free (xstats iface);
     Some (iface\<lparr>xstats := p\<rparr>) }"

definition vminfo_free :: "VmInfo \<Rightarrow> VmInfo option" where
  "vminfo_free vm = do {
     vcpu \<leftarrow> vcpuinfo_free (vm_vcpu vm);
     block \<leftarrow> blockinfo_free (vm_block vm);
     iface \<leftarrow> ifaceinfo_free (vm_iface vm);
     Some (vm\<lparr>vm_vcpu := vcpu, vm_block := block, vm_iface := iface\<rparr>) }"

section \<open>Disk usage events\<close>

definition bs_device_name :: "BlockStats \<Rightarrow> string" where
  \<comment> \<open>\<open>(stats->xname) ? stats->xname : stats->name\<close>\<close>
  "bs_device_name st = (case bs_xname st of Block n \<Rightarrow> n | _ \<Rightarrow> bs_name st)"

definition vm_send_event_block :: "string \<Rightarrow> BlockStats \<Rightarrow> string" where
  \<open>vm_send_event_block type st =
     ''{"event": "'' @ type @ ''",'' @
     '' "class": "block",'' @
     '' "device": "'' @ bs_device_name st @ ''",'' @
     '' "allocation": '' @ dec (unat (allocation st)) @ '','' @
     '' "capacity": '' @ dec (unat (capacity st)) @ '','' @
     '' "physical": '' @ dec (unat (physical st)) @ ''}''\<close>

abbreviation MEGAB :: int where "MEGAB \<equiv> 1024 * 1024"
abbreviation CHUNK :: int where "CHUNK \<equiv> 1024 * 2"

definition disk_usage_threshold :: "int \<Rightarrow> ull" where
  \<comment> \<open>\<open>int\<close> arithmetic, then converted to \<open>unsigned long long\<close>\<close>
  "disk_usage_threshold perc = word_of_int (c_div (to_int32 (to_int32 (perc * CHUNK) * MEGAB)) 100)"

definition vm_check_triggered_usage_threshold :: "BlockStats \<Rightarrow> int \<Rightarrow> bool" where
  "vm_check_triggered_usage_threshold st perc \<longleftrightarrow>
     physical st - allocation st < disk_usage_threshold perc"

fun send_events_loop :: "BlockInfo \<Rightarrow> int \<Rightarrow> nat \<Rightarrow> string option" where
  \<comment> \<open>\<open>k\<close> turns left; \<open>stats\<close> stays at the first element of the array\<close>
  "send_events_loop block perc 0 = Some []"
| "send_events_loop block perc (Suc k) = do {
     st \<leftarrow> stats_at block 0;
     rest \<leftarrow> send_events_loop block perc k;
     Some (if vm_check_triggered_usage_threshold st perc
           then vm_send_event_block ''usage-threshold'' st @ rest else rest) }"

definition vminfo_send_events :: "VmInfo \<Rightarrow> VmChecks \<Rightarrow> string option" where
  \<comment> \<open>what is written to \<open>out\<close>; the return value is always 0\<close>
  "vminfo_send_events vm checks =
     send_events_loop (vm_block vm) (disk_usage_perc checks) (nstats (vm_block vm))"

section \<open>Properties\<close>

lemma disk_usage_threshold_parity:
  assumes "0 \<le> perc" and "perc \<le> 99"
  shows "disk_usage_threshold perc = (if odd perc then - 21474836 else 0)"
proof -
  have "to_int32 (perc * CHUNK) = perc * 2048"
    using assms by (simp add: to_int32_id INT_MAX_def)
  then have e: "disk_usage_threshold perc = word_of_int (c_div (to_int32 (perc * 2 ^ 31)) 100)"
    by (simp add: disk_usage_threshold_def mult.commute)
  obtain k where "perc = 2 * k \<or> perc = 2 * k + 1" by (metis oddE evenE)
  moreover have "(2 * k * 2 ^ 31 + 2 ^ 31) mod 2 ^ 32 = (2 ^ 31 :: int)"
    using mod_mult_self1 [of "2 ^ 31" k "2 ^ 32 :: int"] by (simp add: algebra_simps)
  moreover have "((2 * k + 1) * 2 ^ 31 + 2 ^ 31) mod 2 ^ 32 = (0 :: int)"
    using mod_mult_self1 [of 0 "k + 1" "2 ^ 32 :: int"] by (simp add: algebra_simps)
  ultimately have "to_int32 (perc * 2 ^ 31) = (if odd perc then - (2 ^ 31) else 0)"
    by (auto simp: to_int32_alt)
  then show ?thesis by (simp add: e c_div_def)
qed

lemma free_xnames_ok:
  assumes put: "\<And>p s. get (put p s) = p" and "i + k \<le> length xs"
    and "\<forall>j. i \<le> j \<and> j < i + k \<longrightarrow> get (xs ! j) \<noteq> Freed"
  shows "\<exists>ys. free_xnames get put xs i k = Some ys \<and> length ys = length xs \<and>
    (\<forall>j < length xs. if i \<le> j \<and> j < i + k
      then get (ys ! j) = (if get (xs ! j) = Null then Null else Freed) else ys ! j = xs ! j)"
  using assms(2,3)
proof (induction k arbitrary: i xs)
  case 0
  then show ?case by simp
next
  case (Suc k)
  let ?p = "if get (xs ! i) = Null then Null else Freed"
  let ?xs = "xs[i := put ?p (xs ! i)]"
  have i: "i < length xs" "c_free (get (xs ! i)) = Some ?p"
    using Suc.prems by (simp, cases "get (xs ! i)") auto
  have "\<forall>j. Suc i \<le> j \<and> j < Suc i + k \<longrightarrow> get (?xs ! j) \<noteq> Freed"
    using Suc.prems(2) by (auto simp: nth_list_update)
  then obtain ys where ys: "free_xnames get put ?xs (Suc i) k = Some ys" "length ys = length xs"
      "\<forall>j < length xs. if Suc i \<le> j \<and> j < Suc i + k
        then get (ys ! j) = (if get (?xs ! j) = Null then Null else Freed) else ys ! j = ?xs ! j"
    using Suc.IH [of "Suc i" ?xs] Suc.prems(1) by auto
  have "if i \<le> j \<and> j < i + Suc k
      then get (ys ! j) = (if get (xs ! j) = Null then Null else Freed) else ys ! j = xs ! j"
    if "j < length xs" for j
    using ys(3) that i(1) put by (auto simp: nth_list_update split: if_splits)
  then show ?case using i ys(1,2) by auto
qed

text \<open>The disk usage threshold is computed in \<^verbatim>\<open>int\<close>: for every percentage the command
  line accepts, except 0, the product leaves the range of \<^verbatim>\<open>int\<close>. What two's complement
  leaves of it makes the check independent of the percentage beyond its parity: an even one
  never triggers, an odd one triggers unless less than 21474836 bytes are missing from
  \<open>2^64\<close> in the unsigned difference.\<close>
lemma usage_threshold_overflows:
  assumes "0 \<le> perc" and "perc \<le> 99"
  shows "(perc \<noteq> 0 \<longrightarrow> INT_MAX < perc * CHUNK * MEGAB) \<and>
    (vm_check_triggered_usage_threshold st perc \<longleftrightarrow>
      odd perc \<and> unat (physical st - allocation st) < 2 ^ 64 - 21474836)"
proof -
  have "perc \<noteq> 0 \<longrightarrow> INT_MAX < perc * CHUNK * MEGAB" using assms by (simp add: INT_MAX_def)
  moreover have "unat (- 21474836 :: ull) = 2 ^ 64 - 21474836" by simp
  ultimately show ?thesis
    by (auto simp: vm_check_triggered_usage_threshold_def disk_usage_threshold_parity [OF assms]
        word_less_nat_alt)
qed

lemma usage_threshold_overflows_example:
  "vm_check_triggered_usage_threshold (zero_block\<lparr>physical := 1000000000000\<rparr>) 1 \<and>
   \<not> vm_check_triggered_usage_threshold zero_block 80"
  using usage_threshold_overflows [of 1 "zero_block\<lparr>physical := 1000000000000\<rparr>"]
    usage_threshold_overflows [of 80 zero_block]
  by (simp add: zero_block_def)

lemma send_events_loop_first:
  "stats_at block 0 = Some st \<Longrightarrow> send_events_loop block perc k =
     Some (if vm_check_triggered_usage_threshold st perc
           then concat (replicate k (vm_send_event_block ''usage-threshold'' st)) else [])"
  by (induction k) auto

text \<open>C36: The loop over the block devices never leaves the first one: whatever the other devices
  hold, the events sent are the first device's event once per device if the first device is over
  the threshold, and none otherwise; so a device behind the first one is never reported.\<close>
theorem send_events_first_device_only:
  assumes "devices_wf (vm_block vm)" and "nstats (vm_block vm) = Suc n"
  shows "\<exists>st. stats_at (vm_block vm) 0 = Some st \<and> vminfo_send_events vm checks =
    Some (if vm_check_triggered_usage_threshold st (disk_usage_perc checks)
          then concat (replicate (Suc n) (vm_send_event_block ''usage-threshold'' st)) else [])"
proof -
  have "device_array (vm_block vm) \<noteq> []" using assms by (auto simp: devices_wf_def)
  then obtain st where st: "stats_at (vm_block vm) 0 = Some st" by (simp add: stats_at_def)
  from send_events_loop_first [OF st, of "disk_usage_perc checks" "Suc n"] st assms(2)
  show ?thesis by (simp add: vminfo_send_events_def)
qed

theorem send_events_first_device_only_witness:
  "vminfo_send_events (vminfo_init\<lparr>vm_block := \<lparr>nstats = 2, xstats = Null,
      stats = [zero_block, zero_block\<lparr>physical := 10000, allocation := 9999\<rparr>]\<rparr>\<rparr>)
    \<lparr>disk_usage_perc = 80\<rparr> = Some []"
  using send_events_first_device_only [of "vminfo_init\<lparr>vm_block := \<lparr>nstats = 2, xstats = Null,
      stats = [zero_block, zero_block\<lparr>physical := 10000, allocation := 9999\<rparr>]\<rparr>\<rparr>" 1
      "\<lparr>disk_usage_perc = 80\<rparr>"]
  by (simp add: devices_wf_def device_array_def stats_at_def
      vm_check_triggered_usage_threshold_def disk_usage_threshold_parity)

definition devices_owned :: "('s \<Rightarrow> string ptr) \<Rightarrow> 's devices \<Rightarrow> bool" where
  \<comment> \<open>no pointer that a release follows was freed before\<close>
  "devices_owned get d \<longleftrightarrow> devices_wf d \<and> xstats d \<noteq> Freed \<and>
     (\<forall>j < nstats d. get (device_array d ! j) \<noteq> Freed)"

definition devices_released :: "('s \<Rightarrow> string ptr) \<Rightarrow> 's devices \<Rightarrow> bool" where
  "devices_released get d \<longleftrightarrow> (\<forall>xs. xstats d \<noteq> Block xs) \<and>
     (xstats d = Null \<longrightarrow> (\<forall>j < nstats d. \<forall>n. get (stats d ! j) \<noteq> Block n))"

lemma devices_free:
  assumes "devices_owned get d" and put: "\<And>p s. get (put p s) = p"
  shows "\<exists>xs p. free_xnames get put (device_array d) 0 (nstats d) = Some xs \<and>
    c_free (xstats (set_device_array d xs)) = Some p \<and>
    devices_released get ((set_device_array d xs)\<lparr>xstats := p\<rparr>)"
proof -
  obtain xs where xs: "free_xnames get put (device_array d) 0 (nstats d) = Some xs"
      "length xs = length (device_array d)" "\<forall>j < nstats d. get (xs ! j) \<noteq> Block n" for n
    using free_xnames_ok [of get put 0 "nstats d" "device_array d"] assms
    by (fastforce simp: devices_owned_def devices_wf_def split: if_splits)
  then show ?thesis
    using assms(1)
    by (cases "xstats d") (auto simp: devices_owned_def devices_released_def set_device_array_def)
qed

lemma vminfo_free_cases:
  assumes "devices_owned bs_xname (vm_block vm)" and "devices_owned is_xname (vm_iface vm)"
  shows "if xstats (vm_vcpu vm) = Freed then vminfo_free vm = None
    else \<exists>vm'. vminfo_free vm = Some vm' \<and> devices_released bs_xname (vm_block vm') \<and>
      devices_released is_xname (vm_iface vm') \<and> (\<forall>xs. xstats (vm_vcpu vm') \<noteq> Block xs)"
proof (cases "xstats (vm_vcpu vm) = Freed")
  case True
  then show ?thesis by (simp add: vminfo_free_def vcpuinfo_free_def)
next
  case False
  then obtain p where "c_free (xstats (vm_vcpu vm)) = Some p" "\<forall>xs. p \<noteq> Block xs"
    by (cases "xstats (vm_vcpu vm)") auto
  moreover note devices_free [OF assms(1), of "\<lambda>p s. s\<lparr>bs_xname := p\<rparr>"]
    devices_free [OF assms(2), of "\<lambda>p s. s\<lparr>is_xname := p\<rparr>"]
  ultimately show ?thesis
    using False
    by (auto simp: vminfo_free_def vcpuinfo_free_def blockinfo_free_def ifaceinfo_free_def Let_def)
qed



end
