(* ===== verification/Vminfo_Parse.thy ===== *)
theory Vminfo_Parse
  imports Vminfo
begin

text \<open>
  The parser of libvirt's bulk statistics (\<^verbatim>\<open>lib/vminfo_parse.c\<close>): a record of typed
  parameters is read into a \<^verbatim>\<open>VmInfo\<close>. The value of a parameter is a C union: its eight
  bytes are one 64-bit word, of which \<^verbatim>\<open>value.i\<close> is the lower half (little-endian), and the
  string that \<^verbatim>\<open>value.s\<close> points to is kept beside it. Whether an allocation succeeds is the
  argument \<open>mem\<close> (number of items, size of an item); libvirt's
  \<^verbatim>\<open>virDomainGetUUIDString\<close> is the argument \<open>get_uuid\<close> (\<open>None\<close>: it returns -1).
\<close>

section \<open>Parameters\<close>

record virTypedParameter =
  field :: string
  value_raw :: ull
  value_s :: string

record 'd virDomainStatsRecord =
  rec_dom :: 'd
  rec_params :: "virTypedParameter list"

definition value_ul :: "virTypedParameter \<Rightarrow> ull" where
  "value_ul item = value_raw item"

definition value_i :: "virTypedParameter \<Rightarrow> int" where
  "value_i item = sint (ucast (value_raw item) :: 32 word)"

section \<open>Fields of one device\<close>

definition blockinfo_parse_field ::
    "(nat \<Rightarrow> nat \<Rightarrow> bool) \<Rightarrow> BlockStats \<Rightarrow> string \<Rightarrow> virTypedParameter \<Rightarrow> BlockStats" where
  "blockinfo_parse_field mem st name item =
     (if strequals name ''name'' then
        (let len = length (value_s item)
         in if len > STATS_NAME_LEN - 1
            then st\<lparr>bs_xname := (if mem (len + 1) 1 then Block (value_s item) else Null)\<rparr>
            else st\<lparr>bs_name := value_s item\<rparr>)
      else if strequals name ''rd.reqs'' then st\<lparr>rd_reqs := value_ul item\<rparr>
      else if strequals name ''rd.bytes'' then st\<lparr>rd_bytes := value_ul item\<rparr>
      else if strequals name ''rd.times'' then st\<lparr>rd_times := value_ul item\<rparr>
      else if strequals name ''wr.reqs'' then st\<lparr>wr_reqs := value_ul item\<rparr>
      else if strequals name ''wr.bytes'' then st\<lparr>wr_bytes := value_ul item\<rparr>
      else if strequals name ''wr.times'' then st\<lparr>wr_times := value_ul item\<rparr>
      else if strequals name ''fl.bytes'' then st\<lparr>fl_bytes := value_ul item\<rparr>
      else if strequals name ''fl.times'' then st\<lparr>fl_times := value_ul item\<rparr>
      else if strequals name ''allocation'' then st\<lparr>allocation := value_ul item\<rparr>
      else if strequals name ''capacity'' then st\<lparr>capacity := value_ul item\<rparr>
      else if strequals name ''physical'' then st\<lparr>physical := value_ul item\<rparr>
      else st)"

definition ifaceinfo_parse_field ::
    "(nat \<Rightarrow> nat \<Rightarrow> bool) \<Rightarrow> IfaceStats \<Rightarrow> string \<Rightarrow> virTypedParameter \<Rightarrow> IfaceStats" where
  "ifaceinfo_parse_field mem st name item =
     (if strequals name ''name'' then
        (let len = length (value_s item)
         in if len > STATS_NAME_LEN - 1
            then st\<lparr>is_xname := (if mem (len + 1) 1 then Block (value_s item) else Null)\<rparr>
            else st\<lparr>is_name := value_s item\<rparr>)
      else if strequals name ''rx.bytes'' then st\<lparr>rx_bytes := value_ul item\<rparr>
      else if strequals name ''rx.pkts'' then st\<lparr>rx_pkts := value_ul item\<rparr>
      else if strequals name ''rx.errs'' then st\<lparr>rx_errs := value_ul item\<rparr>
      else if strequals name ''rx.drop'' then st\<lparr>rx_drop := value_ul item\<rparr>
      else if strequals name ''tx.bytes'' then st\<lparr>tx_bytes := value_ul item\<rparr>
      else if strequals name ''tx.pkts'' then st\<lparr>tx_pkts := value_ul item\<rparr>
      else if strequals name ''tx.errs'' then st\<lparr>tx_errs := value_ul item\<rparr>
      else if strequals name ''tx.drop'' then st\<lparr>tx_drop := value_ul item\<rparr>
      else st)"

definition vcpuinfo_parse_field :: "VCpuStats \<Rightarrow> string \<Rightarrow> virTypedParameter \<Rightarrow> VCpuStats" where
  "vcpuinfo_parse_field st name item =
     (if strequals name ''state'' then st\<lparr>vs_present := True, vs_state := value_i item\<rparr>
      else if strequals name ''time'' then st\<lparr>vs_present := True, vs_time := value_ul item\<rparr>
      else st)"

section \<open>Counts and arrays\<close>

abbreviation sizeof_VCpuStats :: nat where "sizeof_VCpuStats \<equiv> 16"
abbreviation sizeof_VCpuInfo :: nat where "sizeof_VCpuInfo \<equiv> 280"
abbreviation sizeof_BlockStats :: nat where "sizeof_BlockStats \<equiv> 224"
abbreviation sizeof_IfaceStats :: nat where "sizeof_IfaceStats \<equiv> 200"

definition setup_param :: "VmInfo \<Rightarrow> virTypedParameter \<Rightarrow> VmInfo" where
  \<comment> \<open>one turn of the loop of \<open>vminfo_setup\<close>\<close>
  "setup_param vm item =
     (let vm = (if strequals (field item) ''block.count''
                then vm\<lparr>vm_block := (vm_block vm)\<lparr>nstats := unat (value_ul item)\<rparr>\<rparr> else vm);
          vm = (if strequals (field item) ''net.count''
                then vm\<lparr>vm_iface := (vm_iface vm)\<lparr>nstats := unat (value_ul item)\<rparr>\<rparr> else vm)
      in if strequals (field item) ''vcpu.current''
         then vm\<lparr>vm_vcpu := (vm_vcpu vm)\<lparr>vcpu_current := unat (value_ul item)\<rparr>\<rparr>
         else if strequals (field item) ''vcpu.maximum''
         then vm\<lparr>vm_vcpu := (vm_vcpu vm)\<lparr>nstats := unat (value_ul item)\<rparr>\<rparr>
         else vm)"

definition ALLOC_XSTATS ::
    "(nat \<Rightarrow> nat \<Rightarrow> bool) \<Rightarrow> nat \<Rightarrow> nat \<Rightarrow> nat \<Rightarrow> 's \<Rightarrow> ('s, 'm) devices_scheme \<Rightarrow>
     bool \<times> ('s, 'm) devices_scheme" where
  \<comment> \<open>the macro: more than \<open>maxstats\<close> devices get an array of zeroed items on the heap;
    \<open>itemsize\<close> bytes are asked for each, of which an item takes \<open>elemsize\<close>; False: \<open>goto cleanup\<close>\<close>
  "ALLOC_XSTATS mem maxstats itemsize elemsize zero d =
     (if nstats d > maxstats
      then (if mem (nstats d) itemsize
            then (True, d\<lparr>xstats := Block (replicate (nstats d * itemsize div elemsize) zero)\<rparr>)
            else (False, d\<lparr>xstats := Null\<rparr>))
      else (True, d))"

definition setup_cleanup :: "VmInfo \<Rightarrow> (int \<times> VmInfo) option" where
  "setup_cleanup vm = do {
     b \<leftarrow> c_free (xstats (vm_block vm));
     let vm = vm\<lparr>vm_block := (vm_block vm)\<lparr>xstats := b\<rparr>\<rparr>;
     v \<leftarrow> c_free (xstats (vm_vcpu vm));
     Some (-1, vm\<lparr>vm_vcpu := (vm_vcpu vm)\<lparr>xstats := v\<rparr>\<rparr>) }"

definition vminfo_setup ::
    "(nat \<Rightarrow> nat \<Rightarrow> bool) \<Rightarrow> VmInfo \<Rightarrow> 'd virDomainStatsRecord \<Rightarrow> (int \<times> VmInfo) option" where
  "vminfo_setup mem vm0 record =
     (let vm = foldl setup_param vm0 (rec_params record);
          (ok, vcpu) = ALLOC_XSTATS mem VCPU_STATS_NUM sizeof_VCpuInfo sizeof_VCpuStats zero_vcpu
                         (vm_vcpu vm);
          vm = vm\<lparr>vm_vcpu := vcpu\<rparr>
      in if \<not> ok then setup_cleanup vm
         else
           (let (ok, block) = ALLOC_XSTATS mem BLOCK_STATS_NUM sizeof_BlockStats sizeof_BlockStats
                                zero_block (vm_block vm);
                vm = vm\<lparr>vm_block := block\<rparr>
            in if \<not> ok then setup_cleanup vm
               else
                 (let (ok, iface) = ALLOC_XSTATS mem IFACE_STATS_NUM sizeof_IfaceStats
                                      sizeof_IfaceStats zero_iface (vm_iface vm);
                      vm = vm\<lparr>vm_iface := iface\<rparr>
                  in if \<not> ok then setup_cleanup vm else Some (0, vm))))"

section \<open>Whole-machine values\<close>

definition pcpuinfo_parse :: "PCpuInfo \<Rightarrow> virTypedParameter \<Rightarrow> PCpuInfo" where
  "pcpuinfo_parse pcpu item =
     (if strequals (field item) ''cpu.time'' then pcpu\<lparr>pc_time := value_ul item\<rparr>
      else if strequals (field item) ''cpu.user'' then pcpu\<lparr>pc_user := value_ul item\<rparr>
      else if strequals (field item) ''cpu.system'' then pcpu\<lparr>pc_system := value_ul item\<rparr>
      else pcpu)"

definition ballooninfo_parse :: "BalloonInfo \<Rightarrow> virTypedParameter \<Rightarrow> BalloonInfo" where
  "ballooninfo_parse balloon item =
     (if strequals (field item) ''balloon.current'' then balloon\<lparr>ba_current := value_ul item\<rparr>
      else if strequals (field item) ''balloon.maximum'' then balloon\<lparr>ba_maximum := value_ul item\<rparr>
      else balloon)"

section \<open>Fields of numbered devices\<close>

abbreviation OFF_BUF_LEN :: nat where "OFF_BUF_LEN \<equiv> 128"

record FieldScanner =
  scan_prefix :: string
  maxoffset :: nat

record FieldMatch =
  suffix :: string
  offset :: nat

definition scan_init :: "string \<Rightarrow> nat \<Rightarrow> FieldScanner" where
  "scan_init pre maxoff = \<lparr>scan_prefix = pre, maxoffset = maxoff\<rparr>"

definition scan_field :: "FieldScanner \<Rightarrow> string \<Rightarrow> (bool \<times> FieldMatch option) option" where
  \<comment> \<open>the return value and what is stored in \<open>match\<close>; both pointers are not NULL, as in all
    calls; \<open>None\<close> if \<open>pc\<close> leaves the string\<close>
  "scan_field scan virFieldName =
     (if \<not> strstartswith virFieldName (scan_prefix scan) then Some (False, None)
      else
        (let buf = take (OFF_BUF_LEN - 1) (takeWhile isdigit virFieldName);
             j = length buf
         in if j < length virFieldName
            then Some (atol buf < maxoffset scan,
                       Some \<lparr>suffix = drop (j + 1) virFieldName, offset = atol buf\<rparr>)
            else None))"

definition device_parse ::
    "('s \<Rightarrow> string \<Rightarrow> virTypedParameter \<Rightarrow> 's) \<Rightarrow> string \<Rightarrow> ('s, 'm) devices_scheme \<Rightarrow>
     virTypedParameter \<Rightarrow> ('s, 'm) devices_scheme option" where
  \<comment> \<open>the body that the three functions below share\<close>
  "device_parse parse_field pre d item = do {
     (found, m) \<leftarrow> scan_field (scan_init pre (nstats d)) (field item);
     (case m of
        Some mt \<Rightarrow>
          if found then do {
            st \<leftarrow> stats_at d (offset mt);
            Some (set_device_array d
                    ((device_array d)[offset mt := parse_field st (suffix mt) item])) }
          else Some d
      | None \<Rightarrow> Some d) }"

definition vcpuinfo_parse :: "VCpuInfo \<Rightarrow> virTypedParameter \<Rightarrow> VCpuInfo option" where
  "vcpuinfo_parse vcpu item = device_parse vcpuinfo_parse_field ''vcpu.'' vcpu item"

definition blockinfo_parse ::
    "(nat \<Rightarrow> nat \<Rightarrow> bool) \<Rightarrow> BlockInfo \<Rightarrow> virTypedParameter \<Rightarrow> BlockInfo option" where
  "blockinfo_parse mem block item = device_parse (blockinfo_parse_field mem) ''block.'' block item"

definition ifaceinfo_parse ::
    "(nat \<Rightarrow> nat \<Rightarrow> bool) \<Rightarrow> IfaceInfo \<Rightarrow> virTypedParameter \<Rightarrow> IfaceInfo option" where
  "ifaceinfo_parse mem iface item = device_parse (ifaceinfo_parse_field mem) ''iface.'' iface item"

section \<open>The whole record\<close>

definition parse_param ::
    "(nat \<Rightarrow> nat \<Rightarrow> bool) \<Rightarrow> VmInfo \<Rightarrow> virTypedParameter \<Rightarrow> VmInfo option" where
  \<comment> \<open>one turn of the loop of \<open>vminfo_parse\<close>: no parser reports an error\<close>
  "parse_param mem vm item = do {
     let vm = vm\<lparr>vm_pcpu := pcpuinfo_parse (vm_pcpu vm) item\<rparr>;
     let vm = vm\<lparr>vm_balloon := ballooninfo_parse (vm_balloon vm) item\<rparr>;
     vcpu \<leftarrow> vcpuinfo_parse (vm_vcpu vm) item;
     let vm = vm\<lparr>vm_vcpu := vcpu\<rparr>;
     block \<leftarrow> blockinfo_parse mem (vm_block vm) item;
     let vm = vm\<lparr>vm_block := block\<rparr>;
     iface \<leftarrow> ifaceinfo_parse mem (vm_iface vm) item;
     Some (vm\<lparr>vm_iface := iface\<rparr>) }"

fun parse_params ::
    "(nat \<Rightarrow> nat \<Rightarrow> bool) \<Rightarrow> VmInfo \<Rightarrow> virTypedParameter list \<Rightarrow> VmInfo option" where
  "parse_params mem vm [] = Some vm"
| "parse_params mem vm (item # items) = do {
     vm1 \<leftarrow> parse_param mem vm item;
     parse_params mem vm1 items }"

definition vminfo_parse ::
    "(nat \<Rightarrow> nat \<Rightarrow> bool) \<Rightarrow> ('d \<Rightarrow> string option) \<Rightarrow> VmInfo \<Rightarrow> 'd virDomainStatsRecord \<Rightarrow>
     (int \<times> VmInfo) option" where
  "vminfo_parse mem get_uuid vm0 record = do {
     (err, vm) \<leftarrow> vminfo_setup mem vm0 record;
     if err \<noteq> 0 then Some (-1, vm)
     else (case get_uuid (rec_dom record) of
             None \<Rightarrow> Some (-1, vm)
           | Some uuid \<Rightarrow> do {
               vm1 \<leftarrow> parse_params mem (vm\<lparr>vm_uuid := uuid\<rparr>) (rec_params record);
               Some (0, vm1) }) }"

section \<open>What the device parsers do\<close>

text \<open>
  The contract the three field parsers share: names they do not know change nothing, and
  none of the names they know begins with the prefix of their fields without its first letter.
\<close>

locale device_fields =
  fixes parse_field :: "'s \<Rightarrow> string \<Rightarrow> virTypedParameter \<Rightarrow> 's"
    and names :: "string list"
    and pre :: string
  assumes other_names: "name \<notin> set names \<Longrightarrow> parse_field st name item = st"
    and pre_nonempty: "pre \<noteq> []"
    and pre_nondigit: "\<not> isdigit (hd pre)"
    and no_clash: "n \<in> set names \<Longrightarrow> \<not> prefix (tl pre) n"
begin

lemma scan_prefix_only:
  assumes "strstartswith f pre"
  shows "scan_field (scan_init pre m) f = Some (0 < m, Some \<lparr>suffix = tl f, offset = 0\<rparr>)"
proof -
  obtain rest where f: "f = pre @ rest" using assms by (auto simp: strstartswith_prefix prefix_def)
  then have "takeWhile isdigit f = []" "f \<noteq> []"
    using pre_nonempty pre_nondigit by (cases pre; simp)+
  moreover have "atol [] = 0" by (simp add: atol_def digits_val_def)
  ultimately show ?thesis using assms by (simp add: scan_field_def scan_init_def drop_Suc)
qed

lemma suffix_unknown: "strstartswith f pre \<Longrightarrow> parse_field st (tl f) item = st"
proof -
  assume "strstartswith f pre"
  then obtain rest where "f = pre @ rest" by (auto simp: strstartswith_prefix prefix_def)
  then have "prefix (tl pre) (tl f)" using pre_nonempty by (cases pre) auto
  then show ?thesis using no_clash other_names by blast
qed

lemma device_parse_id:
  assumes "devices_wf d"
  shows "device_parse parse_field pre d item = Some d"
proof (cases "strstartswith (field item) pre \<and> 0 < nstats d")
  case True
  then have ne: "device_array d \<noteq> []" using assms by (auto simp: devices_wf_def)
  then have "set_device_array d (device_array d) = d"
    by (cases "xstats d") (auto simp: set_device_array_def device_array_def)
  then show ?thesis
    using True ne
    by (simp add: device_parse_def scan_prefix_only suffix_unknown stats_at_def)
next
  case False
  then show ?thesis
    using scan_prefix_only [of "field item" "nstats d"]
    by (cases "strstartswith (field item) pre")
      (auto simp: device_parse_def scan_field_def scan_init_def)
qed

end

definition block_field_names :: "string list" where
  "block_field_names = [''name'', ''rd.reqs'', ''rd.bytes'', ''rd.times'', ''wr.reqs'', ''wr.bytes'',
     ''wr.times'', ''fl.bytes'', ''fl.times'', ''allocation'', ''capacity'', ''physical'']"

definition iface_field_names :: "string list" where
  "iface_field_names = [''name'', ''rx.bytes'', ''rx.pkts'', ''rx.errs'', ''rx.drop'',
     ''tx.bytes'', ''tx.pkts'', ''tx.errs'', ''tx.drop'']"

definition vcpu_field_names :: "string list" where
  "vcpu_field_names = [''state'', ''time'']"

interpretation blockf: device_fields "blockinfo_parse_field mem" block_field_names "''block.''" for mem
  by unfold_locales
    (auto simp: blockinfo_parse_field_def block_field_names_def strequals_def isdigit_def)

interpretation ifacef: device_fields "ifaceinfo_parse_field mem" iface_field_names "''iface.''" for mem
  by unfold_locales
    (auto simp: ifaceinfo_parse_field_def iface_field_names_def strequals_def isdigit_def)

interpretation vcpuf: device_fields vcpuinfo_parse_field vcpu_field_names "''vcpu.''"
  by unfold_locales
    (auto simp: vcpuinfo_parse_field_def vcpu_field_names_def strequals_def isdigit_def)

lemmas info_parse_ids = vcpuinfo_parse_def blockinfo_parse_def ifaceinfo_parse_def
  vcpuf.device_parse_id blockf.device_parse_id ifacef.device_parse_id

definition vm_wf :: "VmInfo \<Rightarrow> bool" where
  "vm_wf vm \<longleftrightarrow> devices_wf (vm_vcpu vm) \<and> devices_wf (vm_block vm) \<and> devices_wf (vm_iface vm)"

definition pcpu_of :: "PCpuInfo \<Rightarrow> virTypedParameter list \<Rightarrow> PCpuInfo" where
  "pcpu_of = foldl pcpuinfo_parse"

definition balloon_of :: "BalloonInfo \<Rightarrow> virTypedParameter list \<Rightarrow> BalloonInfo" where
  "balloon_of = foldl ballooninfo_parse"

lemma parse_params_fold:
  "vm_wf vm \<Longrightarrow> parse_params mem vm items = Some (vm\<lparr>vm_pcpu := pcpu_of (vm_pcpu vm) items,
     vm_balloon := balloon_of (vm_balloon vm) items\<rparr>)"
proof (induction items arbitrary: vm)
  case Nil
  then show ?case by (simp add: pcpu_of_def balloon_of_def)
next
  case (Cons item items)
  let ?vm1 = "vm\<lparr>vm_pcpu := pcpuinfo_parse (vm_pcpu vm) item,
      vm_balloon := ballooninfo_parse (vm_balloon vm) item\<rparr>"
  have "parse_param mem vm item = Some ?vm1"
    using Cons.prems by (simp add: parse_param_def Let_def info_parse_ids vm_wf_def)
  moreover have "vm_wf ?vm1" using Cons.prems by (simp add: vm_wf_def)
  ultimately show ?case using Cons.IH [of ?vm1] by (simp add: pcpu_of_def balloon_of_def)
qed

section \<open>What is stored\<close>

fun last_ul :: "string \<Rightarrow> ull \<Rightarrow> virTypedParameter list \<Rightarrow> ull" where
  \<comment> \<open>the value of the last parameter of a name, or a default\<close>
  "last_ul n d [] = d"
| "last_ul n d (item # items) = last_ul n (if field item = n then value_ul item else d) items"

lemma pcpu_of_last:
  "pc_time (pcpu_of p items) = last_ul ''cpu.time'' (pc_time p) items"
  "pc_user (pcpu_of p items) = last_ul ''cpu.user'' (pc_user p) items"
  "pc_system (pcpu_of p items) = last_ul ''cpu.system'' (pc_system p) items"
  by (induction items arbitrary: p) (auto simp: pcpu_of_def pcpuinfo_parse_def strequals_def)

lemma balloon_of_last:
  "ba_current (balloon_of b items) = last_ul ''balloon.current'' (ba_current b) items"
  "ba_maximum (balloon_of b items) = last_ul ''balloon.maximum'' (ba_maximum b) items"
  by (induction items arbitrary: b) (auto simp: balloon_of_def ballooninfo_parse_def strequals_def)

lemma setup_param_frame [simp]:
  "vm_pcpu (setup_param vm item) = vm_pcpu vm" "vm_balloon (setup_param vm item) = vm_balloon vm"
  "xstats (vm_vcpu (setup_param vm item)) = xstats (vm_vcpu vm)"
  "xstats (vm_block (setup_param vm item)) = xstats (vm_block vm)"
  "xstats (vm_iface (setup_param vm item)) = xstats (vm_iface vm)"
  "stats (vm_vcpu (setup_param vm item)) = stats (vm_vcpu vm)"
  "stats (vm_block (setup_param vm item)) = stats (vm_block vm)"
  "stats (vm_iface (setup_param vm item)) = stats (vm_iface vm)"
  by (simp_all add: setup_param_def Let_def)

lemma setup_fold_frame [simp]:
  "vm_pcpu (foldl setup_param vm items) = vm_pcpu vm"
  "vm_balloon (foldl setup_param vm items) = vm_balloon vm"
  "xstats (vm_vcpu (foldl setup_param vm items)) = xstats (vm_vcpu vm)"
  "xstats (vm_block (foldl setup_param vm items)) = xstats (vm_block vm)"
  "xstats (vm_iface (foldl setup_param vm items)) = xstats (vm_iface vm)"
  "stats (vm_vcpu (foldl setup_param vm items)) = stats (vm_vcpu vm)"
  "stats (vm_block (foldl setup_param vm items)) = stats (vm_block vm)"
  "stats (vm_iface (foldl setup_param vm items)) = stats (vm_iface vm)"
  by (induction items arbitrary: vm) simp_all

lemma setup_fold_counts:
  "nstats (vm_block vm) = unat b \<Longrightarrow>
    nstats (vm_block (foldl setup_param vm items)) = unat (last_ul ''block.count'' b items)"
  "nstats (vm_iface vm) = unat i \<Longrightarrow>
    nstats (vm_iface (foldl setup_param vm items)) = unat (last_ul ''net.count'' i items)"
  "nstats (vm_vcpu vm) = unat m \<Longrightarrow>
    nstats (vm_vcpu (foldl setup_param vm items)) = unat (last_ul ''vcpu.maximum'' m items)"
  "vcpu_current (vm_vcpu vm) = unat c \<Longrightarrow>
    vcpu_current (vm_vcpu (foldl setup_param vm items)) = unat (last_ul ''vcpu.current'' c items)"
  by (induction items arbitrary: vm b i m c) (simp_all add: setup_param_def strequals_def)

lemma ALLOC_XSTATS_ok:
  assumes "\<And>n sz. mem n sz" and "xstats d = Null" and "length (stats d) = maxstats"
    and "0 < elemsize" and "elemsize \<le> itemsize" and "set (stats d) \<subseteq> {zero}"
  obtains d' where "ALLOC_XSTATS mem maxstats itemsize elemsize zero d = (True, d')"
    and "nstats d' = nstats d" and "devices_wf d'" and "set (device_array d') \<subseteq> {zero}"
proof -
  define d' where "d' = snd (ALLOC_XSTATS mem maxstats itemsize elemsize zero d)"
  have "nstats d * elemsize \<le> nstats d * itemsize" using assms(5) by simp
  then have "nstats d \<le> nstats d * itemsize div elemsize"
    using assms(4) by (metis div_le_mono nonzero_mult_div_cancel_right not_gr_zero)
  then have "nstats d' = nstats d \<and> devices_wf d' \<and> set (device_array d') \<subseteq> {zero}"
    using assms by (auto simp: d'_def ALLOC_XSTATS_def devices_wf_def device_array_def)
  moreover have "ALLOC_XSTATS mem maxstats itemsize elemsize zero d = (True, d')"
    using assms(1) by (simp add: d'_def ALLOC_XSTATS_def)
  ultimately show thesis using that by blast
qed

lemma vminfo_setup_ok:
  assumes "\<And>n sz. mem n sz"
  obtains vm where "vminfo_setup mem vminfo_init r = Some (0, vm)" and "vm_wf vm"
    and "vm_pcpu vm = vm_pcpu vminfo_init" and "vm_balloon vm = vm_balloon vminfo_init"
    and "set (device_array (vm_vcpu vm)) \<subseteq> {zero_vcpu}"
    and "set (device_array (vm_block vm)) \<subseteq> {zero_block}"
    and "set (device_array (vm_iface vm)) \<subseteq> {zero_iface}"
    and "nstats (vm_vcpu vm) = unat (last_ul ''vcpu.maximum'' 0 (rec_params r))"
    and "nstats (vm_block vm) = unat (last_ul ''block.count'' 0 (rec_params r))"
    and "nstats (vm_iface vm) = unat (last_ul ''net.count'' 0 (rec_params r))"
proof -
  let ?vm = "foldl setup_param vminfo_init (rec_params r)"
  have x: "xstats (vm_vcpu ?vm) = Null" "xstats (vm_block ?vm) = Null" "xstats (vm_iface ?vm) = Null"
    and l: "length (stats (vm_vcpu ?vm)) = VCPU_STATS_NUM"
      "length (stats (vm_block ?vm)) = BLOCK_STATS_NUM"
      "length (stats (vm_iface ?vm)) = IFACE_STATS_NUM"
    and z: "set (stats (vm_vcpu ?vm)) \<subseteq> {zero_vcpu}" "set (stats (vm_block ?vm)) \<subseteq> {zero_block}"
      "set (stats (vm_iface ?vm)) \<subseteq> {zero_iface}"
    by (auto simp: vminfo_init_def)
  have c: "nstats (vm_vcpu ?vm) = unat (last_ul ''vcpu.maximum'' 0 (rec_params r))"
    "nstats (vm_block ?vm) = unat (last_ul ''block.count'' 0 (rec_params r))"
    "nstats (vm_iface ?vm) = unat (last_ul ''net.count'' 0 (rec_params r))"
    by (rule setup_fold_counts; simp add: vminfo_init_def)+
  obtain v where v: "ALLOC_XSTATS mem 16 280 16 zero_vcpu (vm_vcpu ?vm) = (True, v)"
    "nstats v = nstats (vm_vcpu ?vm)" "devices_wf v" "set (device_array v) \<subseteq> {zero_vcpu}"
    by (rule ALLOC_XSTATS_ok [OF assms x(1) l(1) _ _ z(1), of 16 280]) auto
  obtain b where b: "ALLOC_XSTATS mem 8 224 224 zero_block (vm_block ?vm) = (True, b)"
    "nstats b = nstats (vm_block ?vm)" "devices_wf b" "set (device_array b) \<subseteq> {zero_block}"
    by (rule ALLOC_XSTATS_ok [OF assms x(2) l(2) _ _ z(2), of 224 224]) auto
  obtain f where f: "ALLOC_XSTATS mem 8 200 200 zero_iface (vm_iface ?vm) = (True, f)"
    "nstats f = nstats (vm_iface ?vm)" "devices_wf f" "set (device_array f) \<subseteq> {zero_iface}"
    by (rule ALLOC_XSTATS_ok [OF assms x(3) l(3) _ _ z(3), of 200 200]) auto
  have "vminfo_setup mem vminfo_init r =
      Some (0, ?vm\<lparr>vm_vcpu := v, vm_block := b, vm_iface := f\<rparr>)"
    by (simp add: vminfo_setup_def Let_def v(1) b(1) f(1))
  then show thesis
    by (rule that) (simp_all add: vm_wf_def v b f c)
qed

lemma ALLOC_XSTATS_live:
  "xstats d \<noteq> Freed \<Longrightarrow> ALLOC_XSTATS mem k n m z d = (ok, d') \<Longrightarrow> xstats d' \<noteq> Freed"
  by (auto simp: ALLOC_XSTATS_def split: if_splits)

lemma vminfo_setup_live:
  assumes "vminfo_setup mem vminfo_init r = Some (0, vm)"
  shows "xstats (vm_vcpu vm) \<noteq> Freed \<and> xstats (vm_block vm) \<noteq> Freed \<and> xstats (vm_iface vm) \<noteq> Freed"
proof -
  let ?vm = "foldl setup_param vminfo_init (rec_params r)"
  have x: "xstats (vm_vcpu ?vm) \<noteq> Freed" "xstats (vm_block ?vm) \<noteq> Freed" "xstats (vm_iface ?vm) \<noteq> Freed"
    by (auto simp: vminfo_init_def)
  show ?thesis
    using assms ALLOC_XSTATS_live [OF x(1)] ALLOC_XSTATS_live [OF x(2)] ALLOC_XSTATS_live [OF x(3)]
    by (auto simp: vminfo_setup_def Let_def setup_cleanup_def bind_eq_Some_conv split: prod.splits if_splits)
qed

lemma devices_owned_zero:
  assumes "devices_wf d" and "xstats d \<noteq> Freed" and "set (device_array d) \<subseteq> {z}" and "get z = Null"
  shows "devices_owned get d"
proof -
  have "device_array d ! j = z" if "j < nstats d" for j
    using subsetD [OF assms(3) nth_mem, of j] assms(1) that by (simp add: devices_wf_def)
  then show ?thesis using assms(1,2,4) by (simp add: devices_owned_def)
qed

text \<open>What the callers of \<^verbatim>\<open>vminfo_parse\<close> need of a record it has read.\<close>

lemma vminfo_parse_ready:
  assumes "\<And>n sz. mem n sz" and "get_uuid (rec_dom r) = Some u"
  obtains vm where "vminfo_parse mem get_uuid vminfo_init r = Some (0, vm)" "vm_wf vm"
    "devices_owned bs_xname (vm_block vm)" "devices_owned is_xname (vm_iface vm)"
    "xstats (vm_vcpu vm) \<noteq> Freed"
proof -
  obtain vm where s: "vminfo_setup mem vminfo_init r = Some (0, vm)" "vm_wf vm"
      "set (device_array (vm_block vm)) \<subseteq> {zero_block}" "set (device_array (vm_iface vm)) \<subseteq> {zero_iface}"
    using vminfo_setup_ok [of mem r, OF assms(1)] by metis
  note live = vminfo_setup_live [OF s(1)]
  have own: "devices_owned bs_xname (vm_block vm)" "devices_owned is_xname (vm_iface vm)"
    using s live by (auto intro!: devices_owned_zero simp: vm_wf_def zero_block_def zero_iface_def)
  have "vm_wf (vm\<lparr>vm_uuid := u\<rparr>)" using s(2) by (simp add: vm_wf_def)
  then have "vminfo_parse mem get_uuid vminfo_init r =
      Some (0, vm\<lparr>vm_uuid := u, vm_pcpu := pcpu_of (vm_pcpu vm) (rec_params r),
        vm_balloon := balloon_of (vm_balloon vm) (rec_params r)\<rparr>)"
    using parse_params_fold [of "vm\<lparr>vm_uuid := u\<rparr>" mem "rec_params r"] s(1) assms(2)
    by (simp add: vminfo_parse_def)
  then show thesis using that s(2) own live by (simp add: vm_wf_def)
qed

section \<open>Properties\<close>

definition block_counters :: "(string \<times> (BlockStats \<Rightarrow> ull)) list" where
  "block_counters = [(''rd.reqs'', rd_reqs), (''rd.bytes'', rd_bytes), (''rd.times'', rd_times),
     (''wr.reqs'', wr_reqs), (''wr.bytes'', wr_bytes), (''wr.times'', wr_times),
     (''fl.bytes'', fl_bytes), (''fl.times'', fl_times),
     (''allocation'', allocation), (''capacity'', capacity), (''physical'', physical)]"

definition iface_counters :: "(string \<times> (IfaceStats \<Rightarrow> ull)) list" where
  "iface_counters = [(''rx.bytes'', rx_bytes), (''rx.pkts'', rx_pkts), (''rx.errs'', rx_errs),
     (''rx.drop'', rx_drop), (''tx.bytes'', tx_bytes), (''tx.pkts'', tx_pkts),
     (''tx.errs'', tx_errs), (''tx.drop'', tx_drop)]"

text \<open>The dispatch of one device field, given its name without prefix and number, is exact:
  for each pair of the eleven block counters and of the eight interface counters, a field named
  as the one stores the parameter's 64-bit value in that counter and leaves every other counter
  as it was; a name field of at most 127 characters is stored whole in the record, a longer one
  in a heap copy of its full length; and a field with any other name changes nothing.\<close>
lemma parse_field_dispatch:
  "(\<forall>(n, get) \<in> set block_counters. \<forall>(m, get') \<in> set block_counters.
      get' (blockinfo_parse_field mem b n item) = (if m = n then value_ul item else get' b)) \<and>
   (\<forall>(n, get) \<in> set iface_counters. \<forall>(m, get') \<in> set iface_counters.
      get' (ifaceinfo_parse_field mem f n item) = (if m = n then value_ul item else get' f)) \<and>
   (length (value_s item) \<le> 127 \<longrightarrow>
      blockinfo_parse_field mem b ''name'' item = b\<lparr>bs_name := value_s item\<rparr> \<and>
      ifaceinfo_parse_field mem f ''name'' item = f\<lparr>is_name := value_s item\<rparr>) \<and>
   (127 < length (value_s item) \<and> mem (length (value_s item) + 1) 1 \<longrightarrow>
      blockinfo_parse_field mem b ''name'' item = b\<lparr>bs_xname := Block (value_s item)\<rparr> \<and>
      ifaceinfo_parse_field mem f ''name'' item = f\<lparr>is_xname := Block (value_s item)\<rparr>) \<and>
   (n \<notin> set (''name'' # map fst block_counters) \<longrightarrow> blockinfo_parse_field mem b n item = b) \<and>
   (n \<notin> set (''name'' # map fst iface_counters) \<longrightarrow> ifaceinfo_parse_field mem f n item = f)"
proof (intro conjI)
  show "\<forall>(n, get) \<in> set block_counters. \<forall>(m, get') \<in> set block_counters.
      get' (blockinfo_parse_field mem b n item) = (if m = n then value_ul item else get' b)"
    by (simp add: block_counters_def blockinfo_parse_field_def strequals_def)
  show "\<forall>(n, get) \<in> set iface_counters. \<forall>(m, get') \<in> set iface_counters.
      get' (ifaceinfo_parse_field mem f n item) = (if m = n then value_ul item else get' f)"
    by (simp add: iface_counters_def ifaceinfo_parse_field_def strequals_def)
qed (auto simp: blockinfo_parse_field_def ifaceinfo_parse_field_def strequals_def
      block_counters_def iface_counters_def)

lemma parse_field_dispatch_example:
  "wr_times (blockinfo_parse_field (\<lambda>_ _. True) zero_block ''wr.times''
     \<lparr>field = ''block.0.wr.times'', value_raw = 42, value_s = []\<rparr>) = 42"
  using parse_field_dispatch [of "\<lambda>_ _. True" zero_block
      "\<lparr>field = ''block.0.wr.times'', value_raw = 42, value_s = []\<rparr>"]
  by (simp add: block_counters_def value_ul_def)

text \<open>C31: \<^verbatim>\<open>scan_field\<close> looks for the device number at the start of the whole field name and
  not behind the prefix, so for every field of a numbered device it reports device 0 and a
  suffix that still holds the prefix without its first letter; no such suffix is the name of a
  statistic. Hence one turn of the parsing loop, for whatever parameter, updates the processor
  and balloon values only and leaves the vcpu, block and interface tables as they were.\<close>
theorem device_fields_never_parsed:
  assumes "devices_wf (vm_vcpu vm)" and "devices_wf (vm_block vm)" and "devices_wf (vm_iface vm)"
  shows "parse_param mem vm item = Some (vm\<lparr>vm_pcpu := pcpuinfo_parse (vm_pcpu vm) item,
      vm_balloon := ballooninfo_parse (vm_balloon vm) item\<rparr>) \<and>
    (strstartswith (field item) ''block.'' \<longrightarrow> scan_field (scan_init ''block.'' k) (field item) =
      Some (0 < k, Some \<lparr>suffix = tl (field item), offset = 0\<rparr>))"
  using assms blockf.scan_prefix_only by (simp add: parse_param_def Let_def info_parse_ids)

theorem device_fields_never_parsed_witness:
  "parse_param (\<lambda>_ _. True) (vminfo_init\<lparr>vm_block := (vm_block vminfo_init)\<lparr>nstats := 1\<rparr>\<rparr>)
     \<lparr>field = ''block.0.physical'', value_raw = 42, value_s = []\<rparr> =
   Some (vminfo_init\<lparr>vm_block := (vm_block vminfo_init)\<lparr>nstats := 1\<rparr>\<rparr>)"
  using device_fields_never_parsed [of "vminfo_init\<lparr>vm_block := (vm_block vminfo_init)\<lparr>nstats := 1\<rparr>\<rparr>"
      "\<lambda>_ _. True" "\<lparr>field = ''block.0.physical'', value_raw = 42, value_s = []\<rparr>"]
  by (simp add: devices_wf_def device_array_def vminfo_init_def pcpuinfo_parse_def
      ballooninfo_parse_def strequals_def)

lemma vminfo_parse_facts:
  assumes "\<forall>n sz. mem n sz" and "get_uuid (rec_dom r) = Some u"
  shows "\<exists>vm. vminfo_parse mem get_uuid vminfo_init r = Some (0, vm) \<and> vm_uuid vm = u \<and>
    pc_time (vm_pcpu vm) = last_ul ''cpu.time'' 0 (rec_params r) \<and>
    pc_user (vm_pcpu vm) = last_ul ''cpu.user'' 0 (rec_params r) \<and>
    pc_system (vm_pcpu vm) = last_ul ''cpu.system'' 0 (rec_params r) \<and>
    ba_current (vm_balloon vm) = last_ul ''balloon.current'' 0 (rec_params r) \<and>
    ba_maximum (vm_balloon vm) = last_ul ''balloon.maximum'' 0 (rec_params r) \<and>
    nstats (vm_vcpu vm) = unat (last_ul ''vcpu.maximum'' 0 (rec_params r)) \<and>
    nstats (vm_block vm) = unat (last_ul ''block.count'' 0 (rec_params r)) \<and>
    nstats (vm_iface vm) = unat (last_ul ''net.count'' 0 (rec_params r)) \<and>
    vm_wf vm \<and> set (device_array (vm_vcpu vm)) \<subseteq> {zero_vcpu} \<and>
    set (device_array (vm_block vm)) \<subseteq> {zero_block} \<and>
    set (device_array (vm_iface vm)) \<subseteq> {zero_iface}"
proof -
  obtain vm where s: "vminfo_setup mem vminfo_init r = Some (0, vm)" "vm_wf vm"
      "vm_pcpu vm = vm_pcpu vminfo_init" "vm_balloon vm = vm_balloon vminfo_init"
      "set (device_array (vm_vcpu vm)) \<subseteq> {zero_vcpu}"
      "set (device_array (vm_block vm)) \<subseteq> {zero_block}"
      "set (device_array (vm_iface vm)) \<subseteq> {zero_iface}"
      "nstats (vm_vcpu vm) = unat (last_ul ''vcpu.maximum'' 0 (rec_params r))"
      "nstats (vm_block vm) = unat (last_ul ''block.count'' 0 (rec_params r))"
      "nstats (vm_iface vm) = unat (last_ul ''net.count'' 0 (rec_params r))"
    using vminfo_setup_ok [of mem r] assms(1) by metis
  have "vm_wf (vm\<lparr>vm_uuid := u\<rparr>)" using s(2) by (simp add: vm_wf_def)
  then show ?thesis
    using s assms(2) parse_params_fold [of "vm\<lparr>vm_uuid := u\<rparr>" mem "rec_params r"]
    by (simp add: vminfo_parse_def pcpu_of_last balloon_of_last vm_wf_def vminfo_init_def)
qed


definition example_record :: "unit virDomainStatsRecord" where
  "example_record = \<lparr>rec_dom = (), rec_params =
     [\<lparr>field = ''cpu.time'', value_raw = 7, value_s = []\<rparr>,
      \<lparr>field = ''block.count'', value_raw = 9, value_s = []\<rparr>,
      \<lparr>field = ''vcpu.maximum'', value_raw = 17, value_s = []\<rparr>,
      \<lparr>field = ''block.0.physical'', value_raw = 10, value_s = []\<rparr>]\<rparr>"


text \<open>C32: When the array of the vcpus was allocated but the one of the block devices cannot be,
  \<^verbatim>\<open>vminfo_parse\<close> returns -1 and leaves the record with a pointer to a freed array: releasing
  that record, as the caller does whatever the parser returned, frees the array again.\<close>
theorem vminfo_parse_failure_double_free:
  assumes "16 < last_ul ''vcpu.maximum'' 0 (rec_params r)"
    and "8 < last_ul ''block.count'' 0 (rec_params r)"
    and "mem (unat (last_ul ''vcpu.maximum'' 0 (rec_params r))) sizeof_VCpuInfo"
    and "\<not> mem (unat (last_ul ''block.count'' 0 (rec_params r))) sizeof_BlockStats"
  shows "\<exists>vm. vminfo_parse mem get_uuid vminfo_init r = Some (-1, vm) \<and> vminfo_free vm = None"
proof -
  let ?vm = "foldl setup_param vminfo_init (rec_params r)"
  have c: "nstats (vm_vcpu ?vm) = unat (last_ul ''vcpu.maximum'' 0 (rec_params r))"
    "nstats (vm_block ?vm) = unat (last_ul ''block.count'' 0 (rec_params r))"
    by (rule setup_fold_counts; simp add: vminfo_init_def)+
  have n: "16 < nstats (vm_vcpu ?vm)" "8 < nstats (vm_block ?vm)"
    using assms(1,2) by (simp_all add: c word_less_nat_alt)
  then have "\<exists>vm. vminfo_setup mem vminfo_init r = Some (-1, vm) \<and> xstats (vm_vcpu vm) = Freed"
    using assms(3,4)
    by (simp add: vminfo_setup_def Let_def ALLOC_XSTATS_def setup_cleanup_def c)
  then show ?thesis
    by (auto simp: vminfo_parse_def vminfo_free_def vcpuinfo_free_def)
qed

theorem vminfo_parse_failure_double_free_witness:
  "\<exists>vm. vminfo_parse (\<lambda>_ sz. sz \<noteq> sizeof_BlockStats) (\<lambda>_. None) vminfo_init example_record =
     Some (-1, vm) \<and> vminfo_free vm = None"
  using vminfo_parse_failure_double_free [of example_record "\<lambda>_ sz. sz \<noteq> sizeof_BlockStats" "\<lambda>_. None"]
  by (simp add: example_record_def value_ul_def)

end
