(* ===== verification/Vminfo_Print.thy ===== *)
theory Vminfo_Print
  imports Vminfo
begin

text \<open>
  The JSON output of \<^verbatim>\<open>lib/vminfo_print.c\<close>: each function is what it writes to \<open>out\<close> (its
  return value is always 0); \<open>None\<close> is a read past the array of the statistics. The
  loops over the devices are one function, with the format of an entry as an argument.
\<close>

section \<open>Output\<close>

definition pcpu_print_json :: "PCpuInfo \<Rightarrow> string" where
  \<open>pcpu_print_json pcpu =
     ''"pcpu": '' @
     ''{'' @
     '' "cpu.time": '' @ dec (unat (pc_time pcpu)) @ '','' @
     '' "cpu.user": '' @ dec (unat (pc_user pcpu)) @ '','' @
     '' "cpu.system": '' @ dec (unat (pc_system pcpu)) @ '' '' @
     ''}''\<close>

definition balloon_print_json :: "BalloonInfo \<Rightarrow> string" where
  \<open>balloon_print_json balloon =
     ''"balloon": '' @
     ''{'' @
     '' "balloon.current": '' @ dec (unat (ba_current balloon)) @ '','' @
     '' "balloon.maximum": '' @ dec (unat (ba_maximum balloon)) @ '' '' @
     ''}''\<close>

fun print_loop :: "(nat \<Rightarrow> 's \<Rightarrow> string) \<Rightarrow> ('s, 'm) devices_scheme \<Rightarrow> nat \<Rightarrow> nat \<Rightarrow> string option" where
  \<comment> \<open>\<open>k\<close> turns from \<open>i\<close> on\<close>
  "print_loop entry d i 0 = Some []"
| "print_loop entry d i (Suc k) = do {
     st \<leftarrow> stats_at d i;
     rest \<leftarrow> print_loop entry d (i + 1) k;
     Some (entry i st @ rest) }"

definition vcpu_fields :: "nat \<Rightarrow> VCpuStats \<Rightarrow> string" where
  \<open>vcpu_fields i st =
     '' "'' @ dec i @ ''": { "state": '' @ dec_int (vs_state st) @ '','' @
     '' "time": '' @ dec (unat (vs_time st)) @ '','' @
     '' }''\<close>

definition vcpu_entry :: "nat \<Rightarrow> nat \<Rightarrow> VCpuStats \<Rightarrow> string" where
  "vcpu_entry n i st =
     (if \<not> vs_present st then []
      else vcpu_fields i st @ (if i = n - 1 then [] else '',''))"

definition vcpu_print_json :: "VCpuInfo \<Rightarrow> string option" where
  \<open>vcpu_print_json vcpu =
     map_option (\<lambda>body. ''"vcpu":'' @ '' {'' @ body @ '' }'')
       (print_loop (vcpu_entry (nstats vcpu)) vcpu 0 (nstats vcpu))\<close>

definition block_fields :: "BlockStats \<Rightarrow> string" where
  \<open>block_fields st =
     '' "'' @ bs_device_name st @ ''": { "rd_bytes": '' @ dec (unat (rd_bytes st)) @ '','' @
     '' "rd_operations": '' @ dec (unat (rd_reqs st)) @ '','' @
     '' "rd_total_times": '' @ dec (unat (rd_times st)) @ '','' @
     '' "wr_bytes": '' @ dec (unat (wr_bytes st)) @ '','' @
     '' "wr_operations": '' @ dec (unat (wr_reqs st)) @ '','' @
     '' "wr_total_times": '' @ dec (unat (wr_times st)) @ '','' @
     '' "allocation": '' @ dec (unat (allocation st)) @ '','' @
     '' "capacity": '' @ dec (unat (capacity st)) @ '','' @
     '' "physical": '' @ dec (unat (physical st)) @ '' '' @
     '' }''\<close>

definition block_entry :: "nat \<Rightarrow> nat \<Rightarrow> BlockStats \<Rightarrow> string" where
  "block_entry n i st = block_fields st @ (if i = n - 1 then [] else '','')"

definition block_print_json :: "BlockInfo \<Rightarrow> string option" where
  \<open>block_print_json block =
     map_option (\<lambda>body. ''"block":'' @ '' {'' @ body @ '' }'')
       (print_loop (block_entry (nstats block)) block 0 (nstats block))\<close>

definition is_device_name :: "IfaceStats \<Rightarrow> string" where
  "is_device_name st = (case is_xname st of Block n \<Rightarrow> n | _ \<Rightarrow> is_name st)"

definition iface_fields :: "IfaceStats \<Rightarrow> string" where
  \<open>iface_fields st =
     '' "'' @ is_device_name st @ ''": { "rx_bytes": '' @ dec (unat (rx_bytes st)) @ '','' @
     '' "rx_pkts": '' @ dec (unat (rx_pkts st)) @ '','' @
     '' "rx_errs": '' @ dec (unat (rx_errs st)) @ '','' @
     '' "rx_drop": '' @ dec (unat (rx_drop st)) @ '','' @
     '' "tx_bytes": '' @ dec (unat (tx_bytes st)) @ '','' @
     '' "tx_pkts": '' @ dec (unat (tx_pkts st)) @ '','' @
     '' "tx_errs": '' @ dec (unat (tx_errs st)) @ '','' @
     '' "tx_drop": '' @ dec (unat (tx_drop st)) @ '','' @
     '' }''\<close>

definition iface_entry :: "nat \<Rightarrow> nat \<Rightarrow> IfaceStats \<Rightarrow> string" where
  "iface_entry n i st = iface_fields st @ (if i = n - 1 then [] else '','')"

definition iface_print_json :: "IfaceInfo \<Rightarrow> string option" where
  \<open>iface_print_json iface =
     map_option (\<lambda>body. ''"iface":'' @ '' {'' @ body @ '' }'')
       (print_loop (iface_entry (nstats iface)) iface 0 (nstats iface))\<close>

definition vminfo_print_json :: "VmInfo \<Rightarrow> string option" where
  \<open>vminfo_print_json vm = do {
     vcpu \<leftarrow> vcpu_print_json (vm_vcpu vm);
     block \<leftarrow> block_print_json (vm_block vm);
     iface \<leftarrow> iface_print_json (vm_iface vm);
     Some (''{'' @ '' "vm-id": "'' @ vm_uuid vm @ ''",'' @
       pcpu_print_json (vm_pcpu vm) @ '', '' @
       balloon_print_json (vm_balloon vm) @ '', '' @
       vcpu @ '', '' @ block @ '', '' @ iface @ '' }'') }\<close>

section \<open>Lists of entries\<close>

fun join :: "string \<Rightarrow> string list \<Rightarrow> string" where
  "join sep [] = []"
| "join sep [x] = x"
| "join sep (x # y # xs) = x @ sep @ join sep (y # xs)"

lemma print_loop_concat:
  "i + k \<le> length (device_array d) \<Longrightarrow>
   print_loop entry d i k = Some (concat (map (\<lambda>j. entry j (device_array d ! j)) [i..<i + k]))"
proof (induction k arbitrary: i)
  case (Suc k)
  then have "print_loop entry d (i + 1) k =
      Some (concat (map (\<lambda>j. entry j (device_array d ! j)) [i + 1..<i + Suc k]))"
    by simp
  moreover have "[i..<i + Suc k] = i # [i + 1..<i + Suc k]" by (simp add: upt_conv_Cons del: upt_Suc)
  ultimately show ?case using Suc.prems by (simp add: stats_at_def del: upt_Suc)
qed simp

lemma print_loop_None:
  "length (device_array d) < i + k \<Longrightarrow> i \<le> length (device_array d) \<Longrightarrow> print_loop entry d i k = None"
proof (induction k arbitrary: i)
  case (Suc k)
  then show ?case
    using Suc.IH [of "i + 1"] by (cases "i < length (device_array d)") (simp_all add: stats_at_def)
qed simp

lemma print_loop_defined: "print_loop entry d 0 (nstats d) = None \<longleftrightarrow> \<not> devices_wf d"
proof (cases "devices_wf d")
  case True
  then show ?thesis by (simp add: print_loop_concat devices_wf_def)
next
  case False
  then show ?thesis by (simp add: print_loop_None devices_wf_def)
qed

lemma join_snoc: "xs \<noteq> [] \<Longrightarrow> join sep (xs @ [x]) = join sep xs @ sep @ x"
  by (induction sep xs rule: join.induct) simp_all

lemma concat_separated:
  "0 < n \<Longrightarrow> concat (map (\<lambda>j. f j @ (if j = n - 1 then [] else sep)) [0..<n]) = join sep (map f [0..<n])"
proof -
  have sep: "concat (map (\<lambda>j. f j @ sep) [0..<m]) @ f m = join sep (map f [0..<Suc m])" for m
  proof (induction m)
    case (Suc m)
    then show ?case using join_snoc [of "map f [0..<Suc m]" sep "f (Suc m)"] by simp
  qed simp
  assume "0 < n"
  then obtain m where m: "n = Suc m" by (cases n) auto
  have e: "map (\<lambda>j. f j @ (if j = m then [] else sep)) [0..<m] = map (\<lambda>j. f j @ sep) [0..<m]"
    by (rule map_cong) auto
  have "concat (map (\<lambda>j. f j @ (if j = n - 1 then [] else sep)) [0..<n]) =
      concat (map (\<lambda>j. f j @ (if j = m then [] else sep)) [0..<m]) @ f m"
    by (simp add: m)
  then show ?thesis unfolding e sep m .
qed

lemma print_loop_join:
  assumes "devices_wf d" and "\<And>i st. entry i st = f st @ (if i = nstats d - 1 then [] else sep)"
  shows "print_loop entry d 0 (nstats d) = Some (join sep (map f (take (nstats d) (device_array d))))"
proof (cases "nstats d = 0")
  case False
  have "map f (take (nstats d) (device_array d)) = map (\<lambda>j. f (device_array d ! j)) [0..<nstats d]"
    using assms(1) by (intro nth_equalityI) (simp_all add: devices_wf_def)
  then show ?thesis
    using assms False concat_separated [of "nstats d" "\<lambda>j. f (device_array d ! j)" sep]
    by (simp add: print_loop_concat devices_wf_def)
qed simp

section \<open>Properties\<close>

text \<open>The block and the interface objects are the entries of all devices of the table, in order, separated by
  single commas, whatever the number of devices; no entry is read past the table.\<close>

lemma device_objects_separated:
  assumes "devices_wf block" and "devices_wf iface"
  shows \<open>block_print_json block =
      Some (''"block":'' @ '' {'' @
        join '','' (map block_fields (take (nstats block) (device_array block))) @ '' }'') \<and>
    iface_print_json iface =
      Some (''"iface":'' @ '' {'' @
        join '','' (map iface_fields (take (nstats iface) (device_array iface))) @ '' }'')\<close>
  using print_loop_join [OF assms(1), of "block_entry (nstats block)" block_fields "'',''"]
    print_loop_join [OF assms(2), of "iface_entry (nstats iface)" iface_fields "'',''"]
  by (simp add: block_print_json_def iface_print_json_def block_entry_def iface_entry_def)

definition ex_blocks :: BlockInfo where
  "ex_blocks = \<lparr>nstats = 2, xstats = Null,
     stats = [zero_block\<lparr>bs_name := ''vda''\<rparr>, zero_block\<lparr>bs_name := ''vdb''\<rparr>]\<rparr>"

definition ex_ifaces :: IfaceInfo where
  "ex_ifaces = \<lparr>nstats = 1, xstats = Null, stats = [zero_iface\<lparr>is_name := ''vnet0''\<rparr>]\<rparr>"

lemma ex_devices_wf: "devices_wf ex_blocks" "devices_wf ex_ifaces"
  by (simp_all add: devices_wf_def ex_blocks_def ex_ifaces_def device_array_def)

lemma device_objects_separated_example:
  \<open>block_print_json ex_blocks =
     Some (''"block": {'' @ block_fields (stats ex_blocks ! 0) @ '','' @ block_fields (stats ex_blocks ! 1) @ '' }'')\<close>
  using device_objects_separated [OF ex_devices_wf] by (simp add: ex_blocks_def device_array_def)

text \<open>But the entries of the virtual CPUs and of the interfaces are no JSON objects: each of them ends in
  \<^verbatim>\<open>, }\<close>, a comma without a member after it. So the output of a machine with a present virtual CPU or an
  interface is not JSON.\<close>

lemma entries_trailing_comma:
  assumes "devices_wf vcpu" and "i < nstats vcpu" and "vs_present (device_array vcpu ! i)"
    and "devices_wf iface" and "0 < nstats iface"
  shows "(\<exists>out. vcpu_print_json vcpu = Some out \<and> sublist '', }'' out) \<and>
    (\<exists>out. iface_print_json iface = Some out \<and> sublist '', }'' out)"
proof -
  have v: "sublist '', }'' (vcpu_fields j st)" and f: "sublist '', }'' (iface_fields st')" for j st st'
    by (intro suffix_imp_sublist, simp add: vcpu_fields_def iface_fields_def suffix_to_prefix)+
  have grow: "sublist x (ys @ xs @ zs)" if "sublist x xs" for x ys xs zs :: string
    using that by (meson sublist_appendI sublist_order.order.trans)
  have tail: "sublist x (xs @ zs)" if "sublist x xs" for x xs zs :: string
    using grow [OF that, of "[]" zs] by simp
  have sub: "sublist x (concat (map g xs))" if "sublist x (g y)" "y \<in> set xs" for x :: string and g y xs
    using that by (auto simp: sublist_def in_set_conv_decomp) (metis append.assoc)
  let ?v = "concat (map (\<lambda>j. vcpu_entry (nstats vcpu) j (device_array vcpu ! j)) [0..<nstats vcpu])"
  have "sublist '', }'' (vcpu_entry (nstats vcpu) i (device_array vcpu ! i))"
    using assms(3) v grow [of "'', }''" _ "[]"] by (simp add: vcpu_entry_def)
  then have "sublist '', }'' ?v" using sub [of "'', }''" _ i "[0..<nstats vcpu]"] assms(2) by simp
  then have 1: "\<exists>out. vcpu_print_json vcpu = Some out \<and> sublist '', }'' out"
    using assms(1) by (simp add: vcpu_print_json_def print_loop_concat devices_wf_def sublist_Cons_right tail)
  let ?i = "concat (map (\<lambda>j. iface_entry (nstats iface) j (device_array iface ! j)) [0..<nstats iface])"
  have "sublist '', }'' (iface_entry (nstats iface) 0 (device_array iface ! 0))"
    using f grow [of "'', }''" _ "[]"] by (simp add: iface_entry_def)
  then have "sublist '', }'' ?i" using sub [of "'', }''" _ 0 "[0..<nstats iface]"] assms(5) by simp
  then have 2: "\<exists>out. iface_print_json iface = Some out \<and> sublist '', }'' out"
    using assms(4) by (simp add: iface_print_json_def print_loop_concat devices_wf_def sublist_Cons_right tail)
  show ?thesis using 1 2 by blast
qed

definition ex_vcpus :: VCpuInfo where
  "ex_vcpus = \<lparr>nstats = 2, xstats = Null,
     stats = [zero_vcpu\<lparr>vs_present := True, vs_state := 1, vs_time := 5\<rparr>, zero_vcpu], vcpu_current = 1\<rparr>"

lemma ex_vcpus_wf: "devices_wf ex_vcpus" "vs_present (device_array ex_vcpus ! 0)" "0 < nstats ex_vcpus"
  by (simp_all add: ex_vcpus_def devices_wf_def device_array_def)

lemma entries_trailing_comma_example:
  "\<exists>out. vcpu_print_json ex_vcpus = Some out \<and> sublist '', }'' out"
  using entries_trailing_comma [OF ex_vcpus_wf(1,3,2) ex_devices_wf(2)] by (simp add: ex_ifaces_def)

text \<open>The output determines the counters it prints: two outputs of the processor and balloon parts are equal
  only if all their counters are, so a reader gets back the 64-bit values that libvirt reported.\<close>

lemma counters_recoverable:
  "(pcpu_print_json p = pcpu_print_json q \<longleftrightarrow> p = q) \<and> (balloon_print_json a = balloon_print_json b \<longleftrightarrow> a = b)"
proof -
  note digits = dec_append_inject [of "CHR '',''"] dec_append_inject [of "CHR '' ''"]
  have "p = q" if "pcpu_print_json p = pcpu_print_json q"
    using that by (cases p; cases q) (auto simp: pcpu_print_json_def digits isdigit_def intro: unsigned_word_eqI)
  moreover have "a = b" if "balloon_print_json a = balloon_print_json b"
    using that by (cases a; cases b) (auto simp: balloon_print_json_def digits isdigit_def intro: unsigned_word_eqI)
  ultimately show ?thesis by blast
qed

lemma vminfo_print_wf:
  "vminfo_print_json vm \<noteq> None \<longleftrightarrow>
    devices_wf (vm_vcpu vm) \<and> devices_wf (vm_block vm) \<and> devices_wf (vm_iface vm)"
proof -
  have none: "devices_wf v \<longleftrightarrow> vcpu_print_json v \<noteq> None" "devices_wf b \<longleftrightarrow> block_print_json b \<noteq> None"
    "devices_wf i \<longleftrightarrow> iface_print_json i \<noteq> None" for v b i
    by (simp_all add: vcpu_print_json_def block_print_json_def iface_print_json_def print_loop_defined
        del: not_None_eq)
  show ?thesis
    by (cases "vcpu_print_json (vm_vcpu vm)"; cases "block_print_json (vm_block vm)";
        cases "iface_print_json (vm_iface vm)")
      (simp_all add: none vminfo_print_json_def)
qed

text \<open>\<open>vminfo_print_json\<close> stays inside the tables of a machine exactly if each of the three counts is at most the length of its
  table; then it writes one object with the identifier and the five parts, in that order.\<close>

lemma vminfo_print_defined:
  "vminfo_print_json vm \<noteq> None \<longleftrightarrow>
    devices_wf (vm_vcpu vm) \<and> devices_wf (vm_block vm) \<and> devices_wf (vm_iface vm)"
  by (rule vminfo_print_wf)

end
