(* ===== verification/Sampler.thy ===== *)
theory Sampler
  imports Sampler_Request Executor Vminfo_Parse Vminfo_Print
begin

text \<open>
  The sampler of \<^verbatim>\<open>src/sampler.c\<close>, with the types of \<^verbatim>\<open>src/vmon.h\<close>: the tasks it dispatches, and what
  they write. libvirt, libuuid and the clock are parameters (the fields of \<open>sampler_env\<close>): the calls
  that sample return a count and the records, or a negative count. \<open>out\<close> in a context is the list of the
  buffers written so far; \<open>os_write\<close> says how many bytes of a buffer \<^verbatim>\<open>write\<close> takes. A
  \<open>VmonRequest\<close> is copied into a task as memory: \<open>req_image\<close> is that memory, of 56 bytes. \<open>None\<close>
  is undefined behaviour. The context of a request is passed beside it.
\<close>

section \<open>Data\<close>

record VmonConfig =
  cf_threads :: int
  cf_tasks :: int
  cf_timeout :: int
  cf_period :: int
  cf_log_level :: int
  cf_log_file :: "string option"
  cf_bulk_sampling :: bool
  cf_disk_usage_perc :: int
  cf_events_only :: bool

record ('c, 'u) VmonContext =
  cx_conf :: VmonConfig
  cx_conn :: "'c option"
  cx_out :: "string list"
  cx_flags :: guint
  cx_executor :: "'u Executor"

record 'd VmonRequest =
  rq_sr :: SampleRequest
  rq_dom :: "'d option"
  rq_records :: "'d virDomainStatsRecord list"
  rq_records_num :: int

abbreviation sizeof_VmonRequest :: nat where "sizeof_VmonRequest \<equiv> 56"

record ('c, 'd) sampler_env =
  lv_consts :: libvirt_consts
  uuid_parse :: "string \<Rightarrow> byte list \<Rightarrow> byte list"
  uuid_unparse :: "byte list \<Rightarrow> string"
  time_now :: nat
  os_write :: "string \<Rightarrow> nat"
  vir_ConnectGetAllDomainStats :: "'c option \<Rightarrow> guint \<Rightarrow> int \<times> 'd virDomainStatsRecord list"
  vir_DomainListGetStats :: "'d option list \<Rightarrow> guint \<Rightarrow> int \<times> 'd virDomainStatsRecord list"
  vir_ConnectListAllDomains :: "'c option \<Rightarrow> guint \<Rightarrow> int \<times> 'd list"
  vir_DomainGetUUIDString :: "'d \<Rightarrow> string option"
  calloc_ok :: "nat \<Rightarrow> nat \<Rightarrow> bool"
  req_image :: "'d VmonRequest \<Rightarrow> byte list"
  sample_domain_work_addr :: ull
  bulk_sampling_work_addr :: ull
  list_domains_work_addr :: ull
  sampling_collect_addr :: ull

definition req_zero :: "'d VmonRequest" where
  "req_zero = \<lparr>rq_sr = sr_clear, rq_dom = None, rq_records = [], rq_records_num = 0\<rparr>"

section \<open>Responses\<close>

definition write_response ::
    "('c, 'd) sampler_env \<Rightarrow> ('c, 'u) VmonContext \<Rightarrow> string \<Rightarrow> ('c, 'u) VmonContext" where
  \<comment> \<open>always successful: a short write is only logged\<close>
  "write_response env ctx response =
     ctx\<lparr>cx_out := cx_out ctx @ [take (os_write env response) response]\<rparr>"

definition error_response :: "('c, 'd) sampler_env \<Rightarrow> 'd VmonRequest \<Rightarrow> int \<Rightarrow> bool \<Rightarrow> string" where
  \<open>error_response env req error timeout = take 4095 (
     ''{'' @
     '' "req-id": "'' @ uuid_unparse env (sr_uuid (rq_sr req)) @ ''",'' @
     '' "timestamp": '' @ dec (time_now env) @ '','' @
     '' "data": {'' @
     '' "vm-id": "'' @ (case rq_dom req of None \<Rightarrow> []
        | Some d \<Rightarrow> (case vir_DomainGetUUIDString env d of None \<Rightarrow> [] | Some u \<Rightarrow> u)) @ ''",'' @
     '' "error": {'' @
     '' "code": '' @ dec_int error @ '','' @
     '' "message": ""'' @
     '' },'' @
     '' "timeout": "'' @ (if timeout then ''yes'' else ''no'') @ ''"'' @
     '' } '' @
     ''}'' @ [CHR 0x0A])\<close>

definition collect_error ::
    "('c, 'd) sampler_env \<Rightarrow> ('c, 'u) VmonContext \<Rightarrow> 'd VmonRequest \<Rightarrow> int \<Rightarrow> bool \<Rightarrow> ('c, 'u) VmonContext" where
  \<comment> \<open>the return value is 0\<close>
  "collect_error env ctx req error timeout = write_response env ctx (error_response env req error timeout)"

record VmonResponse =
  res_out :: string
  res_ts :: nat

definition response_init :: "('c, 'd) sampler_env \<Rightarrow> VmonResponse" where
  "response_init env = \<lparr>res_out = [], res_ts = time_now env\<rparr>"

definition response_open :: "VmonResponse \<Rightarrow> VmonResponse" where
  \<comment> \<open>an empty stream in memory\<close>
  "response_open res = res\<lparr>res_out := []\<rparr>"

definition response_print :: "VmonResponse \<Rightarrow> string \<Rightarrow> VmonResponse" where
  \<comment> \<open>what is printed to the stream\<close>
  "response_print res s = res\<lparr>res_out := res_out res @ s\<rparr>"

definition response_head :: "string \<Rightarrow> nat \<Rightarrow> string" where
  \<open>response_head req_uuid ts =
     ''{'' @ '' "req-id": "'' @ req_uuid @ ''",'' @
     '' "timestamp": '' @ dec ts @ '','' @ '' "data": ''\<close>

definition response_begin :: "('c, 'd) sampler_env \<Rightarrow> VmonResponse \<Rightarrow> byte list \<Rightarrow> VmonResponse" where
  "response_begin env res req_id = response_print res (response_head (uuid_unparse env req_id) (res_ts res))"

definition response_close ::
    "('c, 'd) sampler_env \<Rightarrow> ('c, 'u) VmonContext \<Rightarrow> VmonResponse \<Rightarrow> ('c, 'u) VmonContext" where
  "response_close env ctx res = write_response env ctx (res_out res)"

definition response_finish :: "VmonResponse \<Rightarrow> VmonResponse" where
  "response_finish res = response_print res ('' }'' @ [CHR 0x0A])"

section \<open>The work of the tasks\<close>

definition sample_domain_work ::
    "('c, 'd) sampler_env \<Rightarrow> ('c, 'u) VmonContext \<Rightarrow> 'd VmonRequest \<Rightarrow> int \<times> 'd VmonRequest" where
  "sample_domain_work env ctx req =
     (let (ret, records) = vir_ConnectGetAllDomainStats env (cx_conn ctx) (sr_stats (rq_sr req))
      in (0, req\<lparr>rq_records := records, rq_records_num := ret\<rparr>))"

definition bulk_sampling_work ::
    "('c, 'd) sampler_env \<Rightarrow> ('c, 'u) VmonContext \<Rightarrow> 'd VmonRequest \<Rightarrow> int \<times> 'd VmonRequest" where
  "bulk_sampling_work env ctx req =
     (let doms = [rq_dom req, None];
          (ret, records) = vir_DomainListGetStats env doms (sr_stats (rq_sr req))
      in (0, req\<lparr>rq_records := records, rq_records_num := ret\<rparr>))"

definition collect_record ::
    "('c, 'd) sampler_env \<Rightarrow> ('c, 'u) VmonContext \<Rightarrow> 'd VmonRequest \<Rightarrow> VmonResponse \<Rightarrow> 'd virDomainStatsRecord \<Rightarrow>
     (('c, 'u) VmonContext \<times> VmonResponse) option" where
  \<comment> \<open>one turn of the loop of \<open>collect_success\<close>: the result of \<open>vminfo_parse\<close> is not looked at\<close>
  "collect_record env ctx req res record = do {
     let checks = \<lparr>disk_usage_perc = cf_disk_usage_perc (cx_conf ctx)\<rparr>;
     (err, vm) \<leftarrow> vminfo_parse (calloc_ok env) (vir_DomainGetUUIDString env) vminfo_init record;
     let res = response_open res;
     events \<leftarrow> vminfo_send_events vm checks;
     let res = response_print res events;
     res \<leftarrow> (if \<not> cf_events_only (cx_conf ctx)
            then map_option (\<lambda>json. response_finish (response_print (response_begin env res (sr_uuid (rq_sr req))) json))
                   (vminfo_print_json vm)
            else Some res);
     let ctx = response_close env ctx res;
     vm' \<leftarrow> vminfo_free vm;
     Some (ctx, res) }"

fun collect_loop ::
    "('c, 'd) sampler_env \<Rightarrow> ('c, 'u) VmonContext \<Rightarrow> 'd VmonRequest \<Rightarrow> VmonResponse \<Rightarrow> nat \<Rightarrow> nat \<Rightarrow>
     ('c, 'u) VmonContext option" where
  \<comment> \<open>\<open>k\<close> records from \<open>j\<close> on\<close>
  "collect_loop env ctx req res j 0 = Some ctx"
| "collect_loop env ctx req res j (Suc k) =
     (if j < length (rq_records req)
      then do {
        (ctx, res) \<leftarrow> collect_record env ctx req res (rq_records req ! j);
        collect_loop env ctx req res (j + 1) k }
      else None)"

definition collect_success ::
    "('c, 'd) sampler_env \<Rightarrow> ('c, 'u) VmonContext \<Rightarrow> 'd VmonRequest \<Rightarrow> (int \<times> ('c, 'u) VmonContext) option" where
  \<comment> \<open>\<open>for (j = 0; j < records_num; j++)\<close>: no turn for a negative number\<close>
  "collect_success env ctx req =
     map_option (\<lambda>ctx. (0, ctx)) (collect_loop env ctx req (response_init env) 0 (nat (rq_records_num req)))"

definition sampling_collect ::
    "('c, 'd) sampler_env \<Rightarrow> ('c, 'u) VmonContext \<Rightarrow> 'd VmonRequest \<Rightarrow> int \<Rightarrow> bool \<Rightarrow>
     (int \<times> ('c, 'u) VmonContext) option" where
  "sampling_collect env ctx req error timeout =
     (if error \<noteq> 0 \<or> timeout then Some (0, collect_error env ctx req error timeout)
      else collect_success env ctx req)"

section \<open>Dispatch\<close>

definition dispatch_request ::
    "('c, 'd) sampler_env \<Rightarrow> ('c, 'u) VmonContext \<Rightarrow> ull \<Rightarrow> 'd VmonRequest \<Rightarrow>
     (int \<times> ('c, 'u) VmonContext) option" where
  \<comment> \<open>\<open>executor_dispatch (..., sampling_collect, &req, sizeof (req), ctx->conf.timeout)\<close>\<close>
  "dispatch_request env ctx work req =
     map_option (\<lambda>(err, exc). (err, ctx\<lparr>cx_executor := exc\<rparr>))
       (executor_dispatch (cx_executor ctx) work (sampling_collect_addr env) (req_image env req)
          sizeof_VmonRequest (cf_timeout (cx_conf ctx)))"

fun list_loop ::
    "('c, 'd) sampler_env \<Rightarrow> ('c, 'u) VmonContext \<Rightarrow> 'd VmonRequest \<Rightarrow> 'd list \<Rightarrow> int \<Rightarrow>
     (int \<times> ('c, 'u) VmonContext) option" where
  "list_loop env ctx req [] err = Some (err, ctx)"
| "list_loop env ctx req (d # domains) err =
     (let vreq = req\<lparr>rq_dom := Some d\<rparr>
      in case dispatch_request env ctx (sample_domain_work_addr env) vreq of
           None \<Rightarrow> None
         | Some (err, ctx) \<Rightarrow>
             (let ctx = (if err \<noteq> 0 then collect_error env ctx vreq err False else ctx)
              in list_loop env ctx req domains err))"

definition list_domains_work ::
    "('c, 'd) sampler_env \<Rightarrow> ('c, 'u) VmonContext \<Rightarrow> 'd VmonRequest \<Rightarrow> (int \<times> ('c, 'u) VmonContext) option" where
  "list_domains_work env ctx req =
     (let (ret, domains) = vir_ConnectListAllDomains env (cx_conn ctx) (cx_flags ctx)
      in if ret < 0 then Some (ret, collect_error env ctx req ret False)
         else if nat ret \<le> length domains then list_loop env ctx req (take (nat ret) domains) 0
         else None)"

definition sampler_send_request ::
    "('c, 'd) sampler_env \<Rightarrow> ('c, 'u) VmonContext \<Rightarrow> 'd VmonRequest \<Rightarrow> (int \<times> ('c, 'u) VmonContext) option" where
  "sampler_send_request env ctx req =
     (let task = (if cf_bulk_sampling (cx_conf ctx) then bulk_sampling_work_addr env
                  else list_domains_work_addr env)
      in dispatch_request env ctx task req)"

definition sampler_handle_request ::
    "('c, 'd) sampler_env \<Rightarrow> ('c, 'u) VmonContext \<Rightarrow> jsmntok_t list \<Rightarrow> string \<Rightarrow> nat \<Rightarrow>
     (int \<times> ('c, 'u) VmonContext) option" where
  "sampler_handle_request env ctx mem text sz =
     (case sampler_parse_request (lv_consts env) (uuid_parse env) mem text sz of
        None \<Rightarrow> None
      | Some (err, sr) \<Rightarrow>
          if err = 0 then sampler_send_request env ctx (req_zero\<lparr>rq_sr := sr\<rparr>)
          else Some (err, ctx))"

section \<open>Collecting\<close>

definition response_tail :: string where
  "response_tail = '' }'' @ [CHR 0x0A]"

definition record_response ::
    "('c, 'd) sampler_env \<Rightarrow> VmonConfig \<Rightarrow> 'd VmonRequest \<Rightarrow> 'd virDomainStatsRecord \<Rightarrow> string" where
  \<comment> \<open>what is to be written for a record\<close>
  "record_response env cf req record =
     (let vm = snd (the (vminfo_parse (calloc_ok env) (vir_DomainGetUUIDString env) vminfo_init record))
      in the (vminfo_send_events vm \<lparr>disk_usage_perc = cf_disk_usage_perc cf\<rparr>) @
         (if cf_events_only cf then []
          else response_head (uuid_unparse env (sr_uuid (rq_sr req))) (time_now env) @ the (vminfo_print_json vm) @ response_tail))"

definition written :: "('c, 'd) sampler_env \<Rightarrow> string \<Rightarrow> string" where
  "written env s = take (os_write env s) s"

lemma send_events_defined:
  assumes "devices_wf (vm_block vm)"
  shows "vminfo_send_events vm checks \<noteq> None"
proof (cases "nstats (vm_block vm)")
  case (Suc n)
  then have "device_array (vm_block vm) \<noteq> []" using assms by (auto simp: devices_wf_def)
  then obtain st where "stats_at (vm_block vm) 0 = Some st" by (simp add: stats_at_def)
  then show ?thesis by (simp add: vminfo_send_events_def send_events_loop_first)
qed (simp add: vminfo_send_events_def)

lemma collect_record_ok:
  assumes "\<And>n sz. calloc_ok env n sz" and "vir_DomainGetUUIDString env (rec_dom record) = Some u"
    and "res_ts res = time_now env"
  shows "\<exists>res'. res_ts res' = time_now env \<and> collect_record env ctx req res record =
    Some (write_response env ctx (record_response env (cx_conf ctx) req record), res')"
proof -
  obtain vm where vm: "vminfo_parse (calloc_ok env) (vir_DomainGetUUIDString env) vminfo_init record = Some (0, vm)"
      "vm_wf vm" "devices_owned bs_xname (vm_block vm)" "devices_owned is_xname (vm_iface vm)"
      "xstats (vm_vcpu vm) \<noteq> Freed"
    using vminfo_parse_ready [of "calloc_ok env" "vir_DomainGetUUIDString env" "record" u] assms by metis
  obtain ev where ev: "vminfo_send_events vm \<lparr>disk_usage_perc = cf_disk_usage_perc (cx_conf ctx)\<rparr> = Some ev"
    using send_events_defined vm(2) by (metis vm_wf_def option.exhaust)
  obtain js where js: "vminfo_print_json vm = Some js"
    using vminfo_print_wf [of vm] vm(2) by (auto simp: vm_wf_def)
  obtain vm' where fr: "vminfo_free vm = Some vm'"
    using vminfo_free_cases [OF vm(3,4)] vm(5) by auto
  show ?thesis
    by (simp add: collect_record_def record_response_def vm(1) ev js fr assms(3) response_print_def response_begin_def
      response_finish_def response_close_def response_open_def response_tail_def)
qed

lemma write_response_simps [simp]:
  "cx_conf (write_response env ctx s) = cx_conf ctx" "cx_executor (write_response env ctx s) = cx_executor ctx"
  "cx_out (write_response env ctx s) = cx_out ctx @ [written env s]"
  by (simp_all add: write_response_def written_def)

lemma collect_loop_ok:
  assumes "\<And>n sz. calloc_ok env n sz"
    and "\<forall>r \<in> set (rq_records req). \<exists>u. vir_DomainGetUUIDString env (rec_dom r) = Some u"
  shows "j + k \<le> length (rq_records req) \<Longrightarrow> res_ts res = time_now env \<Longrightarrow> collect_loop env ctx req res j k =
    Some (ctx\<lparr>cx_out := cx_out ctx @
      map (\<lambda>r. written env (record_response env (cx_conf ctx) req r)) (take k (drop j (rq_records req)))\<rparr>)"
proof (induction k arbitrary: j ctx res)
  case (Suc k)
  let ?r = "rq_records req ! j"
  have j: "j < length (rq_records req)" using Suc.prems by simp
  then obtain u where "vir_DomainGetUUIDString env (rec_dom ?r) = Some u" using assms(2) nth_mem by metis
  then obtain res' where c: "collect_record env ctx req res ?r =
      Some (write_response env ctx (record_response env (cx_conf ctx) req ?r), res')" "res_ts res' = time_now env"
    using collect_record_ok [OF assms(1) _ Suc.prems(2)] by metis
  have "take (Suc k) (drop j (rq_records req)) = ?r # take k (drop (j + 1) (rq_records req))"
    using j by (simp flip: Cons_nth_drop_Suc)
  then show ?case
    using Suc.IH [of "j + 1" res'] Suc.prems j c by (simp add: write_response_def written_def)
qed simp

section \<open>Dispatching\<close>

definition request_task :: "('c, 'd) sampler_env \<Rightarrow> VmonConfig \<Rightarrow> ull \<Rightarrow> 'd VmonRequest \<Rightarrow> TaskData" where
  \<comment> \<open>the task that carries a request\<close>
  "request_task env cf work req =
     the (dispatch_task work (sampling_collect_addr env) (req_image env req) sizeof_VmonRequest (cf_timeout cf))"

lemma request_task_fields:
  assumes "length (req_image env req) = sizeof_VmonRequest"
  shows "td_work (request_task env cf work req) = work"
    and "td_collect (request_task env cf work req) = sampling_collect_addr env"
    and "td_timeout (request_task env cf work req) = word_of_int (cf_timeout cf)"
    and "take 56 (td_data (request_task env cf work req)) = req_image env req"
  using assms by (simp_all add: request_task_def dispatch_task_def mem_read_def)

lemma dispatch_request_law:
  assumes "exec_wf (cx_executor ctx)" and "length (req_image env req) = sizeof_VmonRequest"
  shows "\<exists>exc. dispatch_request env ctx work req =
      Some (if ex_running (cx_executor ctx) \<and> 0 < exec_room (cx_executor ctx) then 0 else -1,
            ctx\<lparr>cx_executor := exc\<rparr>) \<and>
    exec_wf exc \<and> ex_running exc = ex_running (cx_executor ctx) \<and>
    (if ex_running (cx_executor ctx) \<and> 0 < exec_room (cx_executor ctx)
     then exec_tasks exc = exec_tasks (cx_executor ctx) @ [request_task env (cx_conf ctx) work req] \<and>
       exec_room exc = exec_room (cx_executor ctx) - 1
     else exc = cx_executor ctx)"
proof (cases "ex_running (cx_executor ctx)")
  case True
  obtain t where t: "dispatch_task work (sampling_collect_addr env) (req_image env req) 56 (cf_timeout (cx_conf ctx)) =
      Some t" "task_ok t"
    using dispatch_task_data [OF assms(2), of work "sampling_collect_addr env" "cf_timeout (cx_conf ctx)"]
    by (auto simp: TASK_DATA_EMBED_MAX_SIZE_def)
  then have d: "dispatch_request env ctx work req =
      map_option (\<lambda>(err, exc). (err, ctx\<lparr>cx_executor := exc\<rparr>)) (queue_task (cx_executor ctx) t)"
    using True by (simp add: dispatch_request_def executor_dispatch_def TASK_DATA_EMBED_MAX_SIZE_def)
  show ?thesis
    using queue_task_law [OF assms(1) t(2)] True t(1) unfolding d by (auto simp: request_task_def)
next
  case False
  then show ?thesis
    using assms by (simp add: dispatch_request_def executor_dispatch_def TASK_DATA_EMBED_MAX_SIZE_def)
qed

lemma list_loop_law:
  assumes img: "\<And>r. length (req_image env r) = sizeof_VmonRequest"
  shows "exec_wf (cx_executor ctx) \<Longrightarrow> ex_running (cx_executor ctx) \<Longrightarrow>
    \<exists>e exc. list_loop env ctx req ds err = Some (e, ctx\<lparr>cx_executor := exc,
        cx_out := cx_out ctx @ map (\<lambda>d. written env (error_response env (req\<lparr>rq_dom := Some d\<rparr>) (-1) False))
          (drop (exec_room (cx_executor ctx)) ds)\<rparr>) \<and>
      exec_wf exc \<and> ex_running exc \<and>
      exec_tasks exc = exec_tasks (cx_executor ctx) @
        map (\<lambda>d. request_task env (cx_conf ctx) (sample_domain_work_addr env) (req\<lparr>rq_dom := Some d\<rparr>))
          (take (exec_room (cx_executor ctx)) ds) \<and>
      e = (if ds = [] then err else if length ds \<le> exec_room (cx_executor ctx) then 0 else -1)"
proof (induction ds arbitrary: ctx err)
  case Nil
  then show ?case by (intro exI [of _ err] exI [of _ "cx_executor ctx"]) simp
next
  case (Cons d ds)
  let ?req = "req\<lparr>rq_dom := Some d\<rparr>" and ?ex = "cx_executor ctx" and ?a = "sample_domain_work_addr env"
  show ?case
  proof (cases "0 < exec_room ?ex")
    case True
    obtain exc where d: "dispatch_request env ctx ?a ?req = Some (0, ctx\<lparr>cx_executor := exc\<rparr>)"
        "exec_wf exc" "ex_running exc" "exec_room exc = exec_room ?ex - 1"
        "exec_tasks exc = exec_tasks ?ex @ [request_task env (cx_conf ctx) ?a ?req]"
      using dispatch_request_law [OF Cons.prems(1) img, of ?a ?req] Cons.prems(2) True by auto
    obtain n where n: "exec_room ?ex = Suc n" using True by (cases "exec_room ?ex") auto
    show ?thesis
      using Cons.IH [of "ctx\<lparr>cx_executor := exc\<rparr>" 0] d n by (auto simp: Let_def)
  next
    case False
    then have d: "dispatch_request env ctx ?a ?req = Some (-1, ctx)"
      using dispatch_request_law [OF Cons.prems(1) img, of ?a ?req] Cons.prems(2) by (cases ctx) auto
    let ?ctx = "write_response env ctx (error_response env ?req (-1) False)"
    have "list_loop env ctx req (d # ds) err = list_loop env ?ctx req ds (-1)"
      by (simp add: d collect_error_def Let_def)
    then show ?thesis
      using Cons.IH [of ?ctx "-1"] Cons.prems False by (auto simp: write_response_def written_def)
  qed
qed

section \<open>Properties\<close>

definition env0 :: "(unit, nat) sampler_env" where
  \<comment> \<open>two domains, the first of which has one record; each sample fails\<close>
  "env0 = \<lparr>lv_consts = lv0, uuid_parse = keep_uuid, uuid_unparse = (\<lambda>u. ''u''), time_now = 5,
     os_write = length,
     vir_ConnectGetAllDomainStats = (\<lambda>c st. (-1, [])), vir_DomainListGetStats = (\<lambda>ds st. (-1, [])),
     vir_ConnectListAllDomains = (\<lambda>c fl. (2, [0, 1])),
     vir_DomainGetUUIDString = (\<lambda>d. Some ''d''), calloc_ok = (\<lambda>n sz. True),
     req_image = (\<lambda>r. replicate sizeof_VmonRequest 0), sample_domain_work_addr = 10,
     bulk_sampling_work_addr = 11, list_domains_work_addr = 12, sampling_collect_addr = 13\<rparr>"

definition ctx0 :: "(unit, unit) VmonContext" where
  "ctx0 = \<lparr>cx_conf = \<lparr>cf_threads = 2, cf_tasks = 1, cf_timeout = 1000, cf_period = 0, cf_log_level = 0,
       cf_log_file = None, cf_bulk_sampling = False, cf_disk_usage_perc = 80, cf_events_only = False\<rparr>,
     cx_conn = Some (), cx_out = [], cx_flags = 0, cx_executor = ex_running_exec\<rparr>"

definition req0 :: "nat VmonRequest" where
  "req0 = \<lparr>rq_sr = sr_clear, rq_dom = Some 0, rq_records = [\<lparr>rec_dom = 0, rec_params = []\<rparr>], rq_records_num = 1\<rparr>"

lemma ctx0_facts: "exec_wf (cx_executor ctx0)" "ex_running (cx_executor ctx0)" "exec_room (cx_executor ctx0) = 1"
    "exec_tasks (cx_executor ctx0) = []"
  using ex_running_exec_facts by (simp_all add: ctx0_def)

lemma env0_image: "\<forall>r. length (req_image env0 r) = sizeof_VmonRequest"
  by (simp add: env0_def)



text \<open>C17: listing \<open>n\<close> domains on a running executor queues one sampling task for each of the first
  domains, as many as the queue has room for, in order, behind the tasks already there, each carrying its
  domain in a copy of the request and the configured time-out; for each domain after those one error response with the code -1 is
  written. The result is 0 exactly if all were queued.\<close>

theorem list_domains_dispatch:
  assumes "vir_ConnectListAllDomains env (cx_conn ctx) (cx_flags ctx) = (int (length ds), ds)"
    and "exec_wf (cx_executor ctx)" and "ex_running (cx_executor ctx)"
    and "\<forall>r. length (req_image env r) = sizeof_VmonRequest"
  shows "\<exists>exc. list_domains_work env ctx req =
      Some (if length ds \<le> exec_room (cx_executor ctx) then 0 else -1,
        ctx\<lparr>cx_executor := exc,
          cx_out := cx_out ctx @ map (\<lambda>d. written env (error_response env (req\<lparr>rq_dom := Some d\<rparr>) (-1) False))
            (drop (exec_room (cx_executor ctx)) ds)\<rparr>) \<and>
    exec_tasks exc = exec_tasks (cx_executor ctx) @
      map (\<lambda>d. request_task env (cx_conf ctx) (sample_domain_work_addr env) (req\<lparr>rq_dom := Some d\<rparr>))
        (take (exec_room (cx_executor ctx)) ds)"
proof -
  have l: "list_domains_work env ctx req = list_loop env ctx req ds 0"
    using assms(1) by (simp add: list_domains_work_def)
  show ?thesis
    using list_loop_law [of env ctx req ds 0] assms(2-4) unfolding l by force
qed

theorem list_domains_dispatch_witness:
  "\<exists>e ctx. list_domains_work env0 ctx0 req0 = Some (-1, ctx) \<and> length (cx_out ctx) = 1 \<and>
    exec_tasks (cx_executor ctx) = [request_task env0 (cx_conf ctx0) 10 (req0\<lparr>rq_dom := Some 0\<rparr>)]"
proof -
  have l: "vir_ConnectListAllDomains env0 (cx_conn ctx0) (cx_flags ctx0) = (int (length [0, 1 :: nat]), [0, 1])"
    by (simp add: env0_def)
  have a: "sample_domain_work_addr env0 = 10" by (simp add: env0_def)
  have o: "cx_out ctx0 = []" by (simp add: ctx0_def)
  show ?thesis
    using list_domains_dispatch [OF l ctx0_facts(1,2) env0_image, of req0] ctx0_facts(3,4) by (auto simp: a o)
qed

text \<open>A request that does not parse is refused with -1 and nothing is queued; any other one queues at most one task,
  the bulk sampler or the lister by the configuration, which carries the parsed request.
  The result is 0 if it was queued and -1 if the executor does not run or its queue is full; the request always
  fits into a task.\<close>

lemma handle_request_result:
  assumes "sampler_parse_request (lv_consts env) (uuid_parse env) mem text sz = Some (err, sr)"
    and "exec_wf (cx_executor ctx)" and "\<forall>r. length (req_image env r) = sizeof_VmonRequest"
  shows "if err \<noteq> 0 then sampler_handle_request env ctx mem text sz = Some (err, ctx)
    else \<exists>exc. sampler_handle_request env ctx mem text sz =
        Some (if ex_running (cx_executor ctx) \<and> 0 < exec_room (cx_executor ctx) then 0 else -1,
          ctx\<lparr>cx_executor := exc\<rparr>) \<and>
      exec_tasks exc = exec_tasks (cx_executor ctx) @
        (if ex_running (cx_executor ctx) \<and> 0 < exec_room (cx_executor ctx)
         then [request_task env (cx_conf ctx)
           (if cf_bulk_sampling (cx_conf ctx) then bulk_sampling_work_addr env else list_domains_work_addr env)
           (req_zero\<lparr>rq_sr := sr\<rparr>)]
         else [])"
proof (cases "err = 0")
  case True
  have img: "length (req_image env (req_zero\<lparr>rq_sr := sr\<rparr>)) = sizeof_VmonRequest" using assms(3) by blast
  let ?work = "if cf_bulk_sampling (cx_conf ctx) then bulk_sampling_work_addr env else list_domains_work_addr env"
  have h: "sampler_handle_request env ctx mem text sz = dispatch_request env ctx ?work (req_zero\<lparr>rq_sr := sr\<rparr>)"
    using assms(1) True by (simp add: sampler_handle_request_def sampler_send_request_def Let_def)
  show ?thesis
  proof (cases "ex_running (cx_executor ctx) \<and> 0 < exec_room (cx_executor ctx)")
    case room: True
    then show ?thesis
      using dispatch_request_law [OF assms(2) img, of ?work] unfolding h True by (simp only: if_True) auto
  next
    case False
    then show ?thesis
      using dispatch_request_law [OF assms(2) img, of ?work] unfolding h True
      by (simp only: if_False) (auto intro!: exI [of _ "cx_executor ctx"])
  qed
next
  case False
  then show ?thesis using assms(1) by (simp add: sampler_handle_request_def)
qed

lemma handle_request_result_example:
  "\<exists>exc. sampler_handle_request env0 ctx0 mem0 req_get_stats (length req_get_stats) =
      Some (0, ctx0\<lparr>cx_executor := exc\<rparr>) \<and>
    exec_tasks exc = [request_task env0 (cx_conf ctx0) 12 (req_zero\<lparr>rq_sr := sr_clear\<lparr>sr_stats := 40\<rparr>\<rparr>)]"
proof -
  have p: "sampler_parse_request (lv_consts env0) (uuid_parse env0) mem0 req_get_stats (length req_get_stats) =
      Some (0, sr_clear\<lparr>sr_stats := 40\<rparr>)"
    using req_get_stats_parse by (simp add: env0_def)
  have a: "list_domains_work_addr env0 = 12" "cf_bulk_sampling (cx_conf ctx0) = False"
    by (simp_all add: env0_def ctx0_def)
  show ?thesis
    using handle_request_result [OF p ctx0_facts(1) env0_image] ctx0_facts by (simp add: a)
qed

text \<open>A failure of libvirt is silent: when sampling returns a negative count, the task still reports success, and
  collecting it writes nothing at all, neither a response nor an error.\<close>

lemma libvirt_failure_silent:
  assumes "fst (vir_ConnectGetAllDomainStats env (cx_conn ctx) (sr_stats (rq_sr req))) < 0"
  shows "\<exists>req'. sample_domain_work env ctx req = (0, req') \<and>
    sampling_collect env ctx req' 0 False = Some (0, ctx)"
  using assms
  by (auto simp: sample_domain_work_def sampling_collect_def collect_success_def split: prod.splits)

lemma libvirt_failure_silent_example:
  "sampling_collect env0 ctx0 (snd (sample_domain_work env0 ctx0 req0)) 0 False = Some (0, ctx0)"
proof -
  have "fst (vir_ConnectGetAllDomainStats env0 (cx_conn ctx0) (sr_stats (rq_sr req0))) < 0"
    by (simp add: env0_def)
  from libvirt_failure_silent [OF this] show ?thesis by auto
qed

end
