(* ===== verification/Executor_Threads.thy ===== *)
theory Executor_Threads
  imports Executor Ring_Buffer_Threads "HOL-Library.Multiset"
begin

text \<open>
  The worker threads of \<^verbatim>\<open>lib/executor.c\<close> and the scheduler thread that discards late tasks, in
  any interleaving. \<open>worker_execute\<close> is cut at its accesses to the shared worker
  structure: the phase of a thread is the point it has reached, with its local \<open>task\<close>.
  \<open>worker_discard\<close> is cut between its test of \<open>wo->current\<close>, the write through it, and
  \<open>executor_replace\<close>. Waiting on the empty queue is in \<^verbatim>\<open>Ring_Buffer_Threads\<close>: here a thread that calls
  \<open>ringbuffer_get\<close> takes its step when there is a task. The functions of the users are
  parameters: the set of the values each may return. The lists \<open>taken_in\<close> and \<open>collected\<close>
  record the tasks that were accepted and the calls of the collect functions.
\<close>

section \<open>State\<close>

datatype phase =
    Getting                    \<comment> \<open>in \<open>ringbuffer_get\<close>\<close>
  | Got TaskData               \<comment> \<open>has a task\<close>
  | Armed TaskData             \<comment> \<open>after \<open>scheduler_add\<close>\<close>
  | Working TaskData           \<comment> \<open>\<open>wo->current\<close> set, in \<open>task.td.work\<close>\<close>
  | Returned TaskData int
  | Cleared TaskData int       \<comment> \<open>\<open>wo->current\<close> cleared\<close>
  | Collecting TaskData int    \<comment> \<open>after \<open>scheduler_del\<close>\<close>
  | Exited

record wthread =
  slot :: nat
  phase :: phase

datatype sched_phase = S_Idle | S_Tested nat | S_Replace nat

record 'u xsys =
  exc :: "'u Executor"
  threads :: "wthread list"
  timers :: "(guint \<times> nat) set"  \<comment> \<open>the pending timeouts: source ID and worker\<close>
  sched :: sched_phase
  taken_in :: "TaskData list"
  collected :: "(TaskData \<times> int \<times> bool) list"
  stops :: nat
  replaced :: nat

definition upd_worker :: "'u Executor \<Rightarrow> nat \<Rightarrow> (Worker \<Rightarrow> Worker) \<Rightarrow> 'u Executor" where
  "upd_worker ex w f = ex\<lparr>ex_workers := map_option (\<lambda>ws. ws[w := f (ws ! w)]) (ex_workers ex)\<rparr>"

definition worker_at :: "'u Executor \<Rightarrow> nat \<Rightarrow> Worker" where
  "worker_at ex w = (case ex_workers ex of None \<Rightarrow> worker_zero | Some ws \<Rightarrow> ws ! w)"

definition current_of :: "'u Executor \<Rightarrow> nat \<Rightarrow> nat option" where
  "current_of ex w = wo_current (worker_at ex w)"

definition in_phase :: "'u xsys \<Rightarrow> nat \<Rightarrow> phase \<Rightarrow> bool" where
  "in_phase s t ph \<longleftrightarrow> t < length (threads s) \<and> phase (threads s ! t) = ph"

definition goto :: "'u xsys \<Rightarrow> nat \<Rightarrow> phase \<Rightarrow> 'u xsys" where
  "goto s t ph = s\<lparr>threads := (threads s)[t := (threads s ! t)\<lparr>phase := ph\<rparr>]\<rparr>"

definition the_slot :: "'u xsys \<Rightarrow> nat \<Rightarrow> nat" where
  "the_slot s t = slot (threads s ! t)"

section \<open>The functions of the workers\<close>

definition worker_arm :: "guint \<Rightarrow> nat \<Rightarrow> TaskData \<Rightarrow> 'u xsys \<Rightarrow> 'u xsys" where
  \<comment> \<open>\<open>wo->sched_id = scheduler_add (...)\<close> if the task has a time-out\<close>
  "worker_arm ident w td s =
     (if td_timeout td \<noteq> 0
      then s\<lparr>exc := upd_worker (exc s) w (\<lambda>wo. wo\<lparr>wo_sched_id := ident\<rparr>),
             timers := insert (ident, w) (timers s)\<rparr>
      else s)"

definition worker_cancel :: "nat \<Rightarrow> TaskData \<Rightarrow> 'u xsys \<Rightarrow> 'u xsys" where
  \<comment> \<open>\<open>scheduler_del (wo->scheduler, wo->sched_id)\<close> if the task had a time-out and was not discarded\<close>
  "worker_cancel w td s =
     (if td_timeout td \<noteq> 0 \<and> td_discarded td = 0
      then s\<lparr>timers := {x \<in> timers s. fst x \<noteq> wo_sched_id (worker_at (exc s) w)}\<rparr>
      else s)"

definition call_work :: "exec_symbols \<Rightarrow> (TaskData \<Rightarrow> int set) \<Rightarrow> TaskData \<Rightarrow> int set" where
  "call_work syms work td = (if td_work td = StopWorker_addr syms then {StopWorker} else work td)"

definition call_collect ::
    "exec_symbols \<Rightarrow> (TaskData \<Rightarrow> int \<Rightarrow> bool \<Rightarrow> int set) \<Rightarrow> TaskData \<Rightarrow> int \<Rightarrow> int set" where
  "call_collect syms coll td err =
     (let timeout = (td_discarded td \<noteq> 0)
      in if td_collect td = StopCollect_addr syms then {StopCollect err timeout}
         else coll td err timeout)"

definition worker_loop :: "int \<Rightarrow> phase" where
  \<comment> \<open>\<open>worker_run\<close>: the loop ends when \<open>worker_execute\<close> returns an error\<close>
  "worker_loop err = (if err = 0 then Getting else Exited)"

definition mark_discarded :: "phase \<Rightarrow> phase" where
  "mark_discarded ph =
     (case ph of
        Working td \<Rightarrow> Working (td\<lparr>td_discarded := 1\<rparr>)
      | Returned td r \<Rightarrow> Returned (td\<lparr>td_discarded := 1\<rparr>) r
      | _ \<Rightarrow> ph)"

section \<open>Steps\<close>

inductive x_step ::
    "exec_symbols \<Rightarrow> (TaskData \<Rightarrow> int set) \<Rightarrow> (TaskData \<Rightarrow> int \<Rightarrow> bool \<Rightarrow> int set) \<Rightarrow>
     'u xsys \<Rightarrow> 'u xsys \<Rightarrow> bool" for syms work coll where
  dispatches: "coladdr \<noteq> StopCollect_addr syms \<Longrightarrow> length dat = n \<Longrightarrow>
    executor_dispatch (exc s) wrk coladdr dat n timeout = Some (r, exc') \<Longrightarrow>
    x_step syms work coll s (s\<lparr>exc := exc',
      taken_in := (if r = 0 then taken_in s @ [the (dispatch_task wrk coladdr dat n timeout)] else taken_in s)\<rparr>)"
| stop_one: "executor_stop_worker syms (exc s) = Some (r, exc') \<Longrightarrow>
    x_step syms work coll s (s\<lparr>exc := exc',
      taken_in := (if r = 0 then taken_in s @ [stop_task syms] else taken_in s),
      stops := (if r = 0 then stops s + 1 else stops s)\<rparr>)"
| fetches: "in_phase s t Getting \<Longrightarrow> ex_tasks (exc s) = Some rb \<Longrightarrow>
    ringbuffer_get rb = Some (Get_Done bs rb') \<Longrightarrow>
    x_step syms work coll s (goto (s\<lparr>exc := (exc s)\<lparr>ex_tasks := Some rb'\<rparr>\<rparr>) t (Got (task_of_bytes bs)))"
| arms: "in_phase s t (Got td) \<Longrightarrow> ident \<noteq> 0 \<Longrightarrow> ident \<notin> fst ` timers s \<Longrightarrow>
    x_step syms work coll s (goto (worker_arm ident (the_slot s t) td s) t (Armed td))"
| set_current: "in_phase s t (Armed td) \<Longrightarrow>
    x_step syms work coll s
      (goto (s\<lparr>exc := upd_worker (exc s) (the_slot s t) (\<lambda>wo. wo\<lparr>wo_current := Some t\<rparr>)\<rparr>) t (Working td))"
| works: "in_phase s t (Working td) \<Longrightarrow> r \<in> call_work syms work td \<Longrightarrow>
    x_step syms work coll s (goto s t (Returned td r))"
| clear_current: "in_phase s t (Returned td r) \<Longrightarrow>
    x_step syms work coll s
      (goto (s\<lparr>exc := upd_worker (exc s) (the_slot s t) (\<lambda>wo. wo\<lparr>wo_current := None\<rparr>)\<rparr>) t (Cleared td r))"
| cancels: "in_phase s t (Cleared td r) \<Longrightarrow>
    x_step syms work coll s (goto (worker_cancel (the_slot s t) td s) t (Collecting td r))"
| collects: "in_phase s t (Collecting td r) \<Longrightarrow> c \<in> call_collect syms coll td r \<Longrightarrow>
    x_step syms work coll s
      (goto (s\<lparr>collected := collected s @ [(td, r, td_discarded td \<noteq> 0)]\<rparr>) t (worker_loop c))"
| fires: "sched s = S_Idle \<Longrightarrow> (ident, w) \<in> timers s \<Longrightarrow>
    x_step syms work coll s (s\<lparr>timers := timers s - {(ident, w)},
      sched := (if current_of (exc s) w \<noteq> None then S_Tested w else S_Replace w)\<rparr>)"
| marks: "sched s = S_Tested w \<Longrightarrow> current_of (exc s) w = Some t \<Longrightarrow>
    x_step syms work coll s
      (goto (s\<lparr>sched := S_Replace w\<rparr>) t (mark_discarded (phase (threads s ! t))))"
| replaces: "sched s = S_Replace w \<Longrightarrow>
    executor_replace rc (length (threads s)) (exc s) w = Some (r, exc') \<Longrightarrow>
    x_step syms work coll s (s\<lparr>exc := exc', sched := S_Idle,
      threads := (if rc = 0 then threads s @ [\<lparr>slot = w, phase = Getting\<rparr>] else threads s),
      replaced := (if rc = 0 then replaced s + 1 else replaced s)\<rparr>)"

definition x_init :: "'u Executor \<Rightarrow> 'u xsys" where
  \<comment> \<open>after \<open>executor_start\<close>, every thread created\<close>
  "x_init ex = \<lparr>exc = ex,
     threads = map (\<lambda>i. \<lparr>slot = i, phase = Getting\<rparr>) [0..<ex_workers_count ex],
     timers = {}, sched = S_Idle, taken_in = [], collected = [], stops = 0, replaced = 0\<rparr>"

inductive x_reach ::
    "exec_symbols \<Rightarrow> (TaskData \<Rightarrow> int set) \<Rightarrow> (TaskData \<Rightarrow> int \<Rightarrow> bool \<Rightarrow> int set) \<Rightarrow>
     'u Executor \<Rightarrow> 'u xsys \<Rightarrow> bool" for syms work coll ex where
  start: "x_reach syms work coll ex (x_init ex)"
| more: "x_reach syms work coll ex s \<Longrightarrow> x_step syms work coll s s' \<Longrightarrow> x_reach syms work coll ex s'"

section \<open>Invariant\<close>

definition base :: "TaskData \<Rightarrow> TaskData" where
  \<comment> \<open>a task without the mark of \<open>worker_discard\<close>\<close>
  "base td = td\<lparr>td_discarded := 0\<rparr>"

fun phase_tasks :: "phase \<Rightarrow> TaskData list" where
  "phase_tasks Getting = []"
| "phase_tasks (Got td) = [td]"
| "phase_tasks (Armed td) = [td]"
| "phase_tasks (Working td) = [td]"
| "phase_tasks (Returned td r) = [td]"
| "phase_tasks (Cleared td r) = [td]"
| "phase_tasks (Collecting td r) = [td]"
| "phase_tasks Exited = []"

definition in_flight :: "wthread list \<Rightarrow> TaskData list" where
  "in_flight ts = concat (map (phase_tasks \<circ> phase) ts)"

definition is_current :: "phase \<Rightarrow> bool" where
  "is_current ph \<longleftrightarrow> (case ph of Working td \<Rightarrow> True | Returned td r \<Rightarrow> True | _ \<Rightarrow> False)"

definition stop_collect :: "exec_symbols \<Rightarrow> TaskData \<Rightarrow> bool" where
  "stop_collect syms td \<longleftrightarrow> td_collect td = StopCollect_addr syms"

definition exited :: "wthread list \<Rightarrow> nat" where
  "exited ts = length (filter (\<lambda>th. phase th = Exited) ts)"

definition current_inv :: "'u xsys \<Rightarrow> bool" where
  "current_inv s \<longleftrightarrow>
     (\<forall>w < ex_workers_count (exc s). \<forall>t. current_of (exc s) w = Some t \<longrightarrow>
        t < length (threads s) \<and> the_slot s t = w \<and> is_current (phase (threads s ! t)))"

definition shape_inv :: "'u xsys \<Rightarrow> bool" where
  "shape_inv s \<longleftrightarrow> exec_wf (exc s) \<and> (\<forall>t < length (threads s). the_slot s t < ex_workers_count (exc s)) \<and>
     (\<forall>x \<in> timers s. snd x < ex_workers_count (exc s)) \<and>
     (\<forall>w. sched s = S_Tested w \<or> sched s = S_Replace w \<longrightarrow> w < ex_workers_count (exc s)) \<and>
     length (threads s) = ex_workers_count (exc s) + replaced s"

definition task_inv :: "'u xsys \<Rightarrow> bool" where
  "task_inv s \<longleftrightarrow>
     mset (map base (taken_in s)) =
       mset (map base (exec_tasks (exc s))) + mset (map base (in_flight (threads s))) +
       mset (map (base \<circ> fst) (collected s))"

definition stop_inv :: "exec_symbols \<Rightarrow> 'u xsys \<Rightarrow> bool" where
  "stop_inv syms s \<longleftrightarrow> length (filter (stop_collect syms) (taken_in s)) = stops s \<and>
     exited (threads s) \<le> length (filter (stop_collect syms \<circ> fst) (collected s))"

section \<open>Projections\<close>

lemma goto_simps [simp]:
  "exc (goto s t ph) = exc s" "timers (goto s t ph) = timers s" "sched (goto s t ph) = sched s"
  "taken_in (goto s t ph) = taken_in s" "collected (goto s t ph) = collected s"
  "stops (goto s t ph) = stops s" "replaced (goto s t ph) = replaced s"
  "length (threads (goto s t ph)) = length (threads s)"
  by (simp_all add: goto_def)

lemma goto_slot [simp]: "the_slot (goto s t ph) u = the_slot s u"
  by (cases "u = t"; cases "t < length (threads s)") (simp_all add: goto_def the_slot_def list_update_beyond)

lemma goto_phase:
  "t < length (threads s) \<Longrightarrow> phase (threads (goto s t ph) ! u) = (if u = t then ph else phase (threads s ! u))"
  by (simp add: goto_def nth_list_update)

lemma upd_worker_simps [simp]:
  "ex_workers_count (upd_worker ex w f) = ex_workers_count ex" "ex_tasks (upd_worker ex w f) = ex_tasks ex"
  "ex_running (upd_worker ex w f) = ex_running ex" "exec_tasks (upd_worker ex w f) = exec_tasks ex"
  "exec_wf (upd_worker ex w f) = exec_wf ex"
  by (auto simp: upd_worker_def exec_tasks_def exec_wf_def)

lemma worker_at_upd:
  "exec_wf ex \<Longrightarrow> w < ex_workers_count ex \<Longrightarrow>
   worker_at (upd_worker ex w f) v = (if v = w then f (worker_at ex w) else worker_at ex v)"
  by (auto simp: upd_worker_def worker_at_def exec_wf_def nth_list_update)

lemma mset_concat_update:
  "i < length xs \<Longrightarrow> mset (concat (map f (xs[i := x]))) + mset (f (xs ! i)) = mset (concat (map f xs)) + mset (f x)"
proof (induction xs arbitrary: i)
  case (Cons y ys)
  then show ?case by (cases i) (auto simp: ac_simps)
qed simp

lemma in_flight_goto:
  assumes "t < length (threads s)"
  shows "mset (map base (in_flight (threads (goto s t ph)))) +
      mset (map base (phase_tasks (phase (threads s ! t)))) =
    mset (map base (in_flight (threads s))) + mset (map base (phase_tasks ph))"
  using arg_cong [OF mset_concat_update [OF assms, of "phase_tasks \<circ> phase" "(threads s ! t)\<lparr>phase := ph\<rparr>"],
      of "image_mset base"]
  by (simp add: in_flight_def goto_def)

lemma exited_goto:
  assumes "t < length (threads s)"
  shows "exited (threads (goto s t ph)) + (if phase (threads s ! t) = Exited then 1 else 0) =
    exited (threads s) + (if ph = Exited then 1 else 0)"
proof -
  have "length (concat (map g (xs[i := x]))) + length (g (xs ! i)) = length (concat (map g xs)) + length (g x)"
    if "i < length xs" for g :: "wthread \<Rightarrow> unit list" and xs i x
    using arg_cong [OF mset_concat_update [OF that, of g x], of size] by simp
  from this [OF assms, of "\<lambda>th. if phase th = Exited then [()] else []" "(threads s ! t)\<lparr>phase := ph\<rparr>"]
  have "length (concat (map (\<lambda>th. if phase th = Exited then [()] else []) (threads (goto s t ph)))) +
      (if phase (threads s ! t) = Exited then 1 else 0) =
    length (concat (map (\<lambda>th. if phase th = Exited then [()] else []) (threads s))) +
      (if ph = Exited then 1 else 0)"
    by (simp add: goto_def split: if_splits)
  moreover have "length (concat (map (\<lambda>th. if phase th = Exited then [()] else []) ts)) = exited ts" for ts
    by (induction ts) (auto simp: exited_def)
  ultimately show ?thesis by simp
qed

lemma fetch_law:
  assumes wf: "exec_wf ex" and rb: "ex_tasks ex = Some rb" and g: "ringbuffer_get rb = Some (Get_Done bs rb')"
  shows "exec_wf (ex\<lparr>ex_tasks := Some rb'\<rparr>)"
    and "exec_tasks ex = task_of_bytes bs # exec_tasks (ex\<lparr>ex_tasks := Some rb'\<rparr>)"
proof -
  let ?rb = "rb\<lparr>rb_waiters := rb_waiters rb + 1\<rparr>"
  have wf': "rb_wf ?rb" "rb_elem_size rb = 128" using wf rb by (auto simp: exec_wf_def)
  have ne: "rb_used ?rb \<noteq> 0"
    using g by (auto simp: ringbuffer_get_def rb_get_test_def rb_is_empty_def)
  obtain r where r: "rb_get_test ?rb = Some (Get_Done (hd (rb_contents ?rb)) r)" "rb_wf r"
      "rb_contents r = tl (rb_contents ?rb)" "rb_elem_size r = rb_elem_size ?rb"
    using rb_get_test_nonempty [OF wf'(1) ne] by metis
  have "rb_contents rb \<noteq> []"
    using ne wf' rb_contents_empty [of ?rb] by (simp add: rb_is_empty_def)
  with r g show "exec_wf (ex\<lparr>ex_tasks := Some rb'\<rparr>)"
    "exec_tasks ex = task_of_bytes bs # exec_tasks (ex\<lparr>ex_tasks := Some rb'\<rparr>)"
    using wf wf' rb by (auto simp: exec_wf_def exec_tasks_def ringbuffer_get_def neq_Nil_conv)
qed

lemma put_law:
  assumes wf: "exec_wf ex" and q: "queue_task ex td = Some (r, ex')" and ok: "task_ok td"
  shows "exec_wf ex'" and "exec_tasks ex' = (if r = 0 then exec_tasks ex @ [td] else exec_tasks ex)"
    and "ex_workers ex' = ex_workers ex" and "ex_workers_count ex' = ex_workers_count ex"
  using queue_task_law [OF wf ok] q by auto

lemma dispatch_law:
  assumes wf: "exec_wf ex" and d: "executor_dispatch ex wrk col dat n timeout = Some (r, ex')"
    and n: "length dat = n"
  shows "exec_wf ex'" and "ex_workers ex' = ex_workers ex" and "ex_workers_count ex' = ex_workers_count ex"
    and "if r = 0
      then exec_tasks ex' = exec_tasks ex @ [the (dispatch_task wrk col dat n timeout)] \<and>
        td_collect (the (dispatch_task wrk col dat n timeout)) = col
      else exec_tasks ex' = exec_tasks ex"
proof -
  have "exec_wf ex' \<and> ex_workers ex' = ex_workers ex \<and> ex_workers_count ex' = ex_workers_count ex \<and>
    (if r = 0
      then exec_tasks ex' = exec_tasks ex @ [the (dispatch_task wrk col dat n timeout)] \<and>
        td_collect (the (dispatch_task wrk col dat n timeout)) = col
      else exec_tasks ex' = exec_tasks ex)"
  proof (cases "n > TASK_DATA_EMBED_MAX_SIZE \<or> \<not> ex_running ex")
    case True
    then show ?thesis using wf d by (auto simp: executor_dispatch_def split: if_splits)
  next
    case False
    then obtain td where td: "dispatch_task wrk col dat n timeout = Some td" "task_ok td" "td_collect td = col"
      using dispatch_task_data [OF n] by (metis linorder_not_less)
    then have "queue_task ex td = Some (r, ex')" using d False by (simp add: executor_dispatch_def)
    from put_law [OF wf this td(2)] td show ?thesis by simp
  qed
  then show "exec_wf ex'" "ex_workers ex' = ex_workers ex" "ex_workers_count ex' = ex_workers_count ex"
    "if r = 0
      then exec_tasks ex' = exec_tasks ex @ [the (dispatch_task wrk col dat n timeout)] \<and>
        td_collect (the (dispatch_task wrk col dat n timeout)) = col
      else exec_tasks ex' = exec_tasks ex"
    by blast+
qed

lemma replace_law:
  assumes wf: "exec_wf ex" and w: "w < ex_workers_count ex" and r: "executor_replace rc tid ex w = Some (r, ex')"
  shows "exec_wf ex'" and "exec_tasks ex' = exec_tasks ex" and "ex_workers_count ex' = ex_workers_count ex"
    and "current_of ex' v = (if v = w then None else current_of ex v)"
  using assms
  by (auto simp: executor_replace_def worker_init_def worker_zero_def exec_wf_def exec_tasks_def
      current_of_def worker_at_def nth_list_update)

lemma arm_simps [simp]:
  "ex_workers_count (exc (worker_arm i w td s)) = ex_workers_count (exc s)"
  "exec_wf (exc (worker_arm i w td s)) = exec_wf (exc s)" "threads (worker_arm i w td s) = threads s"
  "exec_tasks (exc (worker_arm i w td s)) = exec_tasks (exc s)"
  "sched (worker_arm i w td s) = sched s" "replaced (worker_arm i w td s) = replaced s"
  "taken_in (worker_arm i w td s) = taken_in s" "collected (worker_arm i w td s) = collected s"
  "stops (worker_arm i w td s) = stops s"
  by (simp_all add: worker_arm_def)

lemma cancel_simps [simp]:
  "exc (worker_cancel w td s) = exc s" "threads (worker_cancel w td s) = threads s"
  "sched (worker_cancel w td s) = sched s" "replaced (worker_cancel w td s) = replaced s"
  "taken_in (worker_cancel w td s) = taken_in s" "collected (worker_cancel w td s) = collected s"
  "stops (worker_cancel w td s) = stops s"
  by (simp_all add: worker_cancel_def)

lemma the_slot_less: "shape_inv s \<Longrightarrow> t < length (threads s) \<Longrightarrow> the_slot s t < ex_workers_count (exc s)"
  by (simp add: shape_inv_def)

lemma the_slot_cong: "threads s' = threads s \<Longrightarrow> the_slot s' t = the_slot s t"
  by (simp add: the_slot_def)

lemma shape_goto: "shape_inv s \<Longrightarrow> shape_inv (goto s t ph)"
  by (simp add: shape_inv_def)

lemma the_slot_update [simp]:
  "the_slot (s\<lparr>exc := e\<rparr>) t = the_slot s t" "the_slot (s\<lparr>sched := d\<rparr>) t = the_slot s t"
  "the_slot (s\<lparr>timers := m\<rparr>) t = the_slot s t" "the_slot (s\<lparr>taken_in := l\<rparr>) t = the_slot s t"
  "the_slot (s\<lparr>collected := c\<rparr>) t = the_slot s t" "the_slot (s\<lparr>stops := k\<rparr>) t = the_slot s t"
  "the_slot (worker_arm i w td s) t = the_slot s t" "the_slot (worker_cancel w td s) t = the_slot s t"
  by (simp_all add: the_slot_def)

lemma shape_step:
  assumes "x_step syms work coll s s'" and "shape_inv s"
  shows "shape_inv s'"
  using assms
proof (induction rule: x_step.induct)
  case (dispatches coladdr dat n s wrk timeout r exc')
  then show ?case
    using dispatch_law [OF _ dispatches(3,2)] by (simp add: shape_inv_def)
next
  case (stop_one s r exc')
  then show ?case
    using put_law [of "exc s" "stop_task syms" r exc'] by (simp add: shape_inv_def executor_stop_worker_def)
next
  case (fetches s t rb bs rb')
  then have "shape_inv (s\<lparr>exc := (exc s)\<lparr>ex_tasks := Some rb'\<rparr>\<rparr>)"
    using fetch_law [OF _ fetches(2,3)] by (simp add: shape_inv_def)
  then show ?case by (rule shape_goto)
next
  case (arms s t td ident)
  then have "shape_inv (worker_arm ident (the_slot s t) td s)"
    using the_slot_less [of s t] by (auto simp: shape_inv_def worker_arm_def in_phase_def)
  then show ?case by (rule shape_goto)
next
  case (cancels s t td r)
  then have "shape_inv (worker_cancel (the_slot s t) td s)"
    by (auto simp: shape_inv_def worker_cancel_def)
  then show ?case by (rule shape_goto)
next
  case (fires s ident w)
  then show ?case by (auto simp: shape_inv_def split: if_splits)
next
  case (replaces s w rc r exc')
  then show ?case
    using replace_law [of "exc s" w rc "length (threads s)" r exc']
    by (auto simp: shape_inv_def the_slot_def nth_append)
qed (auto intro!: shape_goto simp: shape_inv_def)

lemma current_upd:
  "exec_wf ex \<Longrightarrow> w < ex_workers_count ex \<Longrightarrow>
   current_of (upd_worker ex w f) v = (if v = w then wo_current (f (worker_at ex w)) else current_of ex v)"
  by (simp add: current_of_def worker_at_upd)

lemma current_same_workers: "ex_workers ex' = ex_workers ex \<Longrightarrow> current_of ex' v = current_of ex v"
  by (simp add: current_of_def worker_at_def)

lemma current_goto:
  assumes "current_inv s" and "t < length (threads s)"
    and "is_current ph \<or> (\<forall>w < ex_workers_count (exc s). current_of (exc s) w \<noteq> Some t)"
  shows "current_inv (goto s t ph)"
  using assms by (auto simp: current_inv_def goto_phase)

lemma not_current:
  "current_inv s \<Longrightarrow> in_phase s t ph \<Longrightarrow> \<not> is_current ph \<Longrightarrow>
   \<forall>w < ex_workers_count (exc s). current_of (exc s) w \<noteq> Some t"
  by (auto simp: current_inv_def in_phase_def)

lemma is_current_simps [simp]:
  "\<not> is_current Getting" "\<not> is_current (Got td)" "\<not> is_current (Armed td)" "is_current (Working td)"
  "is_current (Returned td r)" "\<not> is_current (Cleared td r)" "\<not> is_current (Collecting td r)"
  "\<not> is_current Exited" "is_current (mark_discarded ph) = is_current ph"
  by (simp_all add: is_current_def mark_discarded_def split: phase.split)

lemma current_set:
  assumes c: "current_inv s" and sh: "shape_inv s" and t: "t < length (threads s)"
    and f: "wo_current (f (worker_at (exc s) (the_slot s t))) = Some t \<and> is_current ph \<or>
      wo_current (f (worker_at (exc s) (the_slot s t))) = None"
  shows "current_inv (goto (s\<lparr>exc := upd_worker (exc s) (the_slot s t) f\<rparr>) t ph)"
proof -
  let ?w = "the_slot s t"
  have cu: "current_of (upd_worker (exc s) ?w f) v =
      (if v = ?w then wo_current (f (worker_at (exc s) ?w)) else current_of (exc s) v)" for v
    using current_upd [of "exc s" ?w f v] sh the_slot_less [OF sh t] by (simp add: shape_inv_def)
  have other: "u < length (threads s) \<and> the_slot s u = v \<and> is_current (phase (threads s ! u)) \<and> u \<noteq> t"
    if "v < ex_workers_count (exc s)" "v \<noteq> ?w" "current_of (exc s) v = Some u" for v u
    using c that by (auto simp: current_inv_def)
  have "u < length (threads s) \<and> the_slot s u = v \<and> is_current (if u = t then ph else phase (threads s ! u))"
    if v: "v < ex_workers_count (exc s)" and u: "current_of (upd_worker (exc s) ?w f) v = Some u" for v u
  proof (cases "v = ?w")
    case True
    then have "wo_current (f (worker_at (exc s) ?w)) = Some u" using u by (simp add: cu)
    then show ?thesis using f t True by auto
  next
    case False
    then have "current_of (exc s) v = Some u" using u by (simp add: cu)
    then show ?thesis using other [OF v False] by auto
  qed
  then have "\<forall>v < ex_workers_count (exc s). \<forall>u. current_of (upd_worker (exc s) ?w f) v = Some u \<longrightarrow>
      u < length (threads s) \<and> the_slot s u = v \<and> is_current (if u = t then ph else phase (threads s ! u))"
    by blast
  then show ?thesis using t by (simp add: current_inv_def goto_phase split del: if_split cong: if_cong)
qed

lemma current_cong:
  assumes "current_inv s" and "threads s' = threads s" and "ex_workers_count (exc s') = ex_workers_count (exc s)"
    and "\<And>v. v < ex_workers_count (exc s) \<Longrightarrow> current_of (exc s') v = current_of (exc s) v"
  shows "current_inv s'"
  using assms by (auto simp: current_inv_def the_slot_def)

lemma current_quiet:
  assumes "current_inv s" and "in_phase s t ph" and "\<not> is_current ph"
    and "threads s' = threads s" and "ex_workers_count (exc s') = ex_workers_count (exc s)"
    and "\<And>v. v < ex_workers_count (exc s) \<Longrightarrow> current_of (exc s') v = current_of (exc s) v"
  shows "current_inv (goto s' t ph')"
  using current_cong [OF assms(1,4,5,6)] not_current [OF assms(1-3)] assms(2,4-6)
  by (intro current_goto) (auto simp: in_phase_def)

lemma current_step:
  assumes "x_step syms work coll s s'" and "shape_inv s" and "current_inv s"
  shows "current_inv s'"
  using assms
proof (induction rule: x_step.induct)
  case (dispatches coladdr dat n s wrk timeout r exc')
  then have wf: "exec_wf (exc s)" by (simp add: shape_inv_def)
  note l = dispatch_law(2,3) [OF wf dispatches(3,2)]
  show ?case
    by (rule current_cong [OF dispatches(5)]) (simp_all add: l(2) current_same_workers [OF l(1)])
next
  case (stop_one s r exc')
  then have wf: "exec_wf (exc s)" by (simp add: shape_inv_def)
  note l = put_law(3,4) [OF wf stop_one(1) [unfolded executor_stop_worker_def] stop_task_ok]
  show ?case
    by (rule current_cong [OF stop_one(3)]) (simp_all add: l(2) current_same_workers [OF l(1)])
next
  case (fetches s t rb bs rb')
  show ?case
    by (rule current_quiet [OF fetches(5,1)]) (simp_all add: current_of_def worker_at_def)
next
  case (arms s t td ident)
  then have "wf": "exec_wf (exc s)" "the_slot s t < ex_workers_count (exc s)"
    using the_slot_less [of s t] by (simp_all add: shape_inv_def in_phase_def)
  show ?case
    by (rule current_quiet [OF arms(5,1)])
      (auto simp: worker_arm_def current_upd [OF wf] split: if_splits, simp_all add: current_of_def)
next
  case (set_current s t td)
  then show ?case by (intro current_set) (simp_all add: in_phase_def)
next
  case (works s t td r)
  then show ?case by (intro current_goto) (simp_all add: in_phase_def)
next
  case (clear_current s t td r)
  then show ?case by (intro current_set) (simp_all add: in_phase_def)
next
  case (cancels s t td r)
  show ?case by (rule current_quiet [OF cancels(3,1)]) simp_all
next
  case (collects s t td r c)
  show ?case by (rule current_quiet [OF collects(4,1)]) simp_all
next
  case (fires s ident w)
  show ?case by (rule current_cong [OF fires(4)]) simp_all
next
  case (marks s w t)
  then have t: "t < length (threads s)" "is_current (phase (threads s ! t))"
    by (auto simp: current_inv_def shape_inv_def)
  have "current_inv (s\<lparr>sched := S_Replace w\<rparr>)" by (rule current_cong [OF marks(4)]) simp_all
  then show ?case using t by (intro current_goto) simp_all
next
  case (replaces s w rc r exc')
  then have wf: "exec_wf (exc s)" "w < ex_workers_count (exc s)" by (auto simp: shape_inv_def)
  note l = replace_law [OF wf replaces(2)]
  show ?case
    using replaces(4) l by (auto simp: current_inv_def the_slot_def nth_append)
qed

lemma base_discard [simp]: "base (td\<lparr>td_discarded := d\<rparr>) = base td"
  by (simp add: base_def)

lemma phase_tasks_mark [simp]: "map base (phase_tasks (mark_discarded ph)) = map base (phase_tasks ph)"
  by (simp add: mark_discarded_def split: phase.split)

lemma phase_tasks_loop [simp]: "phase_tasks (worker_loop c) = []"
  by (simp add: worker_loop_def)

lemma flight_same:
  assumes "t < length (threads s)" and "map base (phase_tasks ph) = map base (phase_tasks (phase (threads s ! t)))"
  shows "mset (map base (in_flight (threads (goto s t ph)))) = mset (map base (in_flight (threads s)))"
  using in_flight_goto [OF assms(1), of ph] assms(2) by simp

lemma task_same:
  assumes "task_inv s" and "in_phase s t ph" and "map base (phase_tasks ph') = map base (phase_tasks ph)"
    and "threads s' = threads s" and "exec_tasks (exc s') = exec_tasks (exc s)"
    and "taken_in s' = taken_in s" and "collected s' = collected s"
  shows "task_inv (goto s' t ph')"
  using assms flight_same [of t s' ph'] by (simp add: task_inv_def in_phase_def)

lemma task_step:
  assumes "x_step syms work coll s s'" and "shape_inv s" and "current_inv s" and "task_inv s"
  shows "task_inv s'"
  using assms
proof (induction rule: x_step.induct)
  case (dispatches coladdr dat n s wrk timeout r exc')
  then have wf: "exec_wf (exc s)" by (simp add: shape_inv_def)
  show ?case
    using dispatches(6) dispatch_law(4) [OF wf dispatches(3,2)] by (auto simp: task_inv_def split: if_splits)
next
  case (stop_one s r exc')
  then have wf: "exec_wf (exc s)" by (simp add: shape_inv_def)
  show ?case
    using stop_one(4) put_law(2) [OF wf stop_one(1) [unfolded executor_stop_worker_def] stop_task_ok]
    by (auto simp: task_inv_def)
next
  case (fetches s t rb bs rb')
  then have wf: "exec_wf (exc s)" and t: "t < length (threads s)" "phase (threads s ! t) = Getting"
    by (simp_all add: shape_inv_def in_phase_def)
  let ?s = "s\<lparr>exc := (exc s)\<lparr>ex_tasks := Some rb'\<rparr>\<rparr>"
  have "mset (map base (in_flight (threads (goto ?s t (Got (task_of_bytes bs)))))) =
      mset (map base (in_flight (threads s))) + {#base (task_of_bytes bs)#}"
    using in_flight_goto [of t ?s "Got (task_of_bytes bs)"] t by simp
  then show ?case using fetches(6) fetch_law(2) [OF wf fetches(2,3)] by (simp add: task_inv_def)
next
  case (arms s t td ident)
  then show ?case by (intro task_same [OF _ arms(1)]) simp_all
next
  case (set_current s t td)
  then show ?case by (intro task_same [OF _ set_current(1)]) simp_all
next
  case (works s t td r)
  then show ?case by (intro task_same [OF _ works(1)]) simp_all
next
  case (clear_current s t td r)
  then show ?case by (intro task_same [OF _ clear_current(1)]) simp_all
next
  case (cancels s t td r)
  then show ?case by (intro task_same [OF _ cancels(1)]) simp_all
next
  case (collects s t td r c)
  then have t: "t < length (threads s)" "phase (threads s ! t) = Collecting td r" by (simp_all add: in_phase_def)
  let ?s = "s\<lparr>collected := collected s @ [(td, r, td_discarded td \<noteq> 0)]\<rparr>"
  have "mset (map base (in_flight (threads (goto ?s t (worker_loop c))))) + {#base td#} =
      mset (map base (in_flight (threads s)))"
    using in_flight_goto [of t ?s "worker_loop c"] t by simp
  then show ?case using collects(5) by (auto simp: task_inv_def ac_simps)
next
  case (fires s ident w)
  then show ?case by (simp add: task_inv_def)
next
  case (marks s w t)
  then have "t < length (threads s)" by (auto simp: current_inv_def shape_inv_def)
  then show ?case
    using marks(5) flight_same [of t "s\<lparr>sched := S_Replace w\<rparr>"] by (simp add: task_inv_def)
next
  case (replaces s w rc r exc')
  then have wf: "exec_wf (exc s)" "w < ex_workers_count (exc s)" by (auto simp: shape_inv_def)
  show ?case
    using replaces(5) replace_law(2) [OF wf replaces(2)] by (auto simp: task_inv_def in_flight_def)
qed

lemma exited_same:
  assumes "in_phase s t ph" and "ph \<noteq> Exited" and "ph' \<noteq> Exited" and "threads s' = threads s"
  shows "exited (threads (goto s' t ph')) = exited (threads s)"
  using exited_goto [of t s' ph'] assms by (simp add: in_phase_def)

lemma mark_not_exited: "mark_discarded ph = Exited \<longleftrightarrow> ph = Exited"
  by (simp add: mark_discarded_def split: phase.split)

lemma stop_step:
  assumes "x_step syms work coll s s'" and "shape_inv s" and "current_inv s" and "stop_inv syms s"
    and "\<And>td e d. coll td e d \<subseteq> {0}"
  shows "stop_inv syms s'"
  using assms(1-4)
proof (induction rule: x_step.induct)
  case (dispatches coladdr dat n s wrk timeout r exc')
  then have wf: "exec_wf (exc s)" by (simp add: shape_inv_def)
  show ?case
    using dispatches(1,6) dispatch_law(4) [OF wf dispatches(3,2)]
    by (auto simp: stop_inv_def stop_collect_def split: if_splits)
next
  case (stop_one s r exc')
  then show ?case by (auto simp: stop_inv_def stop_collect_def stop_task_def)
next
  case (collects s t td r c)
  then have t: "t < length (threads s)" "phase (threads s ! t) = Collecting td r" by (simp_all add: in_phase_def)
  let ?s = "s\<lparr>collected := collected s @ [(td, r, td_discarded td \<noteq> 0)]\<rparr>"
  have "exited (threads (goto ?s t (worker_loop c))) = exited (threads s) + (if c = 0 then 0 else 1)"
    using exited_goto [of t ?s "worker_loop c"] t by (simp add: worker_loop_def)
  moreover have "c \<noteq> 0 \<Longrightarrow> stop_collect syms td"
    using collects(2) assms(5) by (auto simp: call_collect_def stop_collect_def Let_def split: if_splits)
  ultimately show ?case using collects(5) by (auto simp: stop_inv_def)
next
  case (marks s w t)
  then have "t < length (threads s)" "is_current (phase (threads s ! t))"
    by (auto simp: current_inv_def shape_inv_def)
  then have "exited (threads (goto (s\<lparr>sched := S_Replace w\<rparr>) t (mark_discarded (phase (threads s ! t))))) =
      exited (threads s)"
    by (intro exited_same [of _ _ "phase (threads s ! t)"]) (auto simp: in_phase_def mark_not_exited)
  then show ?case using marks(5) by (simp add: stop_inv_def)
next
  case (replaces s w rc r exc')
  then show ?case by (auto simp: stop_inv_def exited_def)
qed (simp_all add: stop_inv_def exited_same)

lemma x_reach_inv:
  assumes "x_reach syms work coll ex s" and "exec_wf ex" and "exec_tasks ex = []"
    and "\<And>w. w < ex_workers_count ex \<Longrightarrow> current_of ex w = None"
  shows "shape_inv s" and "current_inv s" and "task_inv s"
proof -
  from assms(1) have "shape_inv s \<and> current_inv s \<and> task_inv s"
  proof induction
    case start
    have "in_flight (threads (x_init ex)) = []" by (auto simp: in_flight_def x_init_def)
    then show ?case
      using assms(2-4) by (auto simp: shape_inv_def current_inv_def task_inv_def x_init_def the_slot_def)
  next
    case (more s s')
    then show ?case using shape_step current_step task_step by blast
  qed
  then show "shape_inv s" "current_inv s" "task_inv s" by blast+
qed

lemma x_reach_stop:
  assumes "x_reach syms work coll ex s" and "exec_wf ex" and "exec_tasks ex = []"
    and "\<And>w. w < ex_workers_count ex \<Longrightarrow> current_of ex w = None"
    and "\<And>td e d. coll td e d \<subseteq> {0}"
  shows "stop_inv syms s"
  using assms(1)
proof induction
  case start
  then show ?case by (simp add: stop_inv_def x_init_def exited_def)
next
  case (more s s')
  then show ?case
    using stop_step [OF more(2) x_reach_inv(1,2) [OF more(1) assms(2-4)] more(3)] assms(5) by blast
qed

lemma stops_collected:
  assumes "task_inv s"
  shows "length (filter (stop_collect syms \<circ> fst) (collected s)) \<le> length (filter (stop_collect syms) (taken_in s))"
proof -
  let ?st = "\<lambda>td. td_collect td = StopCollect_addr syms"
  have b: "?st (base td) = ?st td" for td by (simp add: base_def)
  have st: "stop_collect syms = ?st" by (rule ext) (simp add: stop_collect_def)
  have "mset (map (base \<circ> fst) (collected s)) \<subseteq># mset (map base (taken_in s))"
    using assms by (simp add: task_inv_def)
  then have "size (filter_mset ?st (mset (map (base \<circ> fst) (collected s)))) \<le>
      size (filter_mset ?st (mset (map base (taken_in s))))"
    by (intro size_mset_mono multiset_filter_mono)
  then show "length (filter (stop_collect syms \<circ> fst) (collected s)) \<le> length (filter (stop_collect syms) (taken_in s))"
    by (simp add: filter_mset_image_mset b comp_def st flip: mset_filter)
qed

section \<open>A late task\<close>

definition x_started :: "'u Executor \<Rightarrow> bool" where
  \<comment> \<open>an executor just after \<open>executor_start\<close>: workers, an empty queue, no current task\<close>
  "x_started ex \<longleftrightarrow> exec_wf ex \<and> exec_tasks ex = [] \<and> ex_running ex \<and> 0 < exec_room ex \<and>
     0 < ex_workers_count ex \<and> (\<forall>w < ex_workers_count ex. current_of ex w = None)"

lemma fetch_exists:
  assumes wf: "exec_wf ex" and ne: "exec_tasks ex = td # tds"
  obtains rb bs rb' where "ex_tasks ex = Some rb" "ringbuffer_get rb = Some (Get_Done bs rb')"
    "task_of_bytes bs = td"
proof -
  obtain rb where rb: "ex_tasks ex = Some rb" "rb_wf rb" using wf by (auto simp: exec_wf_def)
  then have "map task_of_bytes (rb_contents rb) = td # tds" using ne by (simp add: exec_tasks_def)
  then obtain e q where e: "rb_deq rb = Some (Some e, q)" "task_of_bytes e = td"
    using taskq.typed_deq [OF rb(2)] by metis
  then have "ringbuffer_get rb = Some (Get_Done e q)"
    by (cases "ringbuffer_get rb") (auto simp: rb_deq_def split: get_step.splits)
  with rb e show thesis using that by blast
qed

lemma dispatch_ok:
  assumes "exec_wf ex" and "ex_running ex" and "0 < exec_room ex"
  obtains td ex' where "executor_dispatch ex wrk col [] 0 100 = Some (0, ex')"
    "dispatch_task wrk col [] 0 100 = Some td" "exec_wf ex'" "exec_tasks ex' = exec_tasks ex @ [td]"
    "td_timeout td = 100" "ex_workers_count ex' = ex_workers_count ex" "ex_workers ex' = ex_workers ex"
proof -
  obtain td where td: "dispatch_task wrk col [] 0 100 = Some td" "task_ok td" "td_timeout td = word_of_int 100"
    using dispatch_task_data [of "[]" 0 wrk col 100] by auto
  then have "executor_dispatch ex wrk col [] 0 100 = queue_task ex td"
    using assms(2) by (simp add: executor_dispatch_def)
  with queue_task_law [OF assms(1) td(2)] assms(3) td show thesis by (auto intro: that)
qed

lemma run_tested:
  assumes st: "x_started ex" and col: "col \<noteq> StopCollect_addr syms"
  obtains s td where "x_reach syms work coll ex s" "sched s = S_Tested 0" "current_of (exc s) 0 = Some 0"
    "in_phase s 0 (Working td)" "the_slot s 0 = 0" "stops s = 0" "replaced s = 0" "exec_wf (exc s)"
    "0 < ex_workers_count (exc s)" "td_timeout td = 100"
proof -
  have wf: "exec_wf ex" "ex_running ex" "0 < exec_room ex" "0 < ex_workers_count ex" "exec_tasks ex = []"
    using st by (auto simp: x_started_def)
  obtain td ex1 where d: "executor_dispatch ex 0 col [] 0 100 = Some (0, ex1)"
      "exec_wf ex1" "exec_tasks ex1 = [td]" "td_timeout td = 100" "ex_workers_count ex1 = ex_workers_count ex"
    using dispatch_ok [OF wf(1-3), of 0 col] unfolding wf(5) append_Nil by metis
  let ?s0 = "x_init ex"
  let ?s1 = "?s0\<lparr>exc := ex1, taken_in := [the (dispatch_task 0 col [] 0 100)]\<rparr>"
  have "x_step syms work coll ?s0 (?s0\<lparr>exc := ex1, taken_in := (if (0 :: int) = 0
      then taken_in ?s0 @ [the (dispatch_task 0 col [] 0 100)] else taken_in ?s0)\<rparr>)"
    by (rule x_step.dispatches [OF col _]) (simp_all add: x_init_def d)
  then have r1: "x_reach syms work coll ex ?s1"
    using x_reach.more [OF x_reach.start] by (simp add: x_init_def)
  obtain rb bs rb' where f: "ex_tasks ex1 = Some rb" "ringbuffer_get rb = Some (Get_Done bs rb')"
      "task_of_bytes bs = td"
    using fetch_exists [OF d(2,3)] by metis
  let ?s2 = "goto (?s1\<lparr>exc := (exc ?s1)\<lparr>ex_tasks := Some rb'\<rparr>\<rparr>) 0 (Got (task_of_bytes bs))"
  have p0: "in_phase ?s1 0 Getting" and sl: "the_slot ?s1 0 = 0"
    using wf(4) by (simp_all add: in_phase_def x_init_def the_slot_def)
  have r2: "x_reach syms work coll ex ?s2"
    by (rule x_reach.more [OF r1 x_step.fetches [OF p0 _ f(2)]]) (simp add: f)
  have wf2: "exec_wf (exc ?s2)" using fetch_law(1) [OF d(2) f(1,2)] by simp
  have c2: "ex_workers_count (exc ?s2) = ex_workers_count ex" by (simp add: d)
  have p2: "in_phase ?s2 0 (Got td)" and sl2: "the_slot ?s2 0 = 0" "timers ?s2 = {}"
    using p0 wf(4) f(3) by (simp_all add: in_phase_def goto_def x_init_def the_slot_def)
  let ?s3 = "goto (worker_arm 1 (the_slot ?s2 0) td ?s2) 0 (Armed td)"
  have r3: "x_reach syms work coll ex ?s3"
    by (rule x_reach.more [OF r2 x_step.arms [OF p2]]) (simp_all add: x_init_def)
  have p3: "in_phase ?s3 0 (Armed td)" using p2 by (simp add: in_phase_def goto_phase)
  have e3: "timers ?s3 = {(1, 0)}" "sched ?s3 = S_Idle" "the_slot ?s3 0 = 0" "exec_wf (exc ?s3)"
      "ex_workers_count (exc ?s3) = ex_workers_count ex" "stops ?s3 = 0" "replaced ?s3 = 0"
    using d(4) sl2 wf2 c2 by (simp_all add: worker_arm_def) (simp_all add: x_init_def)
  define s3 where "s3 = ?s3"
  note s3 = r3 [folded s3_def] p3 [folded s3_def] e3 [folded s3_def]
  let ?s4 = "goto (s3\<lparr>exc := upd_worker (exc s3) (the_slot s3 0) (\<lambda>wo. wo\<lparr>wo_current := Some 0\<rparr>)\<rparr>) 0 (Working td)"
  have r4: "x_reach syms work coll ex ?s4" by (rule x_reach.more [OF s3(1) x_step.set_current [OF s3(2)]])
  have c4: "current_of (exc ?s4) 0 = Some 0" using s3 wf(4) by (simp add: current_upd)
  have p4: "in_phase ?s4 0 (Working td)" using s3 by (simp add: in_phase_def goto_phase)
  let ?s5 = "?s4\<lparr>timers := timers ?s4 - {(1, 0)},
    sched := (if current_of (exc ?s4) 0 \<noteq> None then S_Tested 0 else S_Replace 0)\<rparr>"
  have r5: "x_reach syms work coll ex ?s5"
    by (rule x_reach.more [OF r4 x_step.fires]) (simp_all add: s3)
  show thesis
    by (rule that [OF r5]) (use c4 p4 s3 wf(4) d(4) in \<open>simp_all add: in_phase_def\<close>)
qed

lemma ex_running_started: "x_started ex_running_exec"
proof -
  have "ex_workers_count ex_running_exec = 2" "current_of ex_running_exec 0 = None"
      "current_of ex_running_exec 1 = None" by code_simp+
  then show ?thesis
    using ex_running_exec_facts by (auto simp: x_started_def less_Suc_eq numeral_2_eq_2)
qed

section \<open>Properties\<close>

text \<open>C1: whatever the interleaving of the workers, the time-outs, the replacements and the callers, no task
  is lost and none runs twice: the tasks that were accepted are, as a multiset, those in the queue, those
  a worker thread holds and those whose collect function was called, once each.\<close>

theorem tasks_exactly_once:
  assumes "x_started ex" and "x_reach syms work coll ex s"
  shows "mset (map base (taken_in s)) =
    mset (map base (exec_tasks (exc s))) + mset (map base (in_flight (threads s))) +
    mset (map (base \<circ> fst) (collected s))"
  using x_reach_inv(3) [OF assms(2)] assms(1) by (auto simp: x_started_def task_inv_def)


text \<open>C25: but the test of \<open>wo->current\<close> does not protect the write: from every started executor a state is
  reachable in which the scheduler thread has passed the test and the pointer is NULL, because the
  work function returned in between. The write is then through NULL.\<close>

theorem discard_null_race:
  assumes "x_started ex" and "\<forall>td. work td \<noteq> {}" and "col \<noteq> StopCollect_addr syms"
  shows "\<exists>s w. x_reach syms work coll ex s \<and> sched s = S_Tested w \<and> current_of (exc s) w = None"
proof -
  obtain s td where s: "x_reach syms work coll ex s" "sched s = S_Tested 0" "current_of (exc s) 0 = Some 0"
      "in_phase s 0 (Working td)" "the_slot s 0 = 0" "exec_wf (exc s)" "0 < ex_workers_count (exc s)"
    using run_tested [OF assms(1,3)] by metis
  have "call_work syms work td \<noteq> {}" using assms(2) by (simp add: call_work_def)
  then obtain r where r: "r \<in> call_work syms work td" by blast
  let ?s1 = "goto s 0 (Returned td r)"
  have r1: "x_reach syms work coll ex ?s1" by (rule x_reach.more [OF s(1) x_step.works [OF s(4) r]])
  have p1: "in_phase ?s1 0 (Returned td r)" using s(4) by (simp add: in_phase_def goto_phase)
  let ?s2 = "goto (?s1\<lparr>exc := upd_worker (exc ?s1) (the_slot ?s1 0) (\<lambda>wo. wo\<lparr>wo_current := None\<rparr>)\<rparr>) 0 (Cleared td r)"
  have "x_reach syms work coll ex ?s2" by (rule x_reach.more [OF r1 x_step.clear_current [OF p1]])
  moreover have "sched ?s2 = S_Tested 0" "current_of (exc ?s2) 0 = None"
    using s by (simp_all add: current_upd)
  ultimately show ?thesis by blast
qed

text \<open>C26: a replaced worker goes on: as long as the users' collect functions return 0, the threads that have not
  ended are at least as many as the discards there were, even after a stop task for each worker was taken. So
  \<open>executor_stop\<close> leaves one thread behind for every late task.\<close>

theorem replaced_workers_survive:
  assumes "x_started ex" and "x_reach syms work coll ex s" and "\<forall>td e d. coll td e d \<subseteq> {0}"
    and "stops s \<le> ex_workers_count (exc s)"
  shows "replaced s \<le> length (threads s) - exited (threads s)"
proof -
  have inv: "shape_inv s" "task_inv s" "stop_inv syms s"
    using x_reach_inv [OF assms(2)] x_reach_stop [OF assms(2)] assms(1,3) by (auto simp: x_started_def)
  from stops_collected [OF inv(2), of syms] have "exited (threads s) \<le> ex_workers_count (exc s)"
    using inv(3) assms(4) by (simp add: stop_inv_def)
  then show ?thesis using inv(1) by (simp add: shape_inv_def)
qed

lemma run_replaced:
  assumes st: "x_started ex" and col: "col \<noteq> StopCollect_addr syms"
  obtains s where "x_reach syms work coll ex s" "replaced s = 1" "stops s = 0"
proof -
  obtain s td where s: "x_reach syms work coll ex s" "sched s = S_Tested 0" "current_of (exc s) 0 = Some 0"
      "stops s = 0" "replaced s = 0" "exec_wf (exc s)" "0 < ex_workers_count (exc s)"
    using run_tested [OF assms] by metis
  let ?s1 = "goto (s\<lparr>sched := S_Replace 0\<rparr>) 0 (mark_discarded (phase (threads s ! 0)))"
  have r1: "x_reach syms work coll ex ?s1" by (rule x_reach.more [OF s(1) x_step.marks [OF s(2,3)]])
  obtain r ex' where rep: "executor_replace 0 (length (threads ?s1)) (exc ?s1) 0 = Some (r, ex')"
    using s(6,7) by (auto simp: executor_replace_def exec_wf_def worker_init_def)
  have sch: "sched ?s1 = S_Replace 0" by simp
  show thesis
    by (rule that [OF x_reach.more [OF r1 x_step.replaces [OF sch rep]]]) (simp_all add: s)
qed

definition work0 :: "TaskData \<Rightarrow> int set" where "work0 td = {0}"

definition coll0 :: "TaskData \<Rightarrow> int \<Rightarrow> bool \<Rightarrow> int set" where "coll0 td e d = {0}"

lemma col0: "7 \<noteq> StopCollect_addr syms0"
  by (simp add: syms0_def)

theorem tasks_exactly_once_witness:
  "\<exists>s. x_reach syms0 work0 coll0 ex_running_exec s \<and> sched s = S_Tested 0 \<and>
    mset (map base (taken_in s)) = mset (map base (exec_tasks (exc s))) +
      mset (map base (in_flight (threads s))) + mset (map (base \<circ> fst) (collected s))"
proof -
  obtain s where s: "x_reach syms0 work0 coll0 ex_running_exec s" "sched s = S_Tested 0"
    using run_tested [OF ex_running_started col0, of work0 coll0] by metis
  with tasks_exactly_once [OF ex_running_started s(1)] show ?thesis by blast
qed


theorem discard_null_race_witness:
  "\<exists>s w. x_reach syms0 work0 coll0 ex_running_exec s \<and> sched s = S_Tested w \<and> current_of (exc s) w = None"
  by (rule discard_null_race [OF ex_running_started _ col0]) (simp add: work0_def)

theorem replaced_workers_survive_witness:
  "\<exists>s. x_reach syms0 work0 coll0 ex_running_exec s \<and> replaced s = 1 \<and>
    1 \<le> length (threads s) - exited (threads s)"
proof -
  obtain s where s: "x_reach syms0 work0 coll0 ex_running_exec s" "replaced s = 1" "stops s = 0"
    using run_replaced [OF ex_running_started col0, of work0 coll0] by metis
  with replaced_workers_survive [OF ex_running_started s(1)] show ?thesis
    by (intro exI [of _ s]) (simp add: coll0_def)
qed

end
