(* ===== verification/Vmon.thy ===== *)
theory Vmon
  imports Sampler Executor_Threads
begin

text \<open>
  The daemon: \<^verbatim>\<open>src/vmon_int.c\<close> (log, input callback, polling) and \<^verbatim>\<open>src/vmon.c\<close> (configuration,
  \<open>main\<close>). The constants of GLib are the fields of \<open>glib_flags\<close>; what a call of GLib or libvirt
  returns is an argument. The state of the daemon is the context with the log and the main loop
  beside it. \<open>None\<close> is undefined behaviour (writing to a closed log), in \<open>vmon_setup_log\<close> the end of
  the program by \<open>g_error\<close>. The messages of the sampler and the executor are not modelled.
\<close>

section \<open>Log levels\<close>

record glib_flags =
  G_LOG_LEVEL_ERROR :: guint
  G_LOG_LEVEL_CRITICAL :: guint
  G_LOG_LEVEL_WARNING :: guint
  G_LOG_LEVEL_MESSAGE :: guint
  G_LOG_LEVEL_INFO :: guint
  G_LOG_LEVEL_DEBUG :: guint
  G_IO_IN :: guint
  G_IO_OUT :: guint
  G_IO_PRI :: guint
  G_IO_ERR :: guint
  G_IO_HUP :: guint
  G_IO_NVAL :: guint

definition log_enabled :: "guint \<Rightarrow> guint \<Rightarrow> bool" where
  "log_enabled current configured \<longleftrightarrow> current AND 0xFC \<le> configured AND 0xFC"

definition g_log_level_to_str :: "glib_flags \<Rightarrow> guint \<Rightarrow> string" where
  "g_log_level_to_str G log_level =
     (if log_level = G_LOG_LEVEL_ERROR G then ''ERR''
      else if log_level = G_LOG_LEVEL_CRITICAL G then ''CRI''
      else if log_level = G_LOG_LEVEL_WARNING G then ''WRN''
      else if log_level = G_LOG_LEVEL_MESSAGE G then ''MSG''
      else if log_level = G_LOG_LEVEL_INFO G then ''INF''
      else if log_level = G_LOG_LEVEL_DEBUG G then ''DBG''
      else ''???'')"

definition g_io_cond_to_str :: "glib_flags \<Rightarrow> guint \<Rightarrow> string" where
  "g_io_cond_to_str G c =
     (if c = G_IO_IN G then ''r'' else if c = G_IO_OUT G then ''w'' else if c = G_IO_PRI G then ''p''
      else if c = G_IO_ERR G then ''!'' else if c = G_IO_HUP G then ''^''
      else if c = G_IO_NVAL G then ''_'' else ''?'')"

section \<open>The daemon\<close>

datatype log_target = Log_Stderr | Log_File string

record ('c, 'u) VmonDaemon =
  vd_ctx :: "('c, 'u) VmonContext"
  vd_log :: log_target
  vd_log_closed :: bool
  vd_log_text :: "string list"
  vd_counter :: nat
  vd_loop_quit :: bool

definition vmon_log ::
    "glib_flags \<Rightarrow> string \<Rightarrow> guint \<Rightarrow> string \<Rightarrow> ('c, 'u) VmonDaemon \<Rightarrow> ('c, 'u) VmonDaemon option" where
  \<comment> \<open>\<open>buf\<close> is the formatted time; the log domain is \<^verbatim>\<open>vmon\<close>\<close>
  "vmon_log G buf log_level message d =
     (if \<not> log_enabled log_level (word_of_int (cf_log_level (cx_conf (vd_ctx d)))) then Some d
      else if vd_log_closed d then None
      else Some (d\<lparr>vd_log_text := vd_log_text d @
             [buf @ '' ['' @ g_log_level_to_str G log_level @ ''] '' @ ''vmon'' @ '': '' @ message @ [CHR 0x0A]]\<rparr>))"

definition vmon_setup_log ::
    "(string \<Rightarrow> bool) \<Rightarrow> glib_flags \<Rightarrow> string \<Rightarrow> ('c, 'u) VmonDaemon \<Rightarrow> ('c, 'u) VmonDaemon option" where
  \<comment> \<open>the first argument: \<open>fopen\<close> opens the file\<close>
  "vmon_setup_log opens G buf d = do {
     d \<leftarrow> (case cf_log_file (cx_conf (vd_ctx d)) of
            Some f \<Rightarrow> if opens f then Some (d\<lparr>vd_log := Log_File f\<rparr>) else None
          | None \<Rightarrow> Some (d\<lparr>vd_log := Log_Stderr\<rparr>));
     vmon_log G buf (G_LOG_LEVEL_INFO G) ''vmon startup'' d }"

definition vmon_teardown_log ::
    "glib_flags \<Rightarrow> string \<Rightarrow> ('c, 'u) VmonDaemon \<Rightarrow> ('c, 'u) VmonDaemon option" where
  "vmon_teardown_log G buf d = do {
     d \<leftarrow> vmon_log G buf (G_LOG_LEVEL_INFO G) ''vmon exiting'' d;
     Some (if vd_log d \<noteq> Log_Stderr then d\<lparr>vd_log_closed := True\<rparr> else d) }"

datatype io_read = Read_Normal string | Read_Error string | Read_Eof | Read_Again

definition vmon_io_callback ::
    "glib_flags \<Rightarrow> ('c, 'd) sampler_env \<Rightarrow> string \<Rightarrow> jsmntok_t list \<Rightarrow> guint \<Rightarrow> io_read \<Rightarrow>
     ('c, 'u) VmonDaemon \<Rightarrow> (bool \<times> ('c, 'u) VmonDaemon) option" where
  \<comment> \<open>\<open>rd\<close> is what \<open>g_io_channel_read_line\<close> returns; the first component of the result is \<open>ret\<close>\<close>
  "vmon_io_callback G env buf mem condition rd d = do {
     d \<leftarrow> vmon_log G buf (G_LOG_LEVEL_DEBUG G) (''fired: '' @ g_io_cond_to_str G condition) d;
     (ret, d) \<leftarrow>
       (case rd of
          Read_Normal line \<Rightarrow> do {
            (err, ctx) \<leftarrow> sampler_handle_request env (vd_ctx d) mem line (length line);
            let d = d\<lparr>vd_ctx := ctx\<rparr>;
            if err = 0 then Some (True, d)
            else do {
              d \<leftarrow> vmon_log G buf (G_LOG_LEVEL_WARNING G) (''error handling request: '' @ dec_int err) d;
              Some (False, d\<lparr>vd_loop_quit := True\<rparr>) } }
        | Read_Error message \<Rightarrow> do {
            d \<leftarrow> vmon_log G buf (G_LOG_LEVEL_WARNING G) (''IO error: '' @ message) d;
            Some (False, d) }
        | Read_Eof \<Rightarrow> do {
            d \<leftarrow> vmon_log G buf (G_LOG_LEVEL_WARNING G) ''no input data available'' d;
            d \<leftarrow> vmon_teardown_log G buf d;
            Some (False, d\<lparr>vd_loop_quit := True\<rparr>) }
        | Read_Again \<Rightarrow> Some (True, d));
     d \<leftarrow> vmon_log G buf (G_LOG_LEVEL_MESSAGE G) ''done'' d;
     Some (ret, d) }"

definition poll_libvirt ::
    "glib_flags \<Rightarrow> ('c, 'd) sampler_env \<Rightarrow> string \<Rightarrow> byte list \<Rightarrow> ('c, 'u) VmonDaemon \<Rightarrow>
     (bool \<times> ('c, 'u) VmonDaemon) option" where
  \<comment> \<open>\<open>uuid\<close> is what \<open>uuid_generate\<close> makes\<close>
  "poll_libvirt G env buf uuid d = do {
     let req = req_zero\<lparr>rq_sr := sr_clear\<lparr>sr_uuid := uuid\<rparr>\<rparr>;
     (err, ctx) \<leftarrow> sampler_send_request env (vd_ctx d) req;
     let d = d\<lparr>vd_ctx := ctx\<rparr>;
     if err \<noteq> 0 then do {
       d \<leftarrow> vmon_log G buf (G_LOG_LEVEL_WARNING G) (''error polling libvirt: '' @ dec_int err) d;
       Some (True, d) }
     else do {
       d \<leftarrow> vmon_log G buf (G_LOG_LEVEL_MESSAGE G) (''polling libvirt: loop #'' @ dec (vd_counter d)) d;
       Some (True, d\<lparr>vd_counter := (vd_counter d + 1) mod 2 ^ 64\<rparr>) } }"

datatype setup_io = Io_Polling guint | Io_Watch guint

definition vmon_setup_io ::
    "('c, 'l, 'f, 'g) glib \<Rightarrow> ('c, 'l) Scheduler \<Rightarrow> 'f \<Rightarrow> glib_flags \<Rightarrow> VmonConfig \<Rightarrow> 'g \<Rightarrow> setup_io \<times> 'g" where
  \<comment> \<open>polling, with the ID of its source, or a watch on the standard input, with its conditions\<close>
  "vmon_setup_io GL sc poll G cf g =
     (if cf_period cf \<noteq> 0
      then (let (ident, g) = scheduler_add GL sc (to_int32 (cf_period cf * 1000)) poll g
            in (Io_Polling ident, g))
      else (Io_Watch (G_IO_IN G OR G_IO_HUP G OR G_IO_ERR G), g))"

section \<open>Configuration\<close>

abbreviation TIMEOUT :: int where "TIMEOUT \<equiv> 1 * 1000"
abbreviation MAX_THREADS :: int where "MAX_THREADS \<equiv> 5"
abbreviation TASKS_PER_THREAD :: int where "TASKS_PER_THREAD \<equiv> 200"

definition config_defaults :: VmonConfig where
  "config_defaults = \<lparr>cf_threads = MAX_THREADS, cf_tasks = MAX_THREADS * TASKS_PER_THREAD,
     cf_timeout = TIMEOUT, cf_period = 0, cf_log_level = 0, cf_log_file = None,
     cf_bulk_sampling = False, cf_disk_usage_perc = 0, cf_events_only = False\<rparr>"

datatype GOptionArg = G_OPTION_ARG_NONE | G_OPTION_ARG_INT | G_OPTION_ARG_STRING

datatype config_field =
  F_timeout | F_tasks | F_threads | F_period | F_log_level | F_log_file | F_bulk_sampling
| F_disk_usage_perc | F_events_only

record GOptionEntry =
  \<comment> \<open>\<open>arg_data\<close> points to a field of the configuration\<close>
  long_name :: string
  short_name :: char
  arg :: GOptionArg
  arg_data :: config_field

definition config_entries :: "GOptionEntry list" where
  "config_entries =
    [\<lparr>long_name = ''timeout'', short_name = CHR ''T'', arg = G_OPTION_ARG_INT, arg_data = F_timeout\<rparr>,
     \<lparr>long_name = ''max-tasks'', short_name = CHR ''t'', arg = G_OPTION_ARG_INT, arg_data = F_tasks\<rparr>,
     \<lparr>long_name = ''max-threads'', short_name = CHR ''c'', arg = G_OPTION_ARG_INT, arg_data = F_threads\<rparr>,
     \<lparr>long_name = ''polling-period'', short_name = CHR ''p'', arg = G_OPTION_ARG_INT, arg_data = F_period\<rparr>,
     \<lparr>long_name = ''log-level'', short_name = CHR ''d'', arg = G_OPTION_ARG_INT, arg_data = F_log_level\<rparr>,
     \<lparr>long_name = ''log-file'', short_name = CHR ''l'', arg = G_OPTION_ARG_STRING, arg_data = F_log_file\<rparr>,
     \<lparr>long_name = ''bulk-sampling'', short_name = CHR ''B'', arg = G_OPTION_ARG_NONE, arg_data = F_bulk_sampling\<rparr>,
     \<lparr>long_name = ''disk-usage-monitor'', short_name = CHR ''U'', arg = G_OPTION_ARG_INT, arg_data = F_disk_usage_perc\<rparr>,
     \<lparr>long_name = ''events-only'', short_name = CHR ''E'', arg = G_OPTION_ARG_NONE, arg_data = F_events_only\<rparr>]"

datatype option_value = V_int int | V_string string | V_true

fun store_option :: "VmonConfig \<Rightarrow> config_field \<times> option_value \<Rightarrow> VmonConfig" where
  \<comment> \<open>what GOption writes through \<open>arg_data\<close>\<close>
  "store_option cf (F_timeout, V_int i) = cf\<lparr>cf_timeout := i\<rparr>"
| "store_option cf (F_tasks, V_int i) = cf\<lparr>cf_tasks := i\<rparr>"
| "store_option cf (F_threads, V_int i) = cf\<lparr>cf_threads := i\<rparr>"
| "store_option cf (F_period, V_int i) = cf\<lparr>cf_period := i\<rparr>"
| "store_option cf (F_log_level, V_int i) = cf\<lparr>cf_log_level := i\<rparr>"
| "store_option cf (F_log_file, V_string s) = cf\<lparr>cf_log_file := Some s\<rparr>"
| "store_option cf (F_bulk_sampling, V_true) = cf\<lparr>cf_bulk_sampling := True\<rparr>"
| "store_option cf (F_disk_usage_perc, V_int i) = cf\<lparr>cf_disk_usage_perc := i\<rparr>"
| "store_option cf (F_events_only, V_true) = cf\<lparr>cf_events_only := True\<rparr>"
| "store_option cf (_, _) = cf"

type_synonym goption = "GOptionEntry list \<Rightarrow> string list \<Rightarrow> (config_field \<times> option_value) list option"
  \<comment> \<open>\<open>g_option_context_parse\<close>: what it stores, in order; \<open>None\<close> if it fails\<close>

definition config_parse_cmdline :: "goption \<Rightarrow> VmonConfig \<Rightarrow> string list \<Rightarrow> int \<times> VmonConfig" where
  "config_parse_cmdline g_option_context_parse conf argv =
     (case g_option_context_parse config_entries argv of
        None \<Rightarrow> (-1, conf)
      | Some stores \<Rightarrow>
          (let conf = foldl store_option conf stores
           in if cf_threads conf \<le> 0 then (-1, conf)
              else if cf_tasks conf \<le> 0 then (-1, conf)
              else if cf_disk_usage_perc conf < 0 \<or> cf_disk_usage_perc conf > 99 then (-1, conf)
              else (0, conf)))"

text \<open>GOption stores values of the type that the entry declares.\<close>

definition well_typed :: "config_field \<times> option_value \<Rightarrow> bool" where
  "well_typed = (\<lambda>(f, v). list_ex (\<lambda>e. arg_data e = f \<and>
     (case v of V_int _ \<Rightarrow> arg e = G_OPTION_ARG_INT | V_string _ \<Rightarrow> arg e = G_OPTION_ARG_STRING
      | V_true \<Rightarrow> arg e = G_OPTION_ARG_NONE)) config_entries)"

fun field_value :: "VmonConfig \<Rightarrow> config_field \<Rightarrow> option_value option" where
  \<comment> \<open>\<open>None\<close> is a flag that is not set, or no file\<close>
  "field_value cf F_timeout = Some (V_int (cf_timeout cf))"
| "field_value cf F_tasks = Some (V_int (cf_tasks cf))"
| "field_value cf F_threads = Some (V_int (cf_threads cf))"
| "field_value cf F_period = Some (V_int (cf_period cf))"
| "field_value cf F_log_level = Some (V_int (cf_log_level cf))"
| "field_value cf F_log_file = map_option V_string (cf_log_file cf)"
| "field_value cf F_bulk_sampling = (if cf_bulk_sampling cf then Some V_true else None)"
| "field_value cf F_disk_usage_perc = Some (V_int (cf_disk_usage_perc cf))"
| "field_value cf F_events_only = (if cf_events_only cf then Some V_true else None)"

lemma store_option_field:
  "well_typed (g, v) \<Longrightarrow> field_value (store_option cf (g, v)) f = (if g = f then Some v else field_value cf f)"
  by (cases g; cases v; cases f) (simp_all add: well_typed_def config_entries_def)

lemma store_options_field:
  "list_all well_typed stores \<Longrightarrow> field_value (foldl store_option cf stores) f =
    (case map_of (rev stores) f of None \<Rightarrow> field_value cf f | Some v \<Rightarrow> Some v)"
proof (induction stores rule: rev_induct)
  case (snoc s stores)
  then show ?case using store_option_field [of "fst s" "snd s"] by (cases s) auto
qed simp

definition context_defaults :: "guint \<Rightarrow> guint \<Rightarrow> guint \<Rightarrow> guint" where
  \<comment> \<open>\<open>ctx->flags\<close>, from libvirt's flags for active, running and paused domains\<close>
  "context_defaults active running paused = ((0 OR active) OR running) OR paused"

section \<open>The main function\<close>

datatype resource = Conn | Sched | Exec
datatype action = Acquire resource | Release resource | Stop resource | Run_Loop

record main_calls =
  \<comment> \<open>what the calls of \<open>main\<close> return\<close>
  mc_parse :: int
  mc_conn :: bool
  mc_sched_init :: int
  mc_sched_start :: int
  mc_exec_init :: int
  mc_exec_start :: int

definition cleanup_libvirt :: "int \<Rightarrow> action list \<Rightarrow> int \<times> action list" where
  "cleanup_libvirt err tr = (err, tr @ [Release Conn])"

definition cleanup_sched :: "int \<Rightarrow> action list \<Rightarrow> int \<times> action list" where
  "cleanup_sched err tr = cleanup_libvirt err (tr @ [Release Sched])"

definition cleanup_exec :: "int \<Rightarrow> action list \<Rightarrow> int \<times> action list" where
  "cleanup_exec err tr = cleanup_sched err (tr @ [Release Exec])"

definition vmon_main :: "main_calls \<Rightarrow> int \<times> action list" where
  \<comment> \<open>the exit status and what was acquired, run, stopped and released, in order\<close>
  "vmon_main mc =
     (if mc_parse mc < 0 then (-1, [])
      else if \<not> mc_conn mc then (-1, [])
      else let tr = [Acquire Conn] in
        if mc_sched_init mc \<noteq> 0 then cleanup_libvirt (-1) tr
        else let tr = tr @ [Acquire Sched] in
          if mc_sched_start mc \<noteq> 0 then cleanup_sched (-1) tr
          else if mc_exec_init mc \<noteq> 0 then cleanup_sched (-1) tr
          else let tr = tr @ [Acquire Exec] in
            if mc_exec_start mc \<noteq> 0 then cleanup_exec (-1) tr
            else cleanup_exec 0 (tr @ [Run_Loop, Stop Sched, Stop Exec]))"

definition main_ok :: "main_calls \<Rightarrow> bool" where
  \<comment> \<open>every call succeeds\<close>
  "main_ok mc \<longleftrightarrow> 0 \<le> mc_parse mc \<and> mc_conn mc \<and> mc_sched_init mc = 0 \<and> mc_sched_start mc = 0 \<and>
     mc_exec_init mc = 0 \<and> mc_exec_start mc = 0"

section \<open>The order of the log levels\<close>

datatype severity = Sev_Error | Sev_Critical | Sev_Warning | Sev_Message | Sev_Info | Sev_Debug

primrec sev_rank :: "severity \<Rightarrow> nat" where
  "sev_rank Sev_Error = 0"
| "sev_rank Sev_Critical = 1"
| "sev_rank Sev_Warning = 2"
| "sev_rank Sev_Message = 3"
| "sev_rank Sev_Info = 4"
| "sev_rank Sev_Debug = 5"

lemma sev_rank_inject: "sev_rank a = sev_rank b \<longleftrightarrow> a = b"
  by (cases a; cases b) simp_all

instantiation severity :: linorder
begin

definition less_eq_severity :: "severity \<Rightarrow> severity \<Rightarrow> bool" where
  "less_eq_severity a b \<longleftrightarrow> sev_rank a \<le> sev_rank b"

definition less_severity :: "severity \<Rightarrow> severity \<Rightarrow> bool" where
  "less_severity a b \<longleftrightarrow> sev_rank a < sev_rank b"

instance
  by standard (auto simp: less_eq_severity_def less_severity_def sev_rank_inject)

end

primrec sev_flag :: "glib_flags \<Rightarrow> severity \<Rightarrow> guint" where
  "sev_flag G Sev_Error = G_LOG_LEVEL_ERROR G"
| "sev_flag G Sev_Critical = G_LOG_LEVEL_CRITICAL G"
| "sev_flag G Sev_Warning = G_LOG_LEVEL_WARNING G"
| "sev_flag G Sev_Message = G_LOG_LEVEL_MESSAGE G"
| "sev_flag G Sev_Info = G_LOG_LEVEL_INFO G"
| "sev_flag G Sev_Debug = G_LOG_LEVEL_DEBUG G"

definition glib_log_doc :: "glib_flags \<Rightarrow> bool" where
  \<comment> \<open>GLib documents the levels as \<open>1 << (2 + rank)\<close>\<close>
  "glib_log_doc G \<longleftrightarrow>
     G_LOG_LEVEL_ERROR G = 4 \<and> G_LOG_LEVEL_CRITICAL G = 8 \<and> G_LOG_LEVEL_WARNING G = 16 \<and>
     G_LOG_LEVEL_MESSAGE G = 32 \<and> G_LOG_LEVEL_INFO G = 64 \<and> G_LOG_LEVEL_DEBUG G = 128"

section \<open>Properties\<close>

text \<open>The log filter is the order of the severities: with a configured level, a message is logged exactly if it is
  at least as severe, whatever internal flags GLib adds to its level. With the
  default configuration, level 0, nothing is logged, not even errors.\<close>

lemma log_enabled_severity:
  assumes "glib_log_doc G" and "flags \<in> {0, 1, 2, 3}"
  shows "(log_enabled (sev_flag G s OR flags) (sev_flag G k) \<longleftrightarrow> s \<le> k) \<and>
    \<not> log_enabled (sev_flag G s OR flags) (word_of_int (cf_log_level config_defaults))"
proof -
  have "flags = 0 \<or> flags = 1 \<or> flags = 2 \<or> flags = 3" using assms(2) by blast
  then show ?thesis
    using assms(1)
    by (cases s; cases k) (auto simp: glib_log_doc_def log_enabled_def less_eq_severity_def config_defaults_def)
qed

definition G0 :: glib_flags where
  "G0 = \<lparr>G_LOG_LEVEL_ERROR = 4, G_LOG_LEVEL_CRITICAL = 8, G_LOG_LEVEL_WARNING = 16,
     G_LOG_LEVEL_MESSAGE = 32, G_LOG_LEVEL_INFO = 64, G_LOG_LEVEL_DEBUG = 128,
     G_IO_IN = 1, G_IO_OUT = 4, G_IO_PRI = 2, G_IO_ERR = 8, G_IO_HUP = 16, G_IO_NVAL = 32\<rparr>"

lemma G0_doc: "glib_log_doc G0"
  by (simp add: glib_log_doc_def G0_def)

lemma log_enabled_severity_example:
  "log_enabled (16 OR 1) 32 \<and> \<not> log_enabled (128 OR 1) 32"
  using log_enabled_severity [OF G0_doc, of 1 Sev_Warning Sev_Message]
    log_enabled_severity [OF G0_doc, of 1 Sev_Debug Sev_Message]
  by (simp add: G0_def less_eq_severity_def)




text \<open>C22: from the command line to running workers: for a configuration that \<open>config_parse_cmdline\<close> accepts and a
  queue that fits an \<^verbatim>\<open>int\<close> of bytes, when allocations and threads can be had, \<open>executor_init\<close> and \<open>executor_start\<close> return 0 and
  leave a running executor with that many idle workers and an empty queue with room for that many tasks.\<close>

theorem startup_ready:
  assumes "config_parse_cmdline goption conf argv = (0, cf)" and "cf_tasks cf * 128 \<le> INT_MAX" and "cf_threads cf \<le> INT_MAX"
    and "\<forall>j. create j = 0"
  shows "\<exists>ex ex'. executor_init True True True (cf_threads cf) (cf_tasks cf) = (0, Some ex) \<and>
    executor_start create tid (ex :: 'u Executor) = Some (0, ex') \<and> x_started ex' \<and>
    ex_workers_count ex' = nat (cf_threads cf) \<and> exec_room ex' = nat (cf_tasks cf)"
proof -
  have c: "0 < cf_threads cf" "0 < cf_tasks cf"
    using assms(1) by (auto simp: config_parse_cmdline_def Let_def split: if_splits option.splits)
  obtain ex :: "'u Executor" where i: "executor_init True True True (cf_threads cf) (cf_tasks cf) = (0, Some ex)"
    by (simp add: executor_init_def ringbuffer_init_def Let_def)
  note wf = executor_init_wf [OF c(2) assms(2) i]
  have "(word_of_int (cf_threads cf) :: ull) = of_nat (nat (cf_threads cf))" using c(1) by simp
  then have "unat (word_of_int (cf_threads cf) :: ull) = nat (cf_threads cf)"
    using assms(3) by (simp add: unat_of_nat INT_MAX_def del: of_nat_nat)
  then have n: "ex_workers_count ex = nat (cf_threads cf)"
    using i by (auto simp: executor_init_def Let_def split: prod.splits)
  obtain r ex' ws where s: "executor_start create tid ex = Some (r, ex')" "exec_wf ex'"
      "exec_tasks ex' = exec_tasks ex" "ex_workers ex' = Some ws" "ex_running ex'" "r = 0"
      "\<forall>i < ex_workers_count ex. wo_current (ws ! i) = None" "ex_workers_count ex' = ex_workers_count ex"
      "ex_tasks ex' = ex_tasks ex"
    using executor_start_cases [OF wf(1), of create tid] assms(4) n c wf(4) by fastforce
  have "exec_room ex' = exec_room ex" using s(9) by (simp add: exec_room_def)
  then show ?thesis
    using i s wf n c by (auto simp: x_started_def current_of_def worker_at_def)
qed

theorem startup_ready_witness:
  "\<exists>ex ex'. executor_init True True True 5 1000 = (0, Some ex) \<and>
    executor_start (\<lambda>j. 0) (\<lambda>j. j) (ex :: unit Executor) = Some (0, ex') \<and> x_started ex' \<and>
    ex_workers_count ex' = 5 \<and> exec_room ex' = 1000"
  using startup_ready [of "\<lambda>_ _. Some []" config_defaults "[]" config_defaults "\<lambda>j. 0" "\<lambda>j. j"]
  by (simp add: config_parse_cmdline_def config_defaults_def INT_MAX_def)

definition log_lines :: "glib_flags \<Rightarrow> string \<Rightarrow> guint \<Rightarrow> string \<Rightarrow> VmonConfig \<Rightarrow> string list" where
  "log_lines G buf log_level message cf =
     (if log_enabled log_level (word_of_int (cf_log_level cf))
      then [buf @ '' ['' @ g_log_level_to_str G log_level @ ''] '' @ ''vmon'' @ '': '' @ message @ [CHR 0x0A]] else [])"

lemma vmon_log_open [simp]:
  "\<not> vd_log_closed d \<Longrightarrow> vmon_log G buf lv m d =
    Some (d\<lparr>vd_log_text := vd_log_text d @ log_lines G buf lv m (cx_conf (vd_ctx d))\<rparr>)"
  by (simp add: vmon_log_def log_lines_def)

lemma io_callback_cases:
  assumes "\<not> vd_log_closed d" and "rd = Read_Eof \<Longrightarrow> vd_log d = Log_Stderr"
    and "\<And>line. rd = Read_Normal line \<Longrightarrow>
      sampler_handle_request env (vd_ctx d) mem line (length line) = Some (err, ctx)"
  shows "\<exists>ret d'. vmon_io_callback G env buf mem cond rd d = Some (ret, d') \<and>
    vd_log d' = vd_log d \<and> \<not> vd_log_closed d' \<and>
    (case rd of
       Read_Normal line \<Rightarrow> ret = (err = 0) \<and> vd_ctx d' = ctx \<and> vd_loop_quit d' = (vd_loop_quit d \<or> err \<noteq> 0)
     | Read_Error m \<Rightarrow> \<not> ret \<and> vd_ctx d' = vd_ctx d \<and> vd_loop_quit d' = vd_loop_quit d
     | Read_Eof \<Rightarrow> \<not> ret \<and> vd_ctx d' = vd_ctx d \<and> vd_loop_quit d'
     | Read_Again \<Rightarrow> ret \<and> vd_ctx d' = vd_ctx d \<and> vd_loop_quit d' = vd_loop_quit d)"
  using assms by (cases rd) (auto simp: vmon_io_callback_def vmon_teardown_log_def Let_def)

text \<open>What the input callback does, with an open log: it stays installed after a request that was
  handled and when there is no data yet; a request that cannot be handled, or the end of the input, ends the main
  loop; a read error removes the callback but leaves the main loop running, with no input any more.\<close>

lemma io_callback_result:
  assumes "\<not> vd_log_closed d" and "rd = Read_Eof \<Longrightarrow> vd_log d = Log_Stderr"
    and "\<And>line. rd = Read_Normal line \<Longrightarrow>
      sampler_handle_request env (vd_ctx d) mem line (length line) = Some (err, ctx)"
  shows "\<exists>ret d'. vmon_io_callback G env buf mem cond rd d = Some (ret, d') \<and>
    (case rd of
       Read_Normal line \<Rightarrow> ret = (err = 0) \<and> vd_ctx d' = ctx \<and> vd_loop_quit d' = (vd_loop_quit d \<or> err \<noteq> 0)
     | Read_Error m \<Rightarrow> \<not> ret \<and> vd_ctx d' = vd_ctx d \<and> vd_loop_quit d' = vd_loop_quit d
     | Read_Eof \<Rightarrow> \<not> ret \<and> vd_ctx d' = vd_ctx d \<and> vd_loop_quit d'
     | Read_Again \<Rightarrow> ret \<and> vd_ctx d' = vd_ctx d \<and> vd_loop_quit d' = vd_loop_quit d)"
  using io_callback_cases [where G = G and buf = buf and cond = cond and mem = mem, OF assms] by blast

definition d0 :: "(unit, unit) VmonDaemon" where
  "d0 = \<lparr>vd_ctx = ctx0, vd_log = Log_Stderr, vd_log_closed = False, vd_log_text = [], vd_counter = 0,
     vd_loop_quit = False\<rparr>"

lemma io_callback_result_example:
  "\<exists>ret d'. vmon_io_callback G0 env0 [] mem0 1 Read_Eof d0 = Some (ret, d') \<and> \<not> ret \<and> vd_ctx d' = ctx0 \<and>
    vd_loop_quit d'"
  using io_callback_result [of d0 Read_Eof env0 mem0 0 ctx0 G0 "[]" 1] by (simp add: d0_def)

text \<open>At the end of the input a log file is closed before the last message of the callback: with a configured
  level that lets messages through, the callback writes to the closed file, whatever the other levels.\<close>

lemma io_eof_closed_log:
  assumes "vd_log d = Log_File f" and "\<not> vd_log_closed d"
    and "log_enabled (G_LOG_LEVEL_MESSAGE G) (word_of_int (cf_log_level (cx_conf (vd_ctx d))))"
  shows "vmon_io_callback G env buf mem cond Read_Eof d = None"
proof -
  have "vmon_log G buf (G_LOG_LEVEL_MESSAGE G) m e = None" if "vd_log_closed e" "vd_ctx e = vd_ctx d" for m e
    using assms(3) that by (simp add: vmon_log_def)
  then show ?thesis using assms(1,2) by (simp add: vmon_io_callback_def vmon_teardown_log_def)
qed

lemma io_eof_closed_log_example:
  "vmon_io_callback G0 env0 [] mem0 1 Read_Eof
     (d0\<lparr>vd_log := Log_File ''vmon.log'', vd_ctx := ctx0\<lparr>cx_conf := config_defaults\<lparr>cf_log_level := 64\<rparr>\<rparr>\<rparr>) = None"
  by (rule io_eof_closed_log) (simp_all add: d0_def G0_def log_enabled_def)

end
