(* ===== verification/Session.thy ===== *)
theory Session
  imports Request_Json Vmon
begin

text \<open>
  A session on the standard input: the lines that spell a request, the task that each means, and what the
  input callback of \<^verbatim>\<open>src/vmon_int.c\<close> makes of a sequence of reads, through \<^verbatim>\<open>src/sampler.c\<close> and the
  queue of the executor.
\<close>

section \<open>From a line of input to a task\<close>

definition request_line :: "('c, 'd) sampler_env \<Rightarrow> jsmntok_t list \<Rightarrow> (string \<times> json) list \<Rightarrow> string \<Rightarrow> bool" where
  \<comment> \<open>a line that spells a request with the given members, of not more tokens than \<open>mem\<close> has room for\<close>
  "request_line env mem ms line \<longleftrightarrow> (\<exists>t f post. line = t @ post \<and> json_text (JObj ms) t f \<and> blanks post \<and>
     list_all (member_ok (lv_consts env)) ms \<and> length (f 0) \<le> length mem)"

definition line_request :: "('c, 'd) sampler_env \<Rightarrow> (string \<times> json) list \<Rightarrow> 'd VmonRequest" where
  "line_request env ms = req_zero\<lparr>rq_sr := request_meaning (lv_consts env) (uuid_parse env) ms\<rparr>"

definition line_task :: "('c, 'd) sampler_env \<Rightarrow> VmonConfig \<Rightarrow> (string \<times> json) list \<Rightarrow> TaskData" where
  "line_task env cf ms = request_task env cf
     (if cf_bulk_sampling cf then bulk_sampling_work_addr env else list_domains_work_addr env) (line_request env ms)"

lemma request_line_parse:
  "request_line env mem ms line \<Longrightarrow> sampler_parse_request (lv_consts env) (uuid_parse env) mem line (length line) =
    Some (0, request_meaning (lv_consts env) (uuid_parse env) ms)"
  unfolding request_line_def using parse_request_meaning by blast

lemma handle_line:
  assumes "request_line env mem ms line" and "exec_wf (cx_executor ctx)" and "ex_running (cx_executor ctx)"
    and "0 < exec_room (cx_executor ctx)" and "\<And>r. length (req_image env r) = sizeof_VmonRequest"
  obtains exc where "sampler_handle_request env ctx mem line (length line) = Some (0, ctx\<lparr>cx_executor := exc\<rparr>)"
    "exec_wf exc" "ex_running exc" "exec_room exc = exec_room (cx_executor ctx) - 1"
    "exec_tasks exc = exec_tasks (cx_executor ctx) @ [line_task env (cx_conf ctx) ms]"
proof -
  have "sampler_handle_request env ctx mem line (length line) = dispatch_request env ctx
      (if cf_bulk_sampling (cx_conf ctx) then bulk_sampling_work_addr env else list_domains_work_addr env)
      (line_request env ms)"
    by (simp add: sampler_handle_request_def request_line_parse [OF assms(1)] sampler_send_request_def line_request_def
      del: One_nat_def)
  then show thesis
    using dispatch_request_law [OF assms(2) assms(5)] assms(3,4) that by (auto simp: line_task_def)
qed

fun session ::
    "glib_flags \<Rightarrow> ('c, 'd) sampler_env \<Rightarrow> string \<Rightarrow> jsmntok_t list \<Rightarrow> guint \<Rightarrow> io_read list \<Rightarrow> ('c, 'u) VmonDaemon \<Rightarrow>
     (bool \<times> ('c, 'u) VmonDaemon) option" where
  \<comment> \<open>the main loop calls the callback for each read, until it returns \<open>FALSE\<close>\<close>
  "session G env buf mem cond [] d = Some (True, d)"
| "session G env buf mem cond (rd # rds) d = do {
     (ret, d) \<leftarrow> vmon_io_callback G env buf mem cond rd d;
     if ret then session G env buf mem cond rds d else Some (False, d) }"

fun read_means ::
    "('c, 'd) sampler_env \<Rightarrow> jsmntok_t list \<Rightarrow> io_read \<Rightarrow> (string \<times> json) list list \<Rightarrow> bool" where
  \<comment> \<open>what a read that keeps the session going brings: the members of a request, or nothing yet\<close>
  "read_means env mem (Read_Normal line) mss = (\<exists>ms. mss = [ms] \<and> request_line env mem ms line)"
| "read_means env mem Read_Again mss = (mss = [])"
| "read_means env mem _ mss = False"

fun read_ends :: "('c, 'd) sampler_env \<Rightarrow> jsmntok_t list \<Rightarrow> bool \<Rightarrow> io_read \<Rightarrow> bool" where
  \<comment> \<open>the end of the input, an error, a line that the parser refuses; any line at all when there is no room for its task\<close>
  "read_ends env mem full (Read_Normal line) = (\<exists>err sr.
     sampler_parse_request (lv_consts env) (uuid_parse env) mem line (length line) = Some (err, sr) \<and> (err \<noteq> 0 \<or> full))"
| "read_ends env mem full Read_Again = False"
| "read_ends env mem full _ = True"

lemma handle_refused:
  assumes "read_ends env mem (exec_room (cx_executor ctx) = 0) (Read_Normal line)" and "exec_wf (cx_executor ctx)"
    and "\<forall>r. length (req_image env r) = sizeof_VmonRequest"
  obtains err where "sampler_handle_request env ctx mem line (length line) = Some (err, ctx)" "err \<noteq> 0"
proof -
  obtain err sr where e: "sampler_parse_request (lv_consts env) (uuid_parse env) mem line (length line) = Some (err, sr)"
      "err \<noteq> 0 \<or> exec_room (cx_executor ctx) = 0"
    using assms(1) by auto
  show thesis
  proof (cases "err = 0")
    case False
    with e that show thesis by (simp add: sampler_handle_request_def)
  next
    case True
    let ?work = "if cf_bulk_sampling (cx_conf ctx) then bulk_sampling_work_addr env else list_domains_work_addr env"
    have "sampler_handle_request env ctx mem line (length line) = dispatch_request env ctx ?work (req_zero\<lparr>rq_sr := sr\<rparr>)"
      using e True by (simp add: sampler_handle_request_def sampler_send_request_def)
    also have "\<dots> = Some (-1, ctx)"
      using dispatch_request_law [OF assms(2), of env "req_zero\<lparr>rq_sr := sr\<rparr>" ?work] assms(3) e True
      by (cases ctx) (simp split: if_splits)
    finally show thesis using that by simp
  qed
qed

lemma session_last:
  assumes "read_ends env mem (exec_room (cx_executor (vd_ctx d)) = 0) rd" and "exec_wf (cx_executor (vd_ctx d))"
    and "\<forall>r. length (req_image env r) = sizeof_VmonRequest" and "\<not> vd_log_closed d" and "vd_log d = Log_Stderr"
  shows "\<exists>d'. session G env buf mem cond (rd # rest) d = Some (False, d') \<and> vd_ctx d' = vd_ctx d \<and>
    vd_loop_quit d' = (vd_loop_quit d \<or> (\<forall>m. rd \<noteq> Read_Error m))"
proof (cases rd)
  case (Read_Normal line)
  with assms(1) have ends: "read_ends env mem (exec_room (cx_executor (vd_ctx d)) = 0) (Read_Normal line)" by simp
  obtain err where h: "sampler_handle_request env (vd_ctx d) mem line (length line) = Some (err, vd_ctx d)" "err \<noteq> 0"
    by (rule handle_refused [OF ends assms(2,3)])
  show ?thesis
    using io_callback_cases [of d rd env mem err "vd_ctx d" G buf cond] h assms(4) Read_Normal by auto
qed (use io_callback_cases [of d rd env mem 0 "vd_ctx d" G buf cond] assms in auto)


definition one_line :: string where
  "one_line = render (JObj ex_members) @ [CHR 0x0A]"

lemma one_line_request: "request_line env0 mem0 ex_members one_line"
proof -
  have "json_ok (JObj ex_members)"
    by (simp add: ex_members_def prim_ok_def prim_delim_def prim_bad_def)
  then obtain f where f: "json_text (JObj ex_members) (render (JObj ex_members)) f"
      "\<forall>i. length (f i) = json_size (JObj ex_members)"
    using json_text_render by blast
  have m: "list_all (member_ok (lv_consts env0)) ex_members"
    by (auto simp: ex_members_def member_ok_def env0_def lv0_def stat_names_def neutral_def intro!: exI [of _ "[''vcpu'', ''block'']"])
  have l: "length (f 0) \<le> length mem0" using f(2) by (simp add: ex_members_def mem0_def)
  have b: "blanks [CHR 0x0A]" by (simp add: blank_def)
  show ?thesis unfolding request_line_def one_line_def
    by (intro exI conjI) (rule refl f(1) b m l)+
qed


section \<open>Any input\<close>

definition reads_before_tokens :: "jsmntok_t list \<Rightarrow> string \<Rightarrow> bool" where
  \<comment> \<open>on this line the tokenizer reads \<open>tokens[-1]\<close>\<close>
  "reads_before_tokens mem line \<longleftrightarrow> (\<exists>q. jsmn_parse jsmn_init line (Some mem) = Inl (OOB, q))"

definition grown :: "('c, 'u) VmonContext \<Rightarrow> ('c, 'u) VmonContext \<Rightarrow> bool" where
  \<comment> \<open>tasks were queued, as far as there was room, and nothing else changed\<close>
  "grown ctx ctx' \<longleftrightarrow> (\<exists>exc new. ctx' = ctx\<lparr>cx_executor := exc\<rparr> \<and> exec_wf exc \<and>
     exec_tasks exc = exec_tasks (cx_executor ctx) @ new \<and> exec_room exc + length new = exec_room (cx_executor ctx))"

lemma grown_refl: "exec_wf (cx_executor ctx) \<Longrightarrow> grown ctx ctx"
  unfolding grown_def by (intro exI [of _ "cx_executor ctx"] exI [of _ "[]"]) simp

lemma grown_trans: "grown a b \<Longrightarrow> grown b c \<Longrightarrow> grown a c"
  unfolding grown_def by (elim exE conjE) (rule exI, rule_tac x = "new @ newa" in exI, auto)

lemma parse_defined:
  "sampler_parse_request lv up mem line (length line) = None \<longleftrightarrow> reads_before_tokens mem line"
  using parse_request_safe [of lv up mem line "length line"] by (simp add: reads_before_tokens_def)

lemma handle_any:
  assumes "exec_wf (cx_executor ctx)" and "\<forall>r. length (req_image env r) = sizeof_VmonRequest"
    and "\<not> reads_before_tokens mem line"
  obtains err ctx' where "sampler_handle_request env ctx mem line (length line) = Some (err, ctx')" "grown ctx ctx'"
proof -
  obtain err sr where p: "sampler_parse_request (lv_consts env) (uuid_parse env) mem line (length line) = Some (err, sr)"
    using parse_defined [of "lv_consts env" "uuid_parse env" mem line] assms(3) by fastforce
  show thesis
  proof (cases "err = 0")
    case False
    with p that grown_refl [OF assms(1)] show thesis by (simp add: sampler_handle_request_def)
  next
    case True
    let ?work = "if cf_bulk_sampling (cx_conf ctx) then bulk_sampling_work_addr env else list_domains_work_addr env"
    let ?req = "req_zero\<lparr>rq_sr := sr\<rparr>"
    have h: "sampler_handle_request env ctx mem line (length line) = dispatch_request env ctx ?work ?req"
      using p True by (simp add: sampler_handle_request_def sampler_send_request_def)
    obtain exc where d: "dispatch_request env ctx ?work ?req =
        Some (if ex_running (cx_executor ctx) \<and> 0 < exec_room (cx_executor ctx) then 0 else -1, ctx\<lparr>cx_executor := exc\<rparr>)"
        "exec_wf exc"
        "if ex_running (cx_executor ctx) \<and> 0 < exec_room (cx_executor ctx)
         then exec_tasks exc = exec_tasks (cx_executor ctx) @ [request_task env (cx_conf ctx) ?work ?req] \<and>
           exec_room exc = exec_room (cx_executor ctx) - 1
         else exc = cx_executor ctx"
      using dispatch_request_law [OF assms(1), of env ?req ?work] assms(2) by blast
    have "grown ctx (ctx\<lparr>cx_executor := exc\<rparr>)"
    proof (cases "ex_running (cx_executor ctx) \<and> 0 < exec_room (cx_executor ctx)")
      case True
      with d show ?thesis unfolding grown_def
        by (intro exI [of _ exc] exI [of _ "[request_task env (cx_conf ctx) ?work ?req]"]) auto
    next
      case False
      with d(3) have "exc = cx_executor ctx" by auto
      with grown_refl [OF assms(1)] show ?thesis by simp
    qed
    with d(1) h that show thesis by simp
  qed
qed

lemma callback_any:
  assumes "\<not> vd_log_closed d" and "vd_log d = Log_Stderr" and "exec_wf (cx_executor (vd_ctx d))"
    and "\<forall>r. length (req_image env r) = sizeof_VmonRequest"
  shows "if \<exists>line. rd = Read_Normal line \<and> reads_before_tokens mem line
    then vmon_io_callback G env buf mem cond rd d = None
    else \<exists>ret d'. vmon_io_callback G env buf mem cond rd d = Some (ret, d') \<and> vd_log d' = Log_Stderr \<and>
      \<not> vd_log_closed d' \<and> grown (vd_ctx d) (vd_ctx d')"
proof (cases "\<exists>line. rd = Read_Normal line")
  case True
  then obtain line where rd: "rd = Read_Normal line" by blast
  show ?thesis
  proof (cases "reads_before_tokens mem line")
    case True
    then have "sampler_handle_request env (vd_ctx d) mem line (length line) = None"
      using parse_defined [of "lv_consts env" "uuid_parse env" mem line] by (simp add: sampler_handle_request_def)
    then show ?thesis using True rd assms(1) by (simp add: vmon_io_callback_def Let_def)
  next
    case False
    obtain err ctx' where "sampler_handle_request env (vd_ctx d) mem line (length line) = Some (err, ctx')"
        "grown (vd_ctx d) ctx'"
      by (rule handle_any [OF assms(3,4) False])
    then show ?thesis
      using io_callback_cases [of d rd env mem err ctx' G buf cond] assms(1,2) rd False by auto
  qed
next
  case False
  then show ?thesis
    using io_callback_cases [of d rd env mem 0 "vd_ctx d" G buf cond] assms grown_refl [OF assms(3)]
    by (cases rd) auto
qed



end
