(* ===== verification/Json_Commas.thy ===== *)
theory Json_Commas
  imports Jsmn_Json
begin

text \<open>
  A necessary condition on JSON texts: outside of strings no comma is followed, after blanks, by a closing brace
  or bracket. It is a finite automaton on the characters; every text of the grammar of \<open>Jsmn_Json\<close> passes it.
\<close>

section \<open>The automaton\<close>

datatype mode = Plain | After_Comma | In_Word | In_String | In_Escape | Stuck

definition punct :: "mode \<Rightarrow> char \<Rightarrow> mode" where
  "punct m c =
     (if blank c then m
      else if c = CHR '','' then After_Comma
      else if c = CHR ''}'' \<or> c = CHR '']'' then (if m = After_Comma then Stuck else Plain)
      else if c = CHR 0x22 then In_String
      else if c = CHR ''{'' \<or> c = CHR ''['' \<or> c = CHR '':'' then Plain
      else In_Word)"

fun scan1 :: "mode \<Rightarrow> char \<Rightarrow> mode" where
  "scan1 In_String c = (if c = CHR 0x5C then In_Escape else if c = CHR 0x22 then Plain else In_String)"
| "scan1 In_Escape c = In_String"
| "scan1 In_Word c = (if prim_delim c then punct Plain c else In_Word)"
| "scan1 Stuck c = Stuck"
| "scan1 m c = punct m c"

definition scan :: "mode \<Rightarrow> string \<Rightarrow> mode" where
  "scan m s = foldl scan1 m s"

lemma scan_simps [simp]: "scan m [] = m" "scan m (c # s) = scan (scan1 m c) s" "scan m (s @ t) = scan (scan m s) t"
  by (simp_all add: scan_def)

lemma scan_Stuck [simp]: "scan Stuck s = Stuck"
  by (induction s) simp_all

lemma punct_simps [simp]:
  "punct m CHR '','' = After_Comma" "punct m CHR 0x22 = In_String" "punct m CHR ''{'' = Plain"
  "punct m CHR ''['' = Plain" "punct m CHR '':'' = Plain" "punct m CHR '' '' = m" "punct m CHR 0x0A = m"
  "punct Plain CHR ''}'' = Plain" "punct Plain CHR '']'' = Plain" "punct After_Comma CHR ''}'' = Stuck"
  by (simp_all add: punct_def blank_def)

lemma delim_simps [simp]:
  "prim_delim CHR '',''" "prim_delim CHR ''}''" "prim_delim CHR '']''" "prim_delim CHR '':''" "prim_delim CHR '' ''"
  by (simp_all add: prim_delim_def)

lemma blank_delim: "blank c \<Longrightarrow> prim_delim c"
  by (auto simp: blank_def prim_delim_def)

section \<open>The parts of a text\<close>

lemma scan_blanks: "blanks b \<Longrightarrow> m = Plain \<or> m = After_Comma \<Longrightarrow> scan m b = m"
  by (induction b) (auto simp: punct_def)

lemma scan_blanks_word: "blanks b \<Longrightarrow> m = Plain \<or> m = In_Word \<Longrightarrow> scan m b = Plain \<or> scan m b = In_Word"
  by (cases b) (auto simp: blank_delim punct_def scan_blanks)

lemma hex_plain: "list_all is_hex s \<Longrightarrow> scan In_String s = In_String"
  by (induction s) (auto simp: is_hex_def)

lemma scan_str_ok: "str_ok s \<Longrightarrow> scan In_String s = In_String"
proof (induction s rule: str_ok.induct)
  case (2 c s)
  show ?case
  proof (cases "c = CHR 0x5C")
    case True
    then obtain e r where s: "s = e # r" using 2(4) by (cases s) auto
    have "scan In_String (take 4 r @ drop 4 r) = In_String"
      if "list_all is_hex (take 4 r)" "str_ok (drop 4 r)"
      unfolding scan_simps(3) hex_plain [OF that(1)] using 2(2) [OF True] that(2) s by simp
    then show ?thesis using 2 True s by (auto simp del: scan_simps(3))
  qed (use 2 in auto)
qed simp

lemma scan_quote: "str_ok s \<Longrightarrow> m = Plain \<or> m = After_Comma \<Longrightarrow> scan m (quote s) = Plain"
  by (auto simp: quote_def scan_str_ok)

lemma scan_word: "list_all (\<lambda>c. \<not> prim_delim c) s \<Longrightarrow> scan In_Word s = In_Word"
  by (induction s) simp_all

lemma scan_prim:
  assumes "prim_ok s" and "m = Plain \<or> m = After_Comma"
  shows "scan m s = In_Word"
proof -
  obtain c r where s: "s = c # r" using assms(1) by (cases s) (auto simp: prim_ok_def)
  have "\<not> prim_delim c" "c \<notin> {CHR ''{'', CHR ''['', CHR 0x22}" "list_all (\<lambda>c. \<not> prim_delim c) r"
    using assms(1) s by (auto simp: prim_ok_def list_all_iff)
  then have "punct m c = In_Word" using blank_delim [of c] by (auto simp: punct_def prim_delim_def)
  with scan_word [OF \<open>list_all _ r\<close>] assms(2) s show ?thesis by auto
qed

lemma scan_after_value:
  assumes "m = Plain \<or> m = In_Word"
  shows "scan1 m CHR ''}'' = Plain" "scan1 m CHR '']'' = Plain" "scan1 m CHR '','' = After_Comma"
  using assms by auto

lemma scan_opening:
  assumes "m = Plain \<or> m = After_Comma"
  shows "scan1 m CHR ''{'' = Plain" "scan1 m CHR ''['' = Plain"
  using assms by auto

lemma scan_json:
  "json_text v t f \<Longrightarrow> m = Plain \<or> m = After_Comma \<Longrightarrow>
    (scan m t = Plain \<or> scan m t = In_Word) \<and> ((\<exists>ms. v = JObj ms) \<longrightarrow> scan m t = Plain)"
  "json_elems vs t f \<Longrightarrow> m = Plain \<or> m = After_Comma \<Longrightarrow> scan m t = Plain \<or> scan m t = In_Word"
  "json_members ms t f \<Longrightarrow> m = Plain \<or> m = After_Comma \<Longrightarrow> scan m t = Plain \<or> scan m t = In_Word"
proof (induction arbitrary: m and m and m rule: json_induct)
  case (json_prim s)
  then show ?case using scan_prim by blast
next
  case (json_str s)
  then show ?case using scan_quote by blast
next
  case (json_arr_empty b)
  then show ?case using scan_blanks [of b Plain] by auto
next
  case (json_arr vs t f)
  then have "scan Plain t = Plain \<or> scan Plain t = In_Word" by blast
  then show ?case using scan_after_value scan_opening [OF json_arr.prems] by simp
next
  case (json_obj_empty b)
  then show ?case using scan_blanks [of b Plain] by auto
next
  case (json_obj ms t f)
  then have "scan Plain t = Plain \<or> scan Plain t = In_Word" by blast
  then show ?case using scan_after_value scan_opening [OF json_obj.prems] by simp
next
  case (json_elem v t f a b)
  then show ?case using scan_blanks [of a m] scan_blanks_word [of b "scan m t"] by auto
next
  case (json_elem_more v t f a b vs u g)
  then have "scan m (a @ t @ b) = Plain \<or> scan m (a @ t @ b) = In_Word"
    using scan_blanks [of a m] scan_blanks_word [of b "scan m t"] by auto
  then have "scan m (a @ t @ b @ '','') = After_Comma" using scan_after_value(3) by simp
  then show ?case using json_elem_more.IH(2) [of After_Comma] by simp
next
  case (json_member k v t f a b c d)
  then have "scan m (a @ quote k @ b @ '':'' @ c) = Plain"
    using scan_blanks [of a m] scan_quote [of k m] scan_blanks [of b Plain] scan_blanks [of c Plain] by simp
  then show ?case using json_member.IH [of Plain] scan_blanks_word [of d "scan Plain t"] json_member.hyps by simp
next
  case (json_member_more k v t f a b c d ms u g)
  then have "scan m (a @ quote k @ b @ '':'' @ c) = Plain"
    using scan_blanks [of a m] scan_quote [of k m] scan_blanks [of b Plain] scan_blanks [of c Plain] by simp
  then have "scan m (a @ quote k @ b @ '':'' @ c @ t @ d) = Plain \<or> scan m (a @ quote k @ b @ '':'' @ c @ t @ d) = In_Word"
    using json_member_more.IH(1) [of Plain] scan_blanks_word [of d "scan Plain t"] json_member_more.hyps by simp
  then have "scan m (a @ quote k @ b @ '':'' @ c @ t @ d @ '','') = After_Comma" using scan_after_value(3) by simp
  then show ?case using json_member_more.IH(2) [of After_Comma] by simp
qed

end
