(* ===== verification/Response_Json.thy ===== *)
theory Response_Json
  imports Json_Commas Sampler
begin

text \<open>
  The answers as JSON: what \<^verbatim>\<open>src/sampler.c\<close>, \<^verbatim>\<open>lib/vminfo.c\<close> and \<^verbatim>\<open>lib/vminfo_print.c\<close> print, against the values
  that it should spell. The grammar is the one of \<open>Jsmn_Json\<close>; a buffer is a stream of objects.
\<close>

section \<open>Texts of values\<close>

definition spells :: "json \<Rightarrow> string \<Rightarrow> bool" where
  "spells v t \<longleftrightarrow> (\<exists>f. json_text v t f)"

fun layout :: "(string \<times> string \<times> string) list \<Rightarrow> string \<Rightarrow> string" where
  \<comment> \<open>the members of an object, each as the blanks before it, its key and the text of its value; blanks at the end\<close>
  "layout [] d = d"
| "layout [(a, k, t)] d = a @ quote k @ '': '' @ t @ d"
| "layout ((a, k, t) # m # ms) d = a @ quote k @ '': '' @ t @ '','' @ layout (m # ms) d"

definition member_spelled :: "string \<times> json \<Rightarrow> string \<times> string \<times> string \<Rightarrow> bool" where
  "member_spelled = (\<lambda>(k, v) (a, k', t). k' = k \<and> str_ok k \<and> blanks a \<and> spells v t)"

inductive stream :: "json list \<Rightarrow> string \<Rightarrow> bool" where
  stream_nil: "stream [] []"
| stream_cons: "spells (JObj ms) t \<Longrightarrow> blanks b \<Longrightarrow> stream vs s \<Longrightarrow> stream (JObj ms # vs) (t @ b @ s)"

lemma layout_members:
  assumes "list_all2 member_spelled ms kts" and "ms \<noteq> []" and "blanks d"
  shows "\<exists>f. json_members ms (layout kts d) f"
  using assms
proof (induction ms arbitrary: kts rule: induct_list012)
  case (2 m)
  obtain k v where m: "m = (k, v)" by force
  then obtain a t where kt: "kts = [(a, k, t)]" "str_ok k" "blanks a" "spells v t"
    using "2.prems" by (auto simp: list_all2_Cons1 member_spelled_def)
  then obtain f where f: "json_text v t f" by (auto simp: spells_def)
  have "blanks '' ''" by (simp add: blank_def)
  from json_member [OF kt(2) f kt(3) _ this "2.prems"(3), of "[]"] show ?case
    by (auto simp: m kt(1))
next
  case (3 m m' ms)
  obtain k v where m: "m = (k, v)" by force
  with "3.prems" obtain a t kts' where kt: "kts = (a, k, t) # kts'" "str_ok k" "blanks a" "spells v t"
    and rest: "list_all2 member_spelled (m' # ms) kts'"
    by (auto simp: list_all2_Cons1 member_spelled_def)
  then obtain f where f: "json_text v t f" by (auto simp: spells_def)
  obtain g where g: "json_members (m' # ms) (layout kts' d) g"
    using "3.IH"(2) [OF rest _ "3.prems"(3)] by auto
  have b: "blanks '' ''" by (simp add: blank_def)
  obtain x kts'' where "kts' = x # kts''" using rest by (auto simp: list_all2_Cons1)
  with json_member_more [OF kt(2) f kt(3) _ b _ g, of "[]" "[]"] show ?case
    by (auto simp: m kt(1))
qed simp

lemma spells_obj:
  assumes "list_all2 member_spelled ms kts" and "ms \<noteq> []" and "blanks d" and "s = CHR ''{'' # layout kts d @ ''}''"
  shows "spells (JObj ms) s"
  using layout_members [OF assms(1-3)] json_obj assms(4) unfolding spells_def by blast

lemma spells_empty: "blanks b \<Longrightarrow> spells (JObj []) (CHR ''{'' # b @ ''}'')"
  unfolding spells_def using json_obj_empty by blast

lemma spells_str: "str_ok s \<Longrightarrow> spells (JStr s) (quote s)"
  unfolding spells_def using json_str by blast

lemma spells_prim: "prim_ok s \<Longrightarrow> spells (JPrim s) s"
  unfolding spells_def using json_prim by blast

lemma prim_ok_digits:
  assumes "s \<noteq> []" and "\<forall>c \<in> set s. isdigit c \<or> c = CHR ''-''"
  shows "prim_ok s"
proof -
  have ok: "c \<notin> {CHR ''{'', CHR ''['', CHR 0x22} \<and> c \<noteq> NUL \<and> \<not> prim_delim c \<and> \<not> prim_bad c" if "c \<in> set s" for c
    using assms(2) that by (auto simp: isdigit_def prim_delim_def prim_bad_def)
  show ?thesis using ok assms(1) hd_in_set [of s] unfolding prim_ok_def list_all_iff by blast
qed

lemma spells_dec [simp]: "spells (JPrim (dec n)) (dec n)" "spells (JPrim (dec_int i)) (dec_int i)"
  using dec_digits by (auto intro!: spells_prim prim_ok_digits simp: dec_int_def)

lemma spells_quote: "str_ok s \<Longrightarrow> q = quote s \<Longrightarrow> spells (JStr s) q"
  using spells_str by simp

lemma stream_append: "stream vs s \<Longrightarrow> stream ws t \<Longrightarrow> stream (vs @ ws) (s @ t)"
proof (induction rule: stream.induct)
  case (stream_cons ms t' b vs s)
  then show ?case using stream.stream_cons [of ms t' b "vs @ ws" "s @ t"] by simp
qed simp

lemma scan_object: "spells (JObj ms) t \<Longrightarrow> scan Plain t = Plain"
  unfolding spells_def using scan_json(1) by blast

lemma scan_stream: "stream vs s \<Longrightarrow> scan Plain s = Plain"
  by (induction rule: stream.induct) (simp_all add: scan_object scan_blanks)

section \<open>The values to be spelled\<close>

definition num :: "ull \<Rightarrow> json" where
  "num w = JPrim (dec (unat w))"

definition pcpu_json :: "PCpuInfo \<Rightarrow> json" where
  "pcpu_json p = JObj [(''cpu.time'', num (pc_time p)), (''cpu.user'', num (pc_user p)),
     (''cpu.system'', num (pc_system p))]"

definition balloon_json :: "BalloonInfo \<Rightarrow> json" where
  "balloon_json b = JObj [(''balloon.current'', num (ba_current b)), (''balloon.maximum'', num (ba_maximum b))]"

definition block_json :: "BlockStats \<Rightarrow> string \<times> json" where
  "block_json st = (bs_device_name st, JObj
     [(''rd_bytes'', num (rd_bytes st)), (''rd_operations'', num (rd_reqs st)), (''rd_total_times'', num (rd_times st)),
      (''wr_bytes'', num (wr_bytes st)), (''wr_operations'', num (wr_reqs st)), (''wr_total_times'', num (wr_times st)),
      (''allocation'', num (allocation st)), (''capacity'', num (capacity st)), (''physical'', num (physical st))])"

definition vminfo_json :: "VmInfo \<Rightarrow> json" where
  \<comment> \<open>of a machine with no virtual CPU present and no interface\<close>
  "vminfo_json vm = JObj
     [(''vm-id'', JStr (vm_uuid vm)), (''pcpu'', pcpu_json (vm_pcpu vm)), (''balloon'', balloon_json (vm_balloon vm)),
      (''vcpu'', JObj []), (''block'', JObj (map block_json (take (nstats (vm_block vm)) (device_array (vm_block vm))))),
      (''iface'', JObj [])]"

definition event_json :: "string \<Rightarrow> BlockStats \<Rightarrow> json" where
  "event_json type st = JObj [(''event'', JStr type), (''class'', JStr ''block''), (''device'', JStr (bs_device_name st)),
     (''allocation'', num (allocation st)), (''capacity'', num (capacity st)), (''physical'', num (physical st))]"

definition response_json :: "string \<Rightarrow> nat \<Rightarrow> json \<Rightarrow> json" where
  "response_json rid ts data = JObj [(''req-id'', JStr rid), (''timestamp'', JPrim (dec ts)), (''data'', data)]"

definition error_json :: "string \<Rightarrow> int \<Rightarrow> bool \<Rightarrow> json" where
  "error_json vm error timeout = JObj [(''vm-id'', JStr vm),
     (''error'', JObj [(''code'', JPrim (dec_int error)), (''message'', JStr [])]),
     (''timeout'', JStr (if timeout then ''yes'' else ''no''))]"

section \<open>What each function prints\<close>

lemma member_spelled_simp [simp]:
  "member_spelled (k, v) (a, k', t) \<longleftrightarrow> k' = k \<and> str_ok k \<and> blanks a \<and> spells v t"
  by (simp add: member_spelled_def)

lemma spells_num [simp]: "spells (num w) (dec (unat w))"
  by (simp add: num_def)

lemma blank_simps [simp]: "blank CHR '' ''" "blank CHR 0x0A"
  by (simp_all add: blank_def)

lemma pcpu_spells: "\<exists>t. pcpu_print_json p = quote ''pcpu'' @ '': '' @ t \<and> spells (pcpu_json p) t"
proof -
  let ?kts = "[('' '', ''cpu.time'', dec (unat (pc_time p))), ('' '', ''cpu.user'', dec (unat (pc_user p))),
    ('' '', ''cpu.system'', dec (unat (pc_system p)))]"
  have "spells (pcpu_json p) (CHR ''{'' # layout ?kts '' '' @ ''}'')"
    unfolding pcpu_json_def by (rule spells_obj [of _ ?kts "'' ''"]) simp_all
  moreover have "pcpu_print_json p = quote ''pcpu'' @ '': '' @ (CHR ''{'' # layout ?kts '' '' @ ''}'')"
    by (simp add: pcpu_print_json_def quote_def)
  ultimately show ?thesis by blast
qed

lemma balloon_spells: "\<exists>t. balloon_print_json b = quote ''balloon'' @ '': '' @ t \<and> spells (balloon_json b) t"
proof -
  let ?kts = "[('' '', ''balloon.current'', dec (unat (ba_current b))),
    ('' '', ''balloon.maximum'', dec (unat (ba_maximum b)))]"
  have "spells (balloon_json b) (CHR ''{'' # layout ?kts '' '' @ ''}'')"
    unfolding balloon_json_def by (rule spells_obj [of _ ?kts "'' ''"]) simp_all
  moreover have "balloon_print_json b = quote ''balloon'' @ '': '' @ (CHR ''{'' # layout ?kts '' '' @ ''}'')"
    by (simp add: balloon_print_json_def quote_def)
  ultimately show ?thesis by blast
qed

definition block_text :: "BlockStats \<Rightarrow> string" where
  \<comment> \<open>the value of an entry\<close>
  "block_text st = drop (length (bs_device_name st) + 5) (block_fields st)"

lemma block_fields_text: "block_fields st = '' '' @ quote (bs_device_name st) @ '': '' @ block_text st"
  by (simp add: block_text_def block_fields_def quote_def eval_nat_numeral)

lemma block_spells: "spells (snd (block_json st)) (block_text st)"
proof -
  let ?kts = "[('' '', ''rd_bytes'', dec (unat (rd_bytes st))), ('' '', ''rd_operations'', dec (unat (rd_reqs st))),
    ('' '', ''rd_total_times'', dec (unat (rd_times st))), ('' '', ''wr_bytes'', dec (unat (wr_bytes st))),
    ('' '', ''wr_operations'', dec (unat (wr_reqs st))), ('' '', ''wr_total_times'', dec (unat (wr_times st))),
    ('' '', ''allocation'', dec (unat (allocation st))), ('' '', ''capacity'', dec (unat (capacity st))),
    ('' '', ''physical'', dec (unat (physical st)))]"
  have "spells (snd (block_json st)) (CHR ''{'' # layout ?kts ''  '' @ ''}'')"
    unfolding block_json_def snd_conv by (rule spells_obj [of _ ?kts "''  ''"]) simp_all
  then show ?thesis
    by (simp add: block_text_def block_fields_def quote_def eval_nat_numeral)
qed

lemma event_spells:
  assumes "str_ok type" and "str_ok (bs_device_name st)"
  shows "spells (event_json type st) (vm_send_event_block type st)"
proof -
  let ?kts = "[([], ''event'', quote type), ('' '', ''class'', quote ''block''),
    ('' '', ''device'', quote (bs_device_name st)), ('' '', ''allocation'', dec (unat (allocation st))),
    ('' '', ''capacity'', dec (unat (capacity st))), ('' '', ''physical'', dec (unat (physical st)))]"
  show ?thesis
    unfolding event_json_def
    by (rule spells_obj [of _ ?kts "[]"]) (use assms in \<open>simp_all add: spells_str\<close>, simp add: vm_send_event_block_def quote_def)
qed

lemma blocks_layout:
  "xs \<noteq> [] \<Longrightarrow> join '','' (map block_fields xs) @ d = layout (map (\<lambda>st. ('' '', bs_device_name st, block_text st)) xs) d"
  by (induction xs rule: induct_list012) (simp_all add: block_fields_text)

lemma blocks_spell:
  assumes "\<forall>st \<in> set xs. str_ok (bs_device_name st)"
  shows "spells (JObj (map block_json xs)) (CHR ''{'' # join '','' (map block_fields xs) @ '' }'')"
proof (cases "xs = []")
  case True
  then show ?thesis using spells_empty [of "'' ''"] by simp
next
  case False
  let ?kts = "map (\<lambda>st. ('' '', bs_device_name st, block_text st)) xs"
  have "list_all2 member_spelled (map block_json xs) ?kts"
    using assms block_spells
    by (auto simp: list_all2_conv_all_nth member_spelled_def block_json_def)
  then show ?thesis
    using False blocks_layout [OF False, of "'' ''"] arg_cong [of _ _ "\<lambda>x. x @ ''}''", OF blocks_layout [OF False, of "'' ''"]]
    by (intro spells_obj [of _ ?kts "'' ''"]) simp_all
qed

lemma vcpu_print_absent:
  assumes "vm_wf vm" and "\<not> list_ex vs_present (take (nstats (vm_vcpu vm)) (device_array (vm_vcpu vm)))"
  shows \<open>vcpu_print_json (vm_vcpu vm) = Some ''"vcpu": { }''\<close>
proof -
  have "vcpu_entry (nstats (vm_vcpu vm)) j (device_array (vm_vcpu vm) ! j) = []" if "j < nstats (vm_vcpu vm)" for j
    using assms that by (auto simp: vcpu_entry_def list_ex_length vm_wf_def devices_wf_def)
  then show ?thesis
    using assms(1) by (simp add: vcpu_print_json_def print_loop_concat vm_wf_def devices_wf_def)
qed

lemma block_print_fields:
  assumes "vm_wf vm"
  shows "block_print_json (vm_block vm) = Some (quote ''block'' @ '': '' @
    CHR ''{'' # join '','' (map block_fields (take (nstats (vm_block vm)) (device_array (vm_block vm)))) @ '' }'')"
  using assms print_loop_join [of "vm_block vm" "block_entry (nstats (vm_block vm))" block_fields "'',''"]
  by (simp add: vm_wf_def block_print_json_def block_entry_def quote_def)

lemma vminfo_spells:
  assumes "vm_wf vm" and "\<not> list_ex vs_present (take (nstats (vm_vcpu vm)) (device_array (vm_vcpu vm)))"
    and "nstats (vm_iface vm) = 0" and "str_ok (vm_uuid vm)"
    and "\<forall>st \<in> set (take (nstats (vm_block vm)) (device_array (vm_block vm))). str_ok (bs_device_name st)"
  shows "\<exists>out. vminfo_print_json vm = Some out \<and> spells (vminfo_json vm) out"
proof -
  let ?xs = "take (nstats (vm_block vm)) (device_array (vm_block vm))"
  obtain pt where pt: "pcpu_print_json (vm_pcpu vm) = quote ''pcpu'' @ '': '' @ pt" "spells (pcpu_json (vm_pcpu vm)) pt"
    using pcpu_spells by blast
  obtain bt where bt: "balloon_print_json (vm_balloon vm) = quote ''balloon'' @ '': '' @ bt"
      "spells (balloon_json (vm_balloon vm)) bt"
    using balloon_spells by blast
  note v = vcpu_print_absent [OF assms(1,2)] and b = block_print_fields [OF assms(1)]
  have i: \<open>iface_print_json (vm_iface vm) = Some ''"iface": { }''\<close>
    using assms(3) by (simp add: iface_print_json_def)
  let ?kts = "[('' '', ''vm-id'', quote (vm_uuid vm)), ([], ''pcpu'', pt), ('' '', ''balloon'', bt), ('' '', ''vcpu'', ''{ }''),
    ('' '', ''block'', CHR ''{'' # join '','' (map block_fields ?xs) @ '' }''), ('' '', ''iface'', ''{ }'')]"
  have "spells (JObj []) ''{ }''" using spells_empty [of "'' ''"] by simp
  then have "spells (vminfo_json vm) (CHR ''{'' # layout ?kts '' '' @ ''}'')"
    unfolding vminfo_json_def using pt(2) bt(2) blocks_spell [OF assms(5)] assms(4)
    by (intro spells_obj [of _ ?kts "'' ''"]) (simp_all add: spells_str)
  then show ?thesis by (simp add: vminfo_print_json_def v b i pt(1) bt(1) quote_def)
qed

section \<open>Answers\<close>

definition uuid_text :: "string \<Rightarrow> bool" where
  \<comment> \<open>what libuuid and libvirt promise of a printed UUID\<close>
  "uuid_text u \<longleftrightarrow> length u \<le> 36 \<and> str_ok u"

lemma length_dec: "n < 10 ^ k \<Longrightarrow> 0 < k \<Longrightarrow> length (dec n) \<le> k"
proof (induction k arbitrary: n)
  case (Suc k)
  show ?case
  proof (cases "n < 10")
    case False
    then have "n div 10 < 10 ^ k" "0 < k" using Suc.prems by (auto simp: div_less_iff_less_mult intro!: Nat.gr0I)
    then show ?thesis using Suc.IH [of "n div 10"] False by (simp add: dec.simps [of n])
  qed (simp add: dec.simps [of n])
qed simp

lemma length_dec_int: "\<bar>i\<bar> < 10 ^ k \<Longrightarrow> 0 < k \<Longrightarrow> length (dec_int i) \<le> Suc k"
  using length_dec [of "nat \<bar>i\<bar>" k] by (auto simp: dec_int_def nat_less_iff)

definition error_vm :: "('c, 'd) sampler_env \<Rightarrow> 'd VmonRequest \<Rightarrow> string" where
  "error_vm env req = (case rq_dom req of None \<Rightarrow> []
     | Some d \<Rightarrow> (case vir_DomainGetUUIDString env d of None \<Rightarrow> [] | Some u \<Rightarrow> u))"

definition error_text :: "string \<Rightarrow> int \<Rightarrow> bool \<Rightarrow> string" where
  \<open>error_text vm error timeout = ''{ "vm-id": "'' @ vm @ ''", "error": { "code": '' @ dec_int error @
     '', "message": "" }, "timeout": "'' @ (if timeout then ''yes'' else ''no'') @ ''" }''\<close>

lemma error_spells:
  assumes "str_ok vm"
  shows "spells (error_json vm error timeout) (error_text vm error timeout)"
proof -
  let ?es = "[('' '', ''code'', dec_int error), ('' '', ''message'', quote [])]"
  let ?e = "CHR ''{'' # layout ?es '' '' @ ''}''"
  let ?kts = "[('' '', ''vm-id'', quote vm), ('' '', ''error'', ?e),
    ('' '', ''timeout'', quote (if timeout then ''yes'' else ''no''))]"
  have "spells (JObj [(''code'', JPrim (dec_int error)), (''message'', JStr [])]) ?e"
    by (intro spells_obj [of _ ?es "'' ''"]) (simp_all add: spells_str)
  then show ?thesis
    unfolding error_json_def using assms
    by (intro spells_obj [of _ ?kts "'' ''"]) (simp_all add: spells_str, simp add: error_text_def quote_def)
qed

lemma response_spells:
  assumes "str_ok (uuid_unparse env u)" and "spells data t" and "blanks d"
  shows "spells (response_json (uuid_unparse env u) ts data) (response_head (uuid_unparse env u) ts @ t @ d @ ''}'')"
proof -
  let ?kts = "[('' '', ''req-id'', quote (uuid_unparse env u)), ('' '', ''timestamp'', dec ts), ('' '', ''data'', t)]"
  show ?thesis
    unfolding response_json_def using assms
    by (intro spells_obj [of _ ?kts d]) (simp_all add: spells_str, simp add: response_head_def quote_def)
qed

lemma error_response_text:
  assumes "uuid_text (uuid_unparse env (sr_uuid (rq_sr req)))" and "uuid_text (error_vm env req)"
    and "time_now env < 2 ^ 64" and "\<bar>error\<bar> \<le> 2 ^ 31"
  shows "error_response env req error timeout =
    response_head (uuid_unparse env (sr_uuid (rq_sr req))) (time_now env) @ error_text (error_vm env req) error timeout @ '' '' @ ''}'' @ [CHR 0x0A]"
proof -
  have "length (dec (time_now env)) \<le> 20" "length (dec_int error) \<le> 11"
    using assms(3,4) length_dec [of "time_now env" 20] length_dec_int [of error 10] by simp_all
  then have l: "length (response_head (uuid_unparse env (sr_uuid (rq_sr req))) (time_now env) @ error_text (error_vm env req) error timeout @
      '' '' @ ''}'' @ [CHR 0x0A]) \<le> 4095"
    using assms(1,2) by (simp add: uuid_text_def response_head_def error_text_def)
  have "error_response env req error timeout = take 4095 (response_head (uuid_unparse env (sr_uuid (rq_sr req))) (time_now env) @
      error_text (error_vm env req) error timeout @ '' '' @ ''}'' @ [CHR 0x0A])"
    by (simp add: error_response_def response_head_def error_text_def error_vm_def)
  then show ?thesis using l by simp
qed

lemma error_answer:
  assumes "uuid_text (uuid_unparse env (sr_uuid (rq_sr req)))" and "uuid_text (error_vm env req)"
    and "time_now env < 2 ^ 64" and "\<bar>error\<bar> \<le> 2 ^ 31"
  shows "\<exists>t. error_response env req error timeout = t @ [CHR 0x0A] \<and>
    spells (response_json (uuid_unparse env (sr_uuid (rq_sr req))) (time_now env)
      (error_json (error_vm env req) error timeout)) t"
proof -
  have "str_ok (uuid_unparse env (sr_uuid (rq_sr req)))" "str_ok (error_vm env req)"
    using assms(1,2) by (simp_all add: uuid_text_def)
  from response_spells [OF this(1) error_spells [OF this(2)], of "'' ''"] error_response_text [OF assms]
  show ?thesis by (intro exI conjI) simp_all
qed

text \<open>C15: every error answer is one line with one JSON object: for identifiers as libuuid and libvirt print them, a
  64-bit time and an \<^verbatim>\<open>int\<close> error code, the text fits the buffer of 4096 bytes and is a newline after a JSON object with exactly
  the request's identifier, the time stamp and the data of the error (the machine, or the empty string without one, the code, the
  empty message and whether it was a time-out).\<close>

theorem error_answer_json:
  assumes "uuid_text (uuid_unparse env (sr_uuid (rq_sr req)))" and "uuid_text (error_vm env req)"
    and "time_now env < 2 ^ 64" and "\<bar>error\<bar> \<le> 2 ^ 31"
  shows "\<exists>t. error_response env req error timeout = t @ [CHR 0x0A] \<and>
    spells (response_json (uuid_unparse env (sr_uuid (rq_sr req))) (time_now env)
      (error_json (error_vm env req) error timeout)) t"
  using assms by (rule error_answer)

theorem error_answer_json_witness:
  "\<exists>t. error_response env0 req0 (-1) True = t @ [CHR 0x0A] \<and>
    spells (response_json ''u'' 5 (error_json ''d'' (-1) True)) t"
proof -
  have u: "uuid_unparse env0 (sr_uuid (rq_sr req0)) = ''u''" "error_vm env0 req0 = ''d''" "time_now env0 = 5"
    by (simp_all add: env0_def req0_def error_vm_def)
  have "uuid_text (uuid_unparse env0 (sr_uuid (rq_sr req0)))" "uuid_text (error_vm env0 req0)"
    by (simp_all add: u uuid_text_def)
  from error_answer_json [OF this, of "-1" True] show ?thesis by (simp add: u)
qed

definition sample_json :: "string \<Rightarrow> virTypedParameter list \<Rightarrow> json" where
  \<comment> \<open>what is said of a machine without interfaces: no field of a device is ever parsed\<close>
  "sample_json u items = JObj
     [(''vm-id'', JStr u),
      (''pcpu'', JObj (map (\<lambda>n. (n, num (last_ul n 0 items))) [''cpu.time'', ''cpu.user'', ''cpu.system''])),
      (''balloon'', JObj (map (\<lambda>n. (n, num (last_ul n 0 items))) [''balloon.current'', ''balloon.maximum''])),
      (''vcpu'', JObj []),
      (''block'', JObj (replicate (unat (last_ul ''block.count'' 0 items)) (block_json zero_block))),
      (''iface'', JObj [])]"

definition answers :: "('c, 'd) sampler_env \<Rightarrow> VmonConfig \<Rightarrow> 'd VmonRequest \<Rightarrow> string \<Rightarrow> virTypedParameter list \<Rightarrow> json list" where
  "answers env cf req u items =
     (if vm_check_triggered_usage_threshold zero_block (cf_disk_usage_perc cf)
      then replicate (unat (last_ul ''block.count'' 0 items)) (event_json ''usage-threshold'' zero_block) else []) @
     (if cf_events_only cf then []
      else [response_json (uuid_unparse env (sr_uuid (rq_sr req))) (time_now env) (sample_json u items)])"

lemma stream_replicate: "spells (JObj ms) t \<Longrightarrow> stream (replicate n (JObj ms)) (concat (replicate n t))"
  by (induction n) (auto intro: stream_nil stream_cons [of _ _ "[]", simplified])

lemma set_nth_zero: "set xs \<subseteq> {z} \<Longrightarrow> x \<in> set (take n xs) \<Longrightarrow> x = z"
  using in_set_takeD by fastforce

lemma take_zero: "set xs \<subseteq> {z} \<Longrightarrow> n \<le> length xs \<Longrightarrow> take n xs = replicate n z"
  using replicate_eqI [of "take n xs" n z] set_nth_zero [of xs z] by auto

lemma zero_block_name: "bs_device_name zero_block = []"
  by (simp add: zero_block_def bs_device_name_def)

lemma events_stream:
  assumes "vm_wf vm" and "set (device_array (vm_block vm)) \<subseteq> {zero_block}"
  shows "\<exists>ev. vminfo_send_events vm \<lparr>disk_usage_perc = perc\<rparr> = Some ev \<and>
    stream (if vm_check_triggered_usage_threshold zero_block perc
      then replicate (nstats (vm_block vm)) (event_json ''usage-threshold'' zero_block) else []) ev"
proof (cases "nstats (vm_block vm) = 0")
  case True
  then show ?thesis by (simp add: vminfo_send_events_def stream_nil)
next
  case False
  then have "device_array (vm_block vm) \<noteq> []" using assms(1) by (auto simp: vm_wf_def devices_wf_def)
  then have st: "stats_at (vm_block vm) 0 = Some zero_block"
    using subsetD [OF assms(2) nth_mem, of 0] by (simp add: stats_at_def)
  have "spells (event_json ''usage-threshold'' zero_block) (vm_send_event_block ''usage-threshold'' zero_block)"
    by (rule event_spells) (simp_all add: zero_block_name)
  then show ?thesis
    using stream_replicate unfolding event_json_def
    by (simp add: vminfo_send_events_def send_events_loop_first [OF st] stream_nil)
qed

lemma record_facts:
  assumes "\<forall>n sz. calloc_ok env n sz" and "vir_DomainGetUUIDString env (rec_dom record) = Some u"
  obtains vm ev where "vminfo_parse (calloc_ok env) (vir_DomainGetUUIDString env) vminfo_init record = Some (0, vm)"
    "vm_uuid vm = u" "nstats (vm_iface vm) = unat (last_ul ''net.count'' 0 (rec_params record))" "vm_wf vm"
    "\<not> list_ex vs_present (take (nstats (vm_vcpu vm)) (device_array (vm_vcpu vm)))"
    "\<forall>st \<in> set (take (nstats (vm_block vm)) (device_array (vm_block vm))). str_ok (bs_device_name st)"
    "vminfo_send_events vm \<lparr>disk_usage_perc = cf_disk_usage_perc cf\<rparr> = Some ev"
    "stream (if vm_check_triggered_usage_threshold zero_block (cf_disk_usage_perc cf)
      then replicate (unat (last_ul ''block.count'' 0 (rec_params record))) (event_json ''usage-threshold'' zero_block) else []) ev"
    "vminfo_json vm = sample_json u (rec_params record)"
    "set (device_array (vm_iface vm)) \<subseteq> {zero_iface}"
proof -
  obtain vm where vm: "vminfo_parse (calloc_ok env) (vir_DomainGetUUIDString env) vminfo_init record = Some (0, vm)"
      "vm_uuid vm = u" "nstats (vm_iface vm) = unat (last_ul ''net.count'' 0 (rec_params record))" "vm_wf vm"
      "set (device_array (vm_vcpu vm)) \<subseteq> {zero_vcpu}"
      "set (device_array (vm_block vm)) \<subseteq> {zero_block}" "set (device_array (vm_iface vm)) \<subseteq> {zero_iface}"
    and json: "vminfo_json vm = sample_json u (rec_params record)"
    and n: "nstats (vm_block vm) = unat (last_ul ''block.count'' 0 (rec_params record))"
    using vminfo_parse_facts [of "calloc_ok env" "vir_DomainGetUUIDString env" "record" u] assms
    by (force simp: vminfo_json_def sample_json_def pcpu_json_def balloon_json_def take_zero vm_wf_def devices_wf_def)
  obtain ev where ev: "vminfo_send_events vm \<lparr>disk_usage_perc = cf_disk_usage_perc cf\<rparr> = Some ev"
      "stream (if vm_check_triggered_usage_threshold zero_block (cf_disk_usage_perc cf)
        then replicate (nstats (vm_block vm)) (event_json ''usage-threshold'' zero_block) else []) ev"
    using events_stream [OF vm(4,6)] by blast
  have "\<not> vs_present x" if "x \<in> set (take (nstats (vm_vcpu vm)) (device_array (vm_vcpu vm)))" for x
    using set_nth_zero [OF vm(5) that] by (simp add: zero_vcpu_def)
  moreover have "str_ok (bs_device_name x)" if "x \<in> set (take (nstats (vm_block vm)) (device_array (vm_block vm)))" for x
    using set_nth_zero [OF vm(6) that] by (simp add: zero_block_name)
  ultimately show thesis
    using that [OF vm(1-4) _ _ ev(1) ev(2) [unfolded n] json vm(7)] by (auto simp: list_ex_iff)
qed

lemma record_answer_stream:
  assumes "\<forall>n sz. calloc_ok env n sz" and "vir_DomainGetUUIDString env (rec_dom record) = Some u"
    and "uuid_text u" and "uuid_text (uuid_unparse env (sr_uuid (rq_sr req)))"
    and "last_ul ''net.count'' 0 (rec_params record) = 0 \<or> cf_events_only cf"
  shows "stream (answers env cf req u (rec_params record)) (record_response env cf req record)"
proof -
  obtain vm ev where vm: "vminfo_parse (calloc_ok env) (vir_DomainGetUUIDString env) vminfo_init record = Some (0, vm)"
      "vm_uuid vm = u" "nstats (vm_iface vm) = unat (last_ul ''net.count'' 0 (rec_params record))" "vm_wf vm"
      "\<not> list_ex vs_present (take (nstats (vm_vcpu vm)) (device_array (vm_vcpu vm)))"
      "\<forall>st \<in> set (take (nstats (vm_block vm)) (device_array (vm_block vm))). str_ok (bs_device_name st)"
    and ev: "vminfo_send_events vm \<lparr>disk_usage_perc = cf_disk_usage_perc cf\<rparr> = Some ev"
      "stream (if vm_check_triggered_usage_threshold zero_block (cf_disk_usage_perc cf)
        then replicate (unat (last_ul ''block.count'' 0 (rec_params record))) (event_json ''usage-threshold'' zero_block) else []) ev"
    and json: "vminfo_json vm = sample_json u (rec_params record)" and if0: "set (device_array (vm_iface vm)) \<subseteq> {zero_iface}"
    by (rule record_facts [OF assms(1,2), where cf = cf])
  show ?thesis
  proof (cases "cf_events_only cf")
    case True
    then show ?thesis using ev by (simp add: answers_def record_response_def vm(1))
  next
    case False
    then have n: "nstats (vm_iface vm) = 0" using assms(5) vm(3) by simp
    let ?ts = "time_now env" and ?id = "sr_uuid (rq_sr req)"
    obtain out where out: "vminfo_print_json vm = Some out" "spells (vminfo_json vm) out"
      using vminfo_spells [OF vm(4,5) n _ vm(6)] vm(2) assms(3) by (auto simp: uuid_text_def)
    have "spells (response_json (uuid_unparse env ?id) ?ts (vminfo_json vm)) (response_head (uuid_unparse env ?id) ?ts @ out @ '' }'')"
      using response_spells [OF _ out(2), of env ?id "'' ''" ?ts] assms(4) by (simp add: uuid_text_def)
    from stream_cons [OF this [unfolded response_json_def] _ stream_nil, of "[CHR 0x0A]"]
    have "stream [response_json (uuid_unparse env ?id) ?ts (vminfo_json vm)] (response_head (uuid_unparse env ?id) ?ts @ out @ response_tail)"
      by (simp add: response_tail_def response_json_def)
    from stream_append [OF ev(2) this] show ?thesis
      using False json by (simp add: answers_def record_response_def vm(1) ev(1) out(1))
  qed
qed

text \<open>With an interface the output is no JSON: the automaton of \<open>Json_Commas\<close> gets stuck on its first entry.\<close>

lemma scan_dec: "m = Plain \<or> m = After_Comma \<Longrightarrow> scan m (dec n) = In_Word"
  using scan_prim [of "dec n" m] dec_digits [of n] by (simp add: prim_ok_digits)

lemma scan_iface: "str_ok (is_device_name st) \<Longrightarrow> scan Plain (iface_fields st) = Stuck"
  by (simp add: iface_fields_def scan_str_ok scan_dec)

lemma scan_print:
  assumes "vm_wf vm" and "\<not> list_ex vs_present (take (nstats (vm_vcpu vm)) (device_array (vm_vcpu vm)))"
    and "0 < nstats (vm_iface vm)" and "str_ok (vm_uuid vm)"
    and "\<forall>st \<in> set (take (nstats (vm_block vm)) (device_array (vm_block vm))). str_ok (bs_device_name st)"
    and "str_ok (is_device_name (device_array (vm_iface vm) ! 0))"
  shows "\<exists>out. vminfo_print_json vm = Some out \<and> scan Plain out = Stuck"
proof -
  let ?xs = "take (nstats (vm_block vm)) (device_array (vm_block vm))"
  let ?ys = "take (nstats (vm_iface vm)) (device_array (vm_iface vm))"
  obtain pt where pt: "pcpu_print_json (vm_pcpu vm) = quote ''pcpu'' @ '': '' @ pt" "scan Plain pt = Plain"
    using pcpu_spells scan_object unfolding pcpu_json_def by metis
  obtain bt where bt: "balloon_print_json (vm_balloon vm) = quote ''balloon'' @ '': '' @ bt" "scan Plain bt = Plain"
    using balloon_spells scan_object unfolding balloon_json_def by metis
  note v = vcpu_print_absent [OF assms(1,2)] and b = block_print_fields [OF assms(1)]
  have blocks: "scan Plain (CHR ''{'' # join '','' (map block_fields ?xs) @ '' }'') = Plain"
    by (rule scan_object [OF blocks_spell [OF assms(5)]])
  have i: \<open>iface_print_json (vm_iface vm) = Some (''"iface": {'' @ join '','' (map iface_fields ?ys) @ '' }'')\<close>
    using assms(1) print_loop_join [of "vm_iface vm" "iface_entry (nstats (vm_iface vm))" iface_fields "'',''"]
    by (simp add: vm_wf_def iface_print_json_def iface_entry_def)
  obtain y ys where ys: "?ys = y # ys" "y = device_array (vm_iface vm) ! 0"
    using assms(1,3) by (cases "device_array (vm_iface vm)"; cases "nstats (vm_iface vm)") (auto simp: vm_wf_def devices_wf_def)
  have "scan Plain (join '','' (map iface_fields ?ys)) = Stuck"
    using scan_iface [of y] assms(6) ys by (cases ys) simp_all
  then show ?thesis
    using assms(4) pt(2) bt(2) blocks
    by (simp add: vminfo_print_json_def v b i pt(1) bt(1) scan_str_ok scan_quote)
qed

lemma record_answer_stuck:
  assumes "\<forall>n sz. calloc_ok env n sz" and "vir_DomainGetUUIDString env (rec_dom record) = Some u"
    and "uuid_text u" and "uuid_text (uuid_unparse env (sr_uuid (rq_sr req)))"
    and "last_ul ''net.count'' 0 (rec_params record) \<noteq> 0" and "\<not> cf_events_only cf"
  shows "\<not> stream vs (record_response env cf req record)"
proof -
  obtain vm ev where vm: "vminfo_parse (calloc_ok env) (vir_DomainGetUUIDString env) vminfo_init record = Some (0, vm)"
      "vm_uuid vm = u" "nstats (vm_iface vm) = unat (last_ul ''net.count'' 0 (rec_params record))" "vm_wf vm"
      "\<not> list_ex vs_present (take (nstats (vm_vcpu vm)) (device_array (vm_vcpu vm)))"
      "\<forall>st \<in> set (take (nstats (vm_block vm)) (device_array (vm_block vm))). str_ok (bs_device_name st)"
    and ev: "vminfo_send_events vm \<lparr>disk_usage_perc = cf_disk_usage_perc cf\<rparr> = Some ev"
      "stream (if vm_check_triggered_usage_threshold zero_block (cf_disk_usage_perc cf)
        then replicate (unat (last_ul ''block.count'' 0 (rec_params record))) (event_json ''usage-threshold'' zero_block) else []) ev"
    and json: "vminfo_json vm = sample_json u (rec_params record)" and if0: "set (device_array (vm_iface vm)) \<subseteq> {zero_iface}"
    by (rule record_facts [OF assms(1,2), where cf = cf])
  have n: "0 < nstats (vm_iface vm)" using assms(5) by (simp add: vm(3) unat_gt_0)
  then have "device_array (vm_iface vm) \<noteq> []" using vm(4) by (auto simp: vm_wf_def devices_wf_def)
  then have "device_array (vm_iface vm) ! 0 = zero_iface" using subsetD [OF if0 nth_mem, of 0] by simp
  then have "str_ok (is_device_name (device_array (vm_iface vm) ! 0))"
    by (simp add: is_device_name_def zero_iface_def)
  with scan_print [OF vm(4,5) n _ vm(6)] vm(2) assms(3) obtain out where
      out: "vminfo_print_json vm = Some out" "scan Plain out = Stuck"
    by (auto simp: uuid_text_def)
  have "scan Plain (response_head (uuid_unparse env (sr_uuid (rq_sr req))) (time_now env)) = Plain"
    using assms(4) by (simp add: response_head_def uuid_text_def scan_str_ok scan_dec)
  then have "scan Plain (record_response env cf req record) = Stuck"
    using assms(6) out by (simp add: record_response_def vm(1) ev(1) scan_stream [OF ev(2)])
  then show ?thesis using scan_stream [of vs "record_response env cf req record"] by auto
qed

text \<open>C14: when the answer to a sample is JSON: for a record of libvirt, whatever its parameters, the buffer that is written is
  a stream of JSON objects exactly when the machine has no interface (no positive \<^verbatim>\<open>net.count\<close>) or only events are
  wanted: the entry of an interface ends in a comma without a member after it. It is then the stream of
  the usage events
  (one for each block device when the threshold triggers, all for the nameless empty device), and, unless only events are
  wanted, a line with one object, the response to the request, whose data has the identifier of the machine, the processor and balloon values
  parsed from the record, no virtual CPU, an entry of zeros with the empty name for each block device, and no interface.\<close>

theorem record_answer_json:
  assumes "\<forall>n sz. calloc_ok env n sz" and "vir_DomainGetUUIDString env (rec_dom record) = Some u"
    and "uuid_text u" and "uuid_text (uuid_unparse env (sr_uuid (rq_sr req)))"
  shows "if last_ul ''net.count'' 0 (rec_params record) = 0 \<or> cf_events_only cf
    then stream (answers env cf req u (rec_params record)) (record_response env cf req record)
    else \<forall>vs. \<not> stream vs (record_response env cf req record)"
  using record_answer_stream [OF assms] record_answer_stuck [OF assms] by simp

definition record0 :: "nat virDomainStatsRecord" where
  "record0 = \<lparr>rec_dom = 0, rec_params = [\<lparr>field = ''cpu.time'', value_raw = 7, value_s = []\<rparr>,
     \<lparr>field = ''block.count'', value_raw = 2, value_s = []\<rparr>]\<rparr>"

definition record1 :: "nat virDomainStatsRecord" where
  \<comment> \<open>with an interface\<close>
  "record1 = \<lparr>rec_dom = 0, rec_params = [\<lparr>field = ''net.count'', value_raw = 1, value_s = []\<rparr>]\<rparr>"

theorem record_answer_json_witness:
  "stream (answers env0 (cx_conf ctx0) req0 ''d'' (rec_params record0)) (record_response env0 (cx_conf ctx0) req0 record0) \<and>
    (\<forall>vs. \<not> stream vs (record_response env0 (cx_conf ctx0) req0 record1))"
proof -
  have 1: "\<forall>n sz. calloc_ok env0 n sz" "vir_DomainGetUUIDString env0 (rec_dom r) = Some ''d''" for r
    by (simp_all add: env0_def)
  have 2: "uuid_text ''d''" "uuid_text (uuid_unparse env0 (sr_uuid (rq_sr req0)))"
    by (simp_all add: env0_def uuid_text_def)
  have 3: "last_ul ''net.count'' 0 (rec_params record0) = 0" "last_ul ''net.count'' 0 (rec_params record1) \<noteq> 0"
      "\<not> cf_events_only (cx_conf ctx0)"
    by (simp_all add: record0_def record1_def ctx0_def value_ul_def)
  show ?thesis
    using record_answer_json [OF 1(1) 1(2) 2, of record0 "cx_conf ctx0"] record_answer_json [OF 1(1) 1(2) 2, of record1 "cx_conf ctx0"] 3
    by simp
qed

end
