(* ===== verification/Jsmn_Resume.thy ===== *)
theory Jsmn_Resume
  imports Jsmn
begin

text \<open>
  Resuming the tokenizer of \<^verbatim>\<open>contrib/jsmn/jsmn.c\<close> with a bigger array after it has run out of tokens: the contract on which
  its callers that grow the array (\<^verbatim>\<open>contrib/jsmn/example/jsondump.c\<close>) rely.
\<close>

section \<open>The count is only added to\<close>

abbreviation add_count :: "nat \<Rightarrow> (jsmn_parser \<times> tokens \<times> nat) jsmn_result \<Rightarrow> (jsmn_parser \<times> tokens \<times> nat) jsmn_result" where
  "add_count d \<equiv> map_sum id (\<lambda>(p, ts, n). (p, ts, n + d))"

lemma jsmn_step_add: "jsmn_step js p tokens (c + d) = add_count d (jsmn_step js p tokens c)"
  by (simp add: jsmn_step_def Let_def map_sum_def split: sum.split prod.split)

lemma jsmn_loop_add: "jsmn_loop js p tokens (c + d) = add_count d (jsmn_loop js p tokens c)"
proof (induction js p tokens c rule: jsmn_loop.induct)
  case (1 js p tokens c)
  show ?case
  proof (cases "pos p < length js \<and> js ! pos p \<noteq> NUL")
    case True
    show ?thesis
    proof (cases "jsmn_step js p tokens c")
      case (Inl e)
      then show ?thesis using True by (simp add: jsmn_loop.simps [of js p] jsmn_step_add)
    next
      case (Inr r)
      then show ?thesis
        using True 1 by (cases r) (simp add: jsmn_loop.simps [of js p] jsmn_step_add)
    qed
  qed (auto simp: jsmn_loop.simps [of js p])
qed

section \<open>A bigger array\<close>

abbreviation nomem :: "'r jsmn_result \<Rightarrow> bool" where
  "nomem r \<equiv> \<exists>q. r = Inl (JSMN_ERROR_NOMEM, q)"

abbreviation grow :: "jsmntok_t list \<Rightarrow> tokens \<Rightarrow> tokens" where
  "grow X \<equiv> map_option (\<lambda>ts. ts @ X)"

abbreviation grown :: "jsmntok_t list \<Rightarrow> (jsmn_parser \<times> tokens) jsmn_result \<Rightarrow> (jsmn_parser \<times> tokens) jsmn_result" where
  "grown X \<equiv> map_sum (\<lambda>(e, q, t). (e, q, grow X t)) (\<lambda>(q, t). (q, grow X t))"

abbreviation grown_step :: "jsmntok_t list \<Rightarrow> (jsmn_parser \<times> tokens \<times> nat) jsmn_result \<Rightarrow> (jsmn_parser \<times> tokens \<times> nat) jsmn_result" where
  "grown_step X \<equiv> map_sum (\<lambda>(e, q, t). (e, q, grow X t)) (\<lambda>(q, t, n). (q, grow X t, n))"

definition room_ok :: "jsmn_parser \<Rightarrow> jsmntok_t list \<Rightarrow> bool" where
  "room_ok p A \<longleftrightarrow> toknext p \<le> length A \<and> -1 \<le> toksuper p \<and> toksuper p < int (toknext p)"

lemma jsmn_inv_room: "jsmn_inv js n p A \<Longrightarrow> room_ok p A"
  by (simp add: jsmn_inv_def room_ok_def)

lemma find_tok_more: "n \<le> length A \<Longrightarrow> find_tok P (A @ X) n = find_tok P A n"
  by (induction n) (simp_all add: nth_append)

lemma bump_super_more:
  assumes "toksuper p < int (length A)" and "-1 \<le> toksuper p"
  shows "bump_super p (Some (A @ X)) = grow X (bump_super p (Some A))"
  using assms nat_less_iff [of "toksuper p" "length A"]
  by (cases "toksuper p = -1") (simp_all add: bump_super_Some nth_append list_update_append)

lemma jsmn_alloc_more:
  "toknext p < length A \<Longrightarrow> jsmn_alloc_token p (A @ X) =
    map_option (\<lambda>(i, q, B). (i, q, B @ X)) (jsmn_alloc_token p A)"
  by (simp add: jsmn_alloc_token_def Let_def nth_append list_update_append)

lemma jsmn_open_more:
  assumes "room_ok p A" and "\<not> nomem (jsmn_open c p (Some A))"
  shows "jsmn_open c p (Some (A @ X)) = grown X (jsmn_open c p (Some A))"
proof -
  obtain i q B where a: "jsmn_alloc_token p A = Some (i, q, B)"
    using assms(2) by (auto simp: jsmn_open_def split: option.splits)
  note al = alloc_Some [OF a]
  have b: "bump_super q (Some (B @ X)) = grow X (bump_super q (Some B))"
    by (rule bump_super_more) (use assms(1) al in \<open>auto simp: room_ok_def\<close>)
  obtain C where c: "bump_super q (Some B) = Some C" by (simp add: bump_super_Some)
  have l: "i < length C" using c al by (auto simp: bump_super_Some)
  show ?thesis
    using al(2) l by (simp add: jsmn_open_def a jsmn_alloc_more b c nth_append list_update_append)
qed

lemma jsmn_close_more:
  assumes "room_ok p A"
  shows "jsmn_close c p (Some (A @ X)) = grown X (jsmn_close c p (Some A))"
proof (cases "find_tok tok_open A (toknext p)")
  case None
  then show ?thesis using assms by (simp add: jsmn_close_def Let_def find_tok_more room_ok_def)
next
  case (Some i)
  then have i: "i < toknext p" using find_tok_Some by blast
  have l: "toknext p \<le> length A" "i < length A" using assms i by (simp_all add: room_ok_def)
  have "find_tok tok_open (A[i := t] @ X) (Suc i) = find_tok tok_open (A[i := t]) (Suc i)" for t
    using l by (intro find_tok_more) simp
  then show ?thesis
    using Some l by (simp add: jsmn_close_def Let_def find_tok_more nth_append list_update_append del: find_tok.simps)
qed

lemma jsmn_comma_more:
  "room_ok p A \<Longrightarrow> jsmn_comma p (Some (A @ X)) = grown X (jsmn_comma p (Some A))"
  by (auto simp: jsmn_comma_def room_ok_def find_tok_more nth_append split: option.split)

lemma jsmn_parse_string_more:
  assumes "\<not> nomem (jsmn_parse_string p js (Some A))"
  shows "jsmn_parse_string p js (Some (A @ X)) = grown X (jsmn_parse_string p js (Some A))"
  using assms
  by (cases "toknext p < length A")
    (auto simp: jsmn_parse_string_def Let_def jsmn_alloc_token_def nth_append list_update_append split: string_scan.splits)

lemma jsmn_parse_primitive_more:
  assumes "\<not> nomem (jsmn_parse_primitive p js (Some A))"
  shows "jsmn_parse_primitive p js (Some (A @ X)) = grown X (jsmn_parse_primitive p js (Some A))"
  using assms
  by (cases "toknext p < length A")
    (auto simp: jsmn_parse_primitive_def Let_def jsmn_alloc_token_def nth_append list_update_append split: option.splits)

lemma grown_frames:
  "map_sum id (\<lambda>(q, t). (q, t, n)) (grown X r) = grown_step X (map_sum id (\<lambda>(q, t). (q, t, n)) r)"
  by (cases r) auto

lemma jsmn_alloc_room:
  "jsmn_alloc_token p A = Some (i, q, B) \<Longrightarrow> room_ok p A \<Longrightarrow> length B = length A \<and> toksuper q < int (length B) \<and> -1 \<le> toksuper q"
  by (auto simp: room_ok_def jsmn_alloc_token_def Let_def split: if_splits)

lemma jsmn_string_bump:
  assumes "room_ok p A" and "\<not> nomem (jsmn_parse_string p js (Some A))"
  shows "map_sum id (\<lambda>(q, t). (q, bump_super q t, n)) (jsmn_parse_string p js (Some (A @ X))) =
    grown_step X (map_sum id (\<lambda>(q, t). (q, bump_super q t, n)) (jsmn_parse_string p js (Some A)))"
proof (cases "jsmn_parse_string p js (Some A)")
  case (Inr r)
  then obtain q B where r: "r = (q, Some B)" "toksuper q < int (length B)" "-1 \<le> toksuper q"
    using assms(1) by (auto simp: jsmn_parse_string_def Let_def split: string_scan.splits option.splits dest!: jsmn_alloc_room)
  show ?thesis
    unfolding jsmn_parse_string_more [OF assms(2)] using Inr by (simp add: r bump_super_more)
qed (simp add: jsmn_parse_string_more [OF assms(2)] split: prod.split)

lemma jsmn_primitive_bump:
  assumes "room_ok p A" and "\<not> nomem (jsmn_parse_primitive p js (Some A))"
  shows "map_sum id (\<lambda>(q, t). (q, bump_super q t, n)) (jsmn_parse_primitive p js (Some (A @ X))) =
    grown_step X (map_sum id (\<lambda>(q, t). (q, bump_super q t, n)) (jsmn_parse_primitive p js (Some A)))"
proof (cases "jsmn_parse_primitive p js (Some A)")
  case (Inr r)
  then obtain q B where r: "r = (q, Some B)" "toksuper q < int (length B)" "-1 \<le> toksuper q"
    using assms(1) by (auto simp: jsmn_parse_primitive_def Let_def split: option.splits dest!: jsmn_alloc_room)
  show ?thesis
    unfolding jsmn_parse_primitive_more [OF assms(2)] using Inr by (simp add: r bump_super_more)
qed (simp add: jsmn_parse_primitive_more [OF assms(2)] split: prod.split)

lemma jsmn_step_more:
  assumes room: "room_ok p A" and r: "\<not> nomem (jsmn_step js p (Some A) c)"
  shows "jsmn_step js p (Some (A @ X)) c = grown_step X (jsmn_step js p (Some A) c)"
proof -
  let ?c = "js ! pos p"
  consider (op) "?c = CHR ''{'' \<or> ?c = CHR ''[''" | (cl) "?c = CHR ''}'' \<or> ?c = CHR '']''"
    | (str) "?c = CHR 0x22" | (ws) "?c \<in> {CHR 0x09, CHR 0x0D, CHR 0x0A, CHR '' ''}"
    | (col) "?c = CHR '':''" | (com) "?c = CHR '',''"
    | (prim) "?c \<notin> {CHR ''{'', CHR ''['', CHR 0x22, CHR ''}'', CHR '']'', CHR 0x09, CHR 0x0D, CHR 0x0A,
        CHR '' '', CHR '':'', CHR '',''}"
    by blast
  then show ?thesis
  proof cases
    case op
    have "\<not> nomem (jsmn_open ?c p (Some A))" using r op by (auto simp: jsmn_step_def Let_def)
    from jsmn_open_more [OF room this, of X] op show ?thesis by (auto simp: jsmn_step_def Let_def grown_frames)
  next
    case cl
    then show ?thesis using jsmn_close_more [OF room, of ?c X] by (auto simp: jsmn_step_def Let_def grown_frames)
  next
    case str
    have "\<not> nomem (jsmn_parse_string p js (Some A))" using r str by (auto simp: jsmn_step_def Let_def)
    from jsmn_string_bump [OF room this, of "c + 1" X] str show ?thesis by (simp add: jsmn_step_def Let_def)
  next
    case com
    then show ?thesis using jsmn_comma_more [OF room, of X] by (simp add: jsmn_step_def Let_def grown_frames)
  next
    case prim
    have "\<not> nomem (jsmn_parse_primitive p js (Some A))" using r prim by (auto simp: jsmn_step_def Let_def)
    from jsmn_primitive_bump [OF room this, of "c + 1" X] prim show ?thesis by (simp add: jsmn_step_def Let_def)
  qed (auto simp: jsmn_step_def Let_def)
qed

text \<open>Where the loop stops with an error, it has kept its invariant, and out of memory means a full array.\<close>

lemma jsmn_loop_stop:
  "jsmn_loop js p tokens c = Inl (e, q, t) \<Longrightarrow> tokens = Some A \<Longrightarrow> jsmn_inv js (pos p) p A \<Longrightarrow>
    toknext p \<le> toknext q \<and> (\<exists>B. t = Some B \<and> jsmn_inv js (pos q) q B \<and> length B = length A) \<and>
    (e = JSMN_ERROR_NOMEM \<longrightarrow> length A \<le> toknext q)"
proof (induction js p tokens c arbitrary: A rule: jsmn_loop.induct)
  case (1 js p tokens c)
  have c: "pos p < length js" "js ! pos p \<noteq> NUL"
    using "1.prems"(1) by (auto simp: jsmn_loop.simps [of js p] split: if_splits)
  show ?case
  proof (cases "jsmn_step js p (Some A) c")
    case (Inl x)
    then have "jsmn_step js p (Some A) c = Inl (e, q, t)"
      using "1.prems" c by (simp add: jsmn_loop.simps [of js p])
    from jsmn_step_error [OF this] show ?thesis using "1.prems"(3) by auto
  next
    case (Inr x)
    then obtain r u n where st: "jsmn_step js p (Some A) c = Inr (r, u, n)" by (cases x) auto
    obtain B where B: "u = Some B" "jsmn_inv js (pos r + 1) r B" "length B = length A" "toknext r + c = toknext p + n"
      using jsmn_step_inv [OF "1.prems"(3) c st] by blast
    have le: "toknext p \<le> toknext r"
      using st by (auto simp: jsmn_step_def jsmn_open_def jsmn_close_def jsmn_comma_def jsmn_parse_string_def
        jsmn_parse_primitive_def jsmn_alloc_token_def bump_super_def Let_def map_sum_def
        split: if_splits sum.splits option.splits string_scan.splits prod.splits)
    have l: "jsmn_loop js (r\<lparr>pos := pos r + 1\<rparr>) u n = Inl (e, q, t)"
      using "1.prems" c st by (simp add: jsmn_loop.simps [of js p])
    have i: "jsmn_inv js (pos (r\<lparr>pos := pos r + 1\<rparr>)) (r\<lparr>pos := pos r + 1\<rparr>) B" using B(2) by simp
    show ?thesis
      using "1.IH" [of "(r, u, n)" r "(u, n)" u n B, OF _ _ _ _ l B(1) i] c st "1.prems"(2) B le by auto
  qed
qed

lemma jsmn_loop_more:
  "tokens = Some A \<Longrightarrow> jsmn_inv js (pos p) p A \<Longrightarrow> jsmn_loop js p (Some (A @ X)) c =
    (case jsmn_loop js p tokens c of
       Inl (e, q, t) \<Rightarrow> if e = JSMN_ERROR_NOMEM then jsmn_loop js q (grow X t) (c + toknext q - toknext p)
         else Inl (e, q, grow X t)
     | Inr (q, t, n) \<Rightarrow> Inr (q, grow X t, n))"
proof (induction js p tokens c arbitrary: A rule: jsmn_loop.induct)
  case (1 js p tokens c)
  show ?case
  proof (cases "pos p < length js \<and> js ! pos p \<noteq> NUL")
    case False
    then show ?thesis using "1.prems" by (auto simp: jsmn_loop.simps [of js p])
  next
    case c: True
    have room: "room_ok p A" using "1.prems"(2) by (rule jsmn_inv_room)
    show ?thesis
    proof (cases "jsmn_step js p (Some A) c")
      case (Inl x)
      obtain e q t where x: "x = (e, q, t)" by (cases x)
      note err = jsmn_step_error [OF Inl [unfolded x]]
      have l: "jsmn_loop js p tokens c = Inl (e, p, Some A)"
        using "1.prems"(1) Inl c err by (simp add: jsmn_loop.simps [of js p] x)
      show ?thesis
      proof (cases "e = JSMN_ERROR_NOMEM")
        case True
        then show ?thesis by (simp add: l)
      next
        case False
        then have "jsmn_step js p (Some (A @ X)) c = Inl (e, p, Some (A @ X))"
          using jsmn_step_more [OF room, of js c X] Inl err x by auto
        then have "jsmn_loop js p (Some (A @ X)) c = Inl (e, p, Some (A @ X))"
          using c by (simp add: jsmn_loop.simps [of js p])
        then show ?thesis using False by (simp add: l)
      qed
    next
      case (Inr x)
      then obtain r u n where st: "jsmn_step js p (Some A) c = Inr (r, u, n)" by (cases x) auto
      obtain B where B: "u = Some B" "jsmn_inv js (pos r + 1) r B" "toknext r + c = toknext p + n"
        using jsmn_step_inv [OF "1.prems"(2) _ _ st] c by blast
      have st': "jsmn_step js p (Some (A @ X)) c = Inr (r, Some (B @ X), n)"
        using jsmn_step_more [OF room, of js c X] st B(1) by simp
      have i: "jsmn_inv js (pos (r\<lparr>pos := pos r + 1\<rparr>)) (r\<lparr>pos := pos r + 1\<rparr>) B" using B(2) by simp
      have l: "jsmn_loop js p tokens c = jsmn_loop js (r\<lparr>pos := pos r + 1\<rparr>) u n"
        using "1.prems"(1) c st by (simp add: jsmn_loop.simps [of js p])
      have l': "jsmn_loop js p (Some (A @ X)) c = jsmn_loop js (r\<lparr>pos := pos r + 1\<rparr>) (Some (B @ X)) n"
        using c st' by (simp add: jsmn_loop.simps [of js p])
      have "n + toknext q - toknext r = c + toknext q - toknext p" for q :: jsmn_parser
        using B(3) by arith
      then show ?thesis
        using "1.IH" [of "(r, u, n)" r "(u, n)" u n B, OF _ _ _ _ B(1) i] c st "1.prems"(1)
        unfolding l l' by (simp cong: if_cong split: sum.split)
    qed
  qed
qed

section \<open>Resuming\<close>

text \<open>An array that is big enough may as well be bigger.\<close>

lemma jsmn_parse_grown:
  assumes "\<not> nomem (jsmn_parse jsmn_init js (Some A))"
  shows "jsmn_parse jsmn_init js (Some (A @ X)) = grown_step X (jsmn_parse jsmn_init js (Some A))"
proof (cases "jsmn_loop js jsmn_init (Some A) 0")
  case (Inl x)
  obtain e q t where x: "x = (e, q, t)" by (cases x)
  then have "jsmn_parse jsmn_init js (Some A) = Inl (e, q, t)" using Inl by (simp add: jsmn_parse_def)
  moreover from this have "e \<noteq> JSMN_ERROR_NOMEM" using assms by auto
  moreover from this have "jsmn_loop js jsmn_init (Some (A @ X)) 0 = Inl (e, q, grow X t)"
    using jsmn_loop_more [OF refl jsmn_inv_init, where A = A and js = js and X = X and c = 0] Inl x by simp
  ultimately show ?thesis by (simp add: jsmn_parse_def)
next
  case (Inr x)
  obtain q t n where x: "x = (q, t, n)" by (cases x)
  then have l: "jsmn_loop js jsmn_init (Some A) 0 = Inr (q, t, n)" using Inr by simp
  obtain B where B: "t = Some B" "jsmn_inv js (pos q) q B" using jsmn_loop_inv [OF l refl jsmn_inv_init] by auto
  have "jsmn_loop js jsmn_init (Some (A @ X)) 0 = Inr (q, Some (B @ X), n)"
    using jsmn_loop_more [OF refl jsmn_inv_init, where A = A and js = js and X = X and c = 0] l B(1) by simp
  moreover have "find_tok tok_open (B @ X) (toknext q) = find_tok tok_open B (toknext q)"
    using B(2) by (intro find_tok_more) (simp add: jsmn_inv_def)
  ultimately show ?thesis using l B(1) by (simp add: jsmn_parse_def split: option.split)
qed

lemma jsmn_parse_more:
  assumes "jsmn_inv js (pos p) p A" and "jsmn_parse p js (Some A) = Inl (JSMN_ERROR_NOMEM, q, Some B)"
  shows "jsmn_parse p js (Some (A @ X)) = add_count (toknext q - toknext p) (jsmn_parse q js (Some (B @ X)))"
    and "jsmn_inv js (pos q) q B" and "length B = length A" and "length A \<le> toknext q" and "toknext p \<le> toknext q"
proof -
  have l: "jsmn_loop js p (Some A) 0 = Inl (JSMN_ERROR_NOMEM, q, Some B)"
    using assms(2) by (auto simp: jsmn_parse_def split: sum.splits prod.splits option.splits)
  note stop = jsmn_loop_stop [OF l refl assms(1)]
  then show "jsmn_inv js (pos q) q B" "length B = length A" "length A \<le> toknext q" "toknext p \<le> toknext q" by auto
  have "jsmn_loop js p (Some (A @ X)) 0 = add_count (toknext q - toknext p) (jsmn_loop js q (Some (B @ X)) 0)"
    unfolding jsmn_loop_add [of js q "Some (B @ X)" 0 "toknext q - toknext p", symmetric]
    using jsmn_loop_more [OF refl assms(1), of X 0] by (simp add: l)
  then show "jsmn_parse p js (Some (A @ X)) = add_count (toknext q - toknext p) (jsmn_parse q js (Some (B @ X)))"
    by (simp add: jsmn_parse_def split: sum.split prod.split option.split)
qed

text \<open>C18: running out of tokens loses nothing: when \<open>jsmn_parse\<close> stops with \<^verbatim>\<open>JSMN_ERROR_NOMEM\<close>, the array is full, and calling
  it again on the same text with the parser it left and the array enlarged by anything gives what one call with
  the large array gives: the same error or the same parser and tokens. Only the return value differs, which counts the tokens of
  the last call alone.\<close>

theorem jsmn_parse_resume:
  assumes "jsmn_parse jsmn_init js (Some A) = Inl (JSMN_ERROR_NOMEM, q, Some B)"
  shows "toknext q = length A \<and> length B = length A \<and>
    jsmn_parse jsmn_init js (Some (A @ X)) =
      map_sum id (\<lambda>(p, ts, n). (p, ts, n + length A)) (jsmn_parse q js (Some (B @ X)))"
proof -
  note more = jsmn_parse_more [OF jsmn_inv_init assms]
  have "toknext q = length A" using more(2-4) by (simp add: jsmn_inv_def)
  then show ?thesis using more(1) [of X] more(3) by (simp add: jsmn_init_def)
qed

theorem jsmn_parse_resume_witness:
  "\<exists>q B. jsmn_parse jsmn_init ex_full (Some [blank_tok]) = Inl (JSMN_ERROR_NOMEM, q, Some B) \<and>
    jsmn_parse jsmn_init ex_full (Some ([blank_tok] @ [blank_tok])) =
      map_sum id (\<lambda>(p, ts, n). (p, ts, n + 1)) (jsmn_parse q ex_full (Some (B @ [blank_tok])))"
  using jsmn_parse_resume [OF ex_full_parse, of "[blank_tok]"] ex_full_parse by auto

end
