(* ===== verification/Jsmn_Examples.thy ===== *)
theory Jsmn_Examples
  imports Jsmn_Json Jsmn_Resume
begin

text \<open>
  The two programs of \<^verbatim>\<open>contrib/jsmn/example\<close>: \<^verbatim>\<open>jsondump.c\<close>, which reads JSON in chunks and prints it indented, and
  \<^verbatim>\<open>simple.c\<close>, which picks members out of a fixed text. Memory that was not written holds
  what \<open>heap\<close> says; \<open>mem\<close> tells which sizes can be allocated. \<open>None\<close> is undefined behaviour, or, in the loop that grows the array,
  not returning. The counters \<open>i\<close>, \<open>j\<close> and \<open>indent\<close> stay far below \<open>2^31\<close> and are natural numbers; \<open>count\<close>
  is a \<^verbatim>\<open>size_t\<close>, which wraps.
\<close>

section \<open>Printing the tokens\<close>

definition tok_print :: "string \<Rightarrow> jsmntok_t \<Rightarrow> string option" where
  \<comment> \<open>\<open>printf("%.*s", end - start, js + start)\<close>\<close>
  "tok_print js t =
     (if 0 \<le> tok_start t \<and> tok_start t \<le> tok_end t \<and> tok_end t \<le> int (length js)
      then Some (takeWhile (\<lambda>c. c \<noteq> NUL) (take (nat (tok_end t - tok_start t)) (drop (nat (tok_start t)) js)))
      else None)"

definition indentation :: "nat \<Rightarrow> string" where
  "indentation k = concat (replicate k ''  '')"

function dump :: "string \<Rightarrow> jsmntok_t list \<Rightarrow> nat \<Rightarrow> ull \<Rightarrow> nat \<Rightarrow> (string \<times> nat) option"
  and dump_members :: "string \<Rightarrow> jsmntok_t list \<Rightarrow> nat \<Rightarrow> ull \<Rightarrow> nat \<Rightarrow> nat \<Rightarrow> nat \<Rightarrow> (string \<times> nat) option"
  and dump_items :: "string \<Rightarrow> jsmntok_t list \<Rightarrow> nat \<Rightarrow> ull \<Rightarrow> nat \<Rightarrow> nat \<Rightarrow> nat \<Rightarrow> (string \<times> nat) option"
where
  \<comment> \<open>\<open>t\<close> is the token at \<open>n\<close>; the loops have \<open>k\<close> turns left\<close>
  "dump js ts n count indent =
     (if count = 0 then Some ([], 0)
      else if n < length ts
      then (case tok_type (ts ! n) of
              JSMN_PRIMITIVE \<Rightarrow> map_option (\<lambda>s. (s, 1)) (tok_print js (ts ! n))
            | JSMN_STRING \<Rightarrow> map_option (\<lambda>s. (CHR 0x27 # s @ [CHR 0x27], 1)) (tok_print js (ts ! n))
            | JSMN_OBJECT \<Rightarrow> map_option (\<lambda>(s, j). (CHR 0x0A # s, j + 1))
                (dump_members js ts n count indent (tok_size (ts ! n)) 0)
            | JSMN_ARRAY \<Rightarrow> map_option (\<lambda>(s, j). (CHR 0x0A # s, j + 1))
                (dump_items js ts n count indent (tok_size (ts ! n)) 0))
      else None)"
| "dump_members js ts n count indent 0 j = Some ([], j)"
| "dump_members js ts n count indent (Suc k) j = do {
     (a, d) \<leftarrow> dump js ts (n + 1 + j) (count - of_nat j) (indent + 1);
     let j = j + d;
     (b, d) \<leftarrow> dump js ts (n + 1 + j) (count - of_nat j) (indent + 1);
     let j = j + d;
     (rest, j) \<leftarrow> dump_members js ts n count indent k j;
     Some (indentation indent @ a @ '': '' @ b @ CHR 0x0A # rest, j) }"
| "dump_items js ts n count indent 0 j = Some ([], j)"
| "dump_items js ts n count indent (Suc k) j = do {
     (a, d) \<leftarrow> dump js ts (n + 1 + j) (count - of_nat j) (indent + 1);
     let j = j + d;
     (rest, j) \<leftarrow> dump_items js ts n count indent k j;
     Some (indentation (indent - 1) @ ''   - '' @ a @ CHR 0x0A # rest, j) }"
  by pat_completeness auto
termination
  by (relation "measures
      [case_sum (\<lambda>(js, ts, n, _). length ts - n)
         (case_sum (\<lambda>(js, ts, n, _). length ts - n) (\<lambda>(js, ts, n, _). length ts - n)),
       case_sum (\<lambda>(js, ts, n, _). if n < length ts then tok_size (ts ! n) + 2 else 0)
         (case_sum (\<lambda>(_, _, _, _, _, k, _). Suc k) (\<lambda>(_, _, _, _, _, k, _). Suc k))]") auto

declare dump.simps [simp del]

section \<open>What is printed of a value\<close>

fun yaml :: "nat \<Rightarrow> json \<Rightarrow> string" where
  "yaml ind (JPrim w) = w"
| "yaml ind (JStr s) = CHR 0x27 # s @ [CHR 0x27]"
| "yaml ind (JArr vs) = CHR 0x0A # concat (map (\<lambda>v. indentation (ind - 1) @ ''   - '' @ yaml (ind + 1) v @ [CHR 0x0A]) vs)"
| "yaml ind (JObj ms) = CHR 0x0A # concat (map (\<lambda>m. indentation ind @ CHR 0x27 # fst m @ CHR 0x27 # '': '' @
     yaml (ind + 1) (snd m) @ [CHR 0x0A]) ms)"

lemma tok_print_mk:
  assumes "js = pre @ w @ post" and "i = length pre" and "j = i + length w" and "NUL \<notin> set w"
  shows "tok_print js (mk_tok ty i j n) = Some w"
  using assms by (auto simp: tok_print_def mk_tok_def nat_add_distrib)

lemma unat_minus: "j \<le> unat (count :: ull) \<Longrightarrow> unat (count - of_nat j) = unat count - j"
  by (metis le_unat_uoi unat_sub word_le_nat_alt)

lemma prim_ok_NUL: "prim_ok w \<Longrightarrow> NUL \<notin> set w"
  by (auto simp: prim_ok_def prim_bad_def list_all_iff)

lemma dump_mk:
  assumes "count \<noteq> 0" and "ts = P @ mk_tok ty i j k # Q"
  shows "dump js ts (length P) count ind =
    (case ty of
       JSMN_PRIMITIVE \<Rightarrow> map_option (\<lambda>s. (s, 1)) (tok_print js (mk_tok ty i j k))
     | JSMN_STRING \<Rightarrow> map_option (\<lambda>s. (CHR 0x27 # s @ [CHR 0x27], 1)) (tok_print js (mk_tok ty i j k))
     | JSMN_OBJECT \<Rightarrow> map_option (\<lambda>(s, j). (CHR 0x0A # s, j + 1)) (dump_members js ts (length P) count ind k 0)
     | JSMN_ARRAY \<Rightarrow> map_option (\<lambda>(s, j). (CHR 0x0A # s, j + 1)) (dump_items js ts (length P) count ind k 0))"
proof -
  have "ts ! length P = mk_tok ty i j k" "length P < length ts" using assms(2) by simp_all
  then show ?thesis using assms(1) by (simp add: dump.simps [of js ts] mk_tok_def split: jsmntype_t.split)
qed

lemma count_pos: "0 < k \<Longrightarrow> k \<le> unat (count :: ull) \<Longrightarrow> count \<noteq> 0"
  by auto

lemma dump_key:
  assumes "js = pre @ quote k @ post" and "ts = P @ mk_tok JSMN_STRING (length pre + 1) (length pre + 1 + length k) n # Q"
    and "str_ok k" and "0 < unat count"
  shows "dump js ts (length P) count ind = Some (CHR 0x27 # k @ [CHR 0x27], 1)"
proof -
  have "tok_print js (mk_tok JSMN_STRING (length pre + 1) (length pre + 1 + length k) n) = Some k"
    by (rule tok_print_mk [of _ "pre @ [CHR 0x22]" _ "CHR 0x22 # post"])
      (use assms(1,3) str_ok_NUL in \<open>auto simp: quote_def\<close>)
  moreover have "count \<noteq> 0" using assms(4) by auto
  ultimately show ?thesis using dump_mk [OF _ assms(2), of count js ind] by simp
qed

lemma dump_json:
  "json_text v t f \<Longrightarrow> js = pre @ t @ post \<Longrightarrow> ts = P @ f (length pre) @ Q \<Longrightarrow>
    length (f (length pre)) \<le> unat count \<Longrightarrow>
    dump js ts (length P) count ind = Some (yaml ind v, length (f (length pre)))"
  "json_elems vs t f \<Longrightarrow> js = pre @ t @ post \<Longrightarrow> ts = P @ x # M @ f (length pre) @ Q \<Longrightarrow>
    length M + length (f (length pre)) \<le> unat count \<Longrightarrow>
    dump_items js ts (length P) count ind (length vs) (length M) =
      Some (concat (map (\<lambda>v. indentation (ind - 1) @ ''   - '' @ yaml (ind + 1) v @ [CHR 0x0A]) vs),
        length M + length (f (length pre)))"
  "json_members ms t f \<Longrightarrow> js = pre @ t @ post \<Longrightarrow> ts = P @ x # M @ f (length pre) @ Q \<Longrightarrow>
    length M + length (f (length pre)) \<le> unat count \<Longrightarrow>
    dump_members js ts (length P) count ind (length ms) (length M) =
      Some (concat (map (\<lambda>m. indentation ind @ CHR 0x27 # fst m @ CHR 0x27 # '': '' @ yaml (ind + 1) (snd m) @ [CHR 0x0A]) ms),
        length M + length (f (length pre)))"
proof (induction arbitrary: pre post P Q count ind and pre post P x M Q count ind and pre post P x M Q count ind
    rule: json_induct)
  case (json_prim s)
  have "tok_print js (mk_tok JSMN_PRIMITIVE (length pre) (length pre + length s) 0) = Some s"
    by (rule tok_print_mk [OF json_prim.prems(1)]) (use json_prim.hyps prim_ok_NUL in auto)
  then show ?case
    using json_prim.prems dump_mk [of count ts P JSMN_PRIMITIVE "length pre" "length pre + length s" 0 Q js ind]
    by (simp add: count_pos [of 1])
next
  case (json_str s)
  then show ?case using dump_key [of js pre s post ts P 0 Q count ind] by simp
next
  case (json_arr_empty b)
  then show ?case
    using dump_mk [of count ts P JSMN_ARRAY "length pre" "length pre + length b + 2" 0 Q js ind]
    by (simp add: count_pos [of 1])
next
  case (json_arr vs t f)
  have "dump_items js ts (length P) count ind (length vs) (length ([] :: jsmntok_t list)) =
      Some (concat (map (\<lambda>v. indentation (ind - 1) @ ''   - '' @ yaml (ind + 1) v @ [CHR 0x0A]) vs),
        length ([] :: jsmntok_t list) + length (f (length (pre @ ''[''))))"
    by (rule json_arr.IH)
      (use json_arr.prems in auto)
  then show ?case
    using json_arr.prems dump_mk [of count ts P JSMN_ARRAY "length pre" "length pre + length t + 2" "length vs" "f (length pre + 1) @ Q" js ind]
    by (simp add: count_pos [of "Suc k" for k])
next
  case (json_obj_empty b)
  then show ?case
    using dump_mk [of count ts P JSMN_OBJECT "length pre" "length pre + length b + 2" 0 Q js ind]
    by (simp add: count_pos [of 1])
next
  case (json_obj ms t f)
  have "dump_members js ts (length P) count ind (length ms) (length ([] :: jsmntok_t list)) =
      Some (concat (map (\<lambda>m. indentation ind @ CHR 0x27 # fst m @ CHR 0x27 # '': '' @ yaml (ind + 1) (snd m) @ [CHR 0x0A]) ms),
        length ([] :: jsmntok_t list) + length (f (length (pre @ ''{''))))"
    by (rule json_obj.IH [of "pre @ ''{''" "''}'' @ post" _ "mk_tok JSMN_OBJECT (length pre) (length pre + length t + 2) (length ms)" "[]" Q])
      (use json_obj.prems in auto)
  then show ?case
    using json_obj.prems dump_mk [of count ts P JSMN_OBJECT "length pre" "length pre + length t + 2" "length ms" "f (length pre + 1) @ Q" js ind]
    by (simp add: count_pos [of "Suc k" for k])
next
  case (json_elem v t f a b)
  let ?g = "f (length pre + length a)"
  have "dump js ts (length (P @ x # M)) (count - of_nat (length M)) (ind + 1) = Some (yaml (ind + 1) v, length ?g)"
    using json_elem.IH [of "pre @ a" "b @ post" "P @ x # M" Q] json_elem.prems by (simp add: unat_minus)
  then show ?case by simp
next
  case (json_elem_more v t f a b vs u g)
  let ?f = "f (length pre + length a)" and ?q = "pre @ a @ t @ b @ '',''"
  have 1: "dump js ts (length (P @ x # M)) (count - of_nat (length M)) (ind + 1) = Some (yaml (ind + 1) v, length ?f)"
    using json_elem_more.IH(1) [of "pre @ a" "b @ '','' @ u @ post" "P @ x # M" "g (length ?q) @ Q"] json_elem_more.prems
    by (simp add: unat_minus add.assoc)
  have 2: "dump_items js ts (length P) count ind (length vs) (length (M @ ?f)) =
      Some (concat (map (\<lambda>v. indentation (ind - 1) @ ''   - '' @ yaml (ind + 1) v @ [CHR 0x0A]) vs),
        length (M @ ?f) + length (g (length ?q)))"
    by (rule json_elem_more.IH(2)) (use json_elem_more.prems in \<open>auto simp: ac_simps\<close>)
  show ?case using 1 2 by (simp add: ac_simps)
next
  case (json_member k v t f a b c d)
  let ?i = "length pre + length a + 1" and ?f = "f (length pre + length a + length k + length b + length c + 3)"
  let ?k = "mk_tok JSMN_STRING ?i (?i + length k) 1"
  let ?q = "pre @ a @ quote k @ b @ '':'' @ c"
  have 0: "dump js ts (length (P @ x # M)) (count - of_nat (length M)) (ind + 1) = Some (CHR 0x27 # k @ [CHR 0x27], 1)"
    using json_member.prems json_member.hyps dump_key [of js "pre @ a" k "b @ '':'' @ c @ t @ d @ post" ts "P @ x # M" 1 "?f @ Q"]
    by (simp add: unat_minus)
  have 1: "dump js ts (length (P @ x # M @ [?k])) (count - of_nat (length M + 1)) (ind + 1) = Some (yaml (ind + 1) v, length ?f)"
    using json_member.IH [of ?q "d @ post" "P @ x # M @ [?k]" Q] json_member.prems
    by (simp add: unat_minus quote_def eval_nat_numeral ac_simps del: of_nat_Suc of_nat_add)
  show ?case using 0 1 by (simp del: of_nat_Suc of_nat_add)
next
  case (json_member_more k v t f a b c d ms u g)
  let ?i = "length pre + length a + 1" and ?f = "f (length pre + length a + length k + length b + length c + 3)"
  let ?k = "mk_tok JSMN_STRING ?i (?i + length k) 1"
  let ?q = "pre @ a @ quote k @ b @ '':'' @ c"
  let ?g = "g (length pre + length a + length k + length b + length c + length t + length d + 4)"
  let ?text = "\<lambda>m. indentation ind @ CHR 0x27 # fst m @ CHR 0x27 # '': '' @ yaml (ind + 1) (snd m) @ [CHR 0x0A]"
  have 0: "dump js ts (length (P @ x # M)) (count - of_nat (length M)) (ind + 1) = Some (CHR 0x27 # k @ [CHR 0x27], 1)"
    using json_member_more.prems json_member_more.hyps
      dump_key [of js "pre @ a" k "b @ '':'' @ c @ t @ d @ '','' @ u @ post" ts "P @ x # M" 1 "?f @ ?g @ Q"]
    by (simp add: unat_minus)
  have 1: "dump js ts (length (P @ x # M @ [?k])) (count - of_nat (length M + 1)) (ind + 1) = Some (yaml (ind + 1) v, length ?f)"
    using json_member_more.IH(1) [of ?q "d @ '','' @ u @ post" "P @ x # M @ [?k]" "?g @ Q"] json_member_more.prems
    by (simp add: unat_minus quote_def eval_nat_numeral ac_simps del: of_nat_Suc of_nat_add)
  have 2: "dump_members js ts (length P) count ind (length ms) (length (M @ ?k # ?f)) =
      Some (concat (map ?text ms), length (M @ ?k # ?f) + length ?g)"
    using json_member_more.IH(2) [of "?q @ t @ d @ '',''" post P x "M @ ?k # ?f" Q] json_member_more.prems
    by (simp add: quote_def eval_nat_numeral ac_simps)
  show ?case using 0 1 2 by (simp add: ac_simps del: of_nat_Suc of_nat_add)
qed

section \<open>The main program of jsondump\<close>

abbreviation sizeof_jsmntok_t :: nat where "sizeof_jsmntok_t \<equiv> 16"

datatype again_result =
  No_Memory
| Parse_Error jsmnerr_t jsmn_parser tokens
| Parsed jsmn_parser tokens

partial_function (option) again ::
    "(nat \<Rightarrow> jsmntok_t) \<Rightarrow> (nat \<Rightarrow> bool) \<Rightarrow> jsmn_parser \<Rightarrow> string \<Rightarrow> jsmntok_t list \<Rightarrow> again_result option" where
  \<comment> \<open>from the label on: parse, and while the tokens are used up double the array\<close>
  "again heap mem p js tok =
     (case jsmn_parse p js (Some tok) of
        Inr (p, t, r) \<Rightarrow> Some (Parsed p t)
      | Inl (e, p, t) \<Rightarrow>
          (if e = JSMN_ERROR_NOMEM then
             (case t of
                None \<Rightarrow> None
              | Some tok \<Rightarrow>
                  (let tokcount = length tok * 2
                   in if mem (sizeof_jsmntok_t * tokcount)
                      then again heap mem p js (tok @ map heap [length tok..<tokcount])
                      else Some No_Memory))
           else Some (Parse_Error e p t)))"

definition chunk_text :: "string \<Rightarrow> string" where
  \<comment> \<open>\<open>strncpy(js + jslen, buf, r)\<close>: up to the first NUL, filled with NUL\<close>
  "chunk_text buf = (let s = takeWhile (\<lambda>c. c \<noteq> NUL) buf in s @ replicate (length buf - length s) NUL)"

fun jsondump_loop ::
    "(nat \<Rightarrow> jsmntok_t) \<Rightarrow> (nat \<Rightarrow> bool) \<Rightarrow> jsmn_parser \<Rightarrow> string \<Rightarrow> jsmntok_t list \<Rightarrow> bool \<Rightarrow> string list \<Rightarrow>
     (int \<times> string) option" where
  \<comment> \<open>the chunks that \<open>fread\<close> returns, to the end of the file; the exit code and the standard output\<close>
  "jsondump_loop heap mem p js tok eof_expected [] = Some (if eof_expected then 0 else 2, [])"
| "jsondump_loop heap mem p js tok eof_expected (buf # chunks) =
     (if buf = [] then Some (if eof_expected then 0 else 2, [])
      else if \<not> mem (length js + length buf + 1) then Some (3, [])
      else (let js = js @ chunk_text buf
            in case again heap mem p js tok of
                 None \<Rightarrow> None
               | Some No_Memory \<Rightarrow> Some (3, [])
               | Some (Parse_Error e p t) \<Rightarrow>
                   (case t of
                      None \<Rightarrow> None
                    | Some tok \<Rightarrow>
                        if e = OOB then None else jsondump_loop heap mem p js tok eof_expected chunks)
               | Some (Parsed p t) \<Rightarrow>
                   (case t of
                      None \<Rightarrow> None
                    | Some tok \<Rightarrow> do {
                        (out, _) \<leftarrow> dump js tok 0 (of_nat (toknext p)) 0;
                        (r, rest) \<leftarrow> jsondump_loop heap mem p js tok True chunks;
                        Some (r, out @ rest) })))"

definition jsondump_main :: "(nat \<Rightarrow> jsmntok_t) \<Rightarrow> (nat \<Rightarrow> bool) \<Rightarrow> string list \<Rightarrow> (int \<times> string) option" where
  "jsondump_main heap mem chunks =
     (let tokcount = 2
      in if mem (sizeof_jsmntok_t * tokcount)
         then jsondump_loop heap mem jsmn_init [] (map heap [0..<tokcount]) False chunks
         else Some (3, []))"

section \<open>Growing the array\<close>

text \<open>Each token takes a character at least.\<close>

lemma jsmn_step_toknext:
  "jsmn_step js p (Some ts) c = Inr (q, t, n) \<Longrightarrow> toknext q \<le> toknext p + 1"
  by (auto simp: jsmn_step_def jsmn_open_def jsmn_close_def jsmn_comma_def jsmn_parse_string_def
    jsmn_parse_primitive_def jsmn_alloc_token_def bump_super_def Let_def map_sum_def
    split: if_splits sum.splits option.splits string_scan.splits prod.splits)

definition end_parser :: "(jsmn_parser \<times> tokens \<times> nat) jsmn_result \<Rightarrow> jsmn_parser" where
  "end_parser r = (case r of Inl (e, q, t) \<Rightarrow> q | Inr (q, t, n) \<Rightarrow> q)"

lemma jsmn_loop_toknext:
  "tokens = Some ts \<Longrightarrow> jsmn_inv js (pos p) p ts \<Longrightarrow> toknext p \<le> pos p \<Longrightarrow>
    toknext (end_parser (jsmn_loop js p tokens c)) \<le> pos (end_parser (jsmn_loop js p tokens c)) \<and>
    pos (end_parser (jsmn_loop js p tokens c)) \<le> length js"
proof (induction js p tokens c arbitrary: ts rule: jsmn_loop.induct)
  case (1 js p tokens c)
  show ?case
  proof (cases "pos p < length js \<and> js ! pos p \<noteq> NUL")
    case False
    then show ?thesis
      using "1.prems" by (auto simp: jsmn_loop.simps [of js p] end_parser_def jsmn_inv_def)
  next
    case c: True
    show ?thesis
    proof (cases "jsmn_step js p (Some ts) c")
      case (Inl x)
      obtain e q t where x: "x = (e, q, t)" by (cases x)
      with jsmn_step_error [OF Inl [unfolded x]] have "q = p" by simp
      then show ?thesis using "1.prems" Inl c x by (simp add: jsmn_loop.simps [of js p] end_parser_def)
    next
      case (Inr x)
      then obtain r u n where st: "jsmn_step js p (Some ts) c = Inr (r, u, n)" by (cases x) auto
      obtain B where B: "u = Some B" "jsmn_inv js (pos r + 1) r B"
        using jsmn_step_inv [OF "1.prems"(2) _ _ st] c by blast
      have i: "jsmn_inv js (pos (r\<lparr>pos := pos r + 1\<rparr>)) (r\<lparr>pos := pos r + 1\<rparr>) B" using B(2) by simp
      have le: "toknext (r\<lparr>pos := pos r + 1\<rparr>) \<le> pos (r\<lparr>pos := pos r + 1\<rparr>)"
        using jsmn_step_toknext [OF st] jsmn_step_pos [OF st] c "1.prems"(3) by simp
      show ?thesis
        using "1.IH" [of "(r, u, n)" r "(u, n)" u n B, OF _ _ _ _ B(1) i le] c st "1.prems"(1)
        by (simp add: jsmn_loop.simps [of js p])
    qed
  qed
qed

lemma jsmn_parse_toknext:
  "toknext (end_parser (jsmn_parse jsmn_init js (Some ts))) \<le> length js"
proof -
  have "end_parser (jsmn_parse jsmn_init js (Some ts)) = end_parser (jsmn_loop js jsmn_init (Some ts) 0)"
    by (auto simp: jsmn_parse_def end_parser_def split: sum.split prod.split option.split)
  then show ?thesis
    using jsmn_loop_toknext [OF refl jsmn_inv_init, of js ts 0] by (simp add: jsmn_init_def)
qed

definition outcome :: "(jsmn_parser \<times> tokens \<times> nat) jsmn_result \<Rightarrow> again_result" where
  "outcome r = (case r of Inl (e, p, t) \<Rightarrow> Parse_Error e p t | Inr (p, t, n) \<Rightarrow> Parsed p t)"

definition result_parser :: "again_result \<Rightarrow> jsmn_parser" where
  "result_parser r = (case r of Parse_Error e p t \<Rightarrow> p | Parsed p t \<Rightarrow> p | No_Memory \<Rightarrow> jsmn_init)"

lemma outcome_parser: "result_parser (outcome r) = end_parser r"
  by (auto simp: outcome_def result_parser_def end_parser_def split: sum.split prod.split)

lemma outcome_add: "outcome (add_count d r) = outcome r"
  by (cases r) (auto simp: outcome_def)

lemma heap_upt: "i \<le> j \<Longrightarrow> j \<le> m \<Longrightarrow> map heap [i..<m] = map heap [i..<j] @ map heap [j..<m]"
  by (metis le_add_diff_inverse map_append upt_add_eq_append)

lemma again_grows:
  assumes mem: "\<And>k. mem k"
    and "jsmn_inv js (pos p) p tok" and "0 < length tok"
    and "\<forall>m \<ge> length tok. outcome (jsmn_parse jsmn_init js (Some (map heap [0..<m]))) =
      outcome (jsmn_parse p js (Some (tok @ map heap [length tok..<m])))"
  shows "\<exists>n \<ge> length tok. n \<le> max (length tok) (2 * length js) \<and>
    again heap mem p js tok = Some (outcome (jsmn_parse jsmn_init js (Some (map heap [0..<n])))) \<and>
    \<not> nomem (jsmn_parse jsmn_init js (Some (map heap [0..<n])))"
  using assms(2-4)
proof (induction "Suc (length js) - length tok" arbitrary: p tok rule: less_induct)
  case less
  let ?n = "length tok"
  have same: "outcome (jsmn_parse jsmn_init js (Some (map heap [0..<?n]))) = outcome (jsmn_parse p js (Some tok))"
    using less.prems(3) by simp
  show ?case
  proof (cases "nomem (jsmn_parse p js (Some tok))")
    case False
    then have "\<not> nomem (jsmn_parse jsmn_init js (Some (map heap [0..<?n])))"
      using same by (auto simp: outcome_def split: sum.splits)
    moreover have "again heap mem p js tok = Some (outcome (jsmn_parse p js (Some tok)))"
      using False by (subst again.simps) (auto simp: outcome_def split: sum.split)
    ultimately show ?thesis using same by (intro exI [of _ ?n]) simp
  next
    case True
    then obtain q t where e: "jsmn_parse p js (Some tok) = Inl (JSMN_ERROR_NOMEM, q, t)" by auto
    obtain B where t: "t = Some B"
      using e
      by (auto simp: jsmn_parse_def split: sum.splits option.splits prod.splits
        dest!: jsmn_loop_stop [OF _ refl less.prems(1)])
    note more = jsmn_parse_more [OF less.prems(1) e [unfolded t]]
    have "end_parser (jsmn_parse jsmn_init js (Some (map heap [0..<?n]))) = q"
      using same outcome_parser [of "jsmn_parse jsmn_init js (Some (map heap [0..<?n]))"] e
      by (simp add: outcome_def result_parser_def)
    then have n: "?n \<le> length js"
      using jsmn_parse_toknext [of js "map heap [0..<?n]"] more(4) by simp
    let ?tok = "B @ map heap [length B..<2 * ?n]"
    have l: "length ?tok = 2 * ?n" by (simp add: more(3))
    have less: "Suc (length js) - length ?tok < Suc (length js) - ?n"
      unfolding l using n less.prems(2) by arith
    have inv: "jsmn_inv js (pos q) q ?tok" using more(2) by (auto simp: jsmn_inv_def nth_append)
    have "outcome (jsmn_parse jsmn_init js (Some (map heap [0..<m]))) =
        outcome (jsmn_parse q js (Some (?tok @ map heap [length ?tok..<m])))" if "length ?tok \<le> m" for m
    proof -
      have "map heap [?n..<m] = map heap [?n..<2 * ?n] @ map heap [2 * ?n..<m]"
        using that l by (intro heap_upt) auto
      then show ?thesis
        using less.prems(3) more(1) [of "map heap [?n..<m]"] that l by (simp add: outcome_add more(3) mult_2)
    qed
    then have "\<exists>m \<ge> length ?tok. m \<le> max (length ?tok) (2 * length js) \<and>
        again heap mem q js ?tok = Some (outcome (jsmn_parse jsmn_init js (Some (map heap [0..<m])))) \<and>
        \<not> nomem (jsmn_parse jsmn_init js (Some (map heap [0..<m])))"
      using less.prems(2) l by (intro less.hyps inv less) auto
    moreover have "again heap mem p js tok = again heap mem q js ?tok"
      using mem e by (subst again.simps) (simp add: t more(3) mult.commute)
    moreover have "?n \<le> m \<and> m \<le> max ?n (2 * length js)"
      if "length ?tok \<le> m" "m \<le> max (length ?tok) (2 * length js)" for m
      using that n unfolding l by (simp add: max_def split: if_splits)
    ultimately show ?thesis by metis
  qed
qed

lemma again_result:
  assumes "\<forall>k. mem k"
  shows "\<exists>n \<ge> 2. n \<le> max 2 (2 * length js) \<and>
    again heap mem jsmn_init js (map heap [0..<2]) = Some (outcome (jsmn_parse jsmn_init js (Some (map heap [0..<n])))) \<and>
    \<not> nomem (jsmn_parse jsmn_init js (Some (map heap [0..<n])))"
proof -
  have same: "\<forall>m \<ge> length (map heap [0..<2]). outcome (jsmn_parse jsmn_init js (Some (map heap [0..<m]))) =
      outcome (jsmn_parse jsmn_init js (Some (map heap [0..<2] @ map heap [length (map heap [0..<2])..<m])))"
  proof (intro allI impI)
    fix m assume "length (map heap [0..<2]) \<le> m"
    then have "map heap [0..<m] = map heap [0..<2] @ map heap [length (map heap [0..<2])..<m]"
      using heap_upt [of 0 2 m heap] by (simp del: upt_Suc)
    then show "outcome (jsmn_parse jsmn_init js (Some (map heap [0..<m]))) =
        outcome (jsmn_parse jsmn_init js (Some (map heap [0..<2] @ map heap [length (map heap [0..<2])..<m])))"
      by (rule arg_cong)
  qed
  have l: "length (map heap [0..<2]) = 2" by simp
  show ?thesis using again_grows [OF _ jsmn_inv_init _ same, of mem] assms unfolding l by simp
qed

text \<open>C33: the loop of jsondump that doubles the token array ends, whatever the text, and gives what one call with the final
  array would: as long as memory can be had, from two tokens on, \<open>again\<close> returns, with at most twice as many tokens as the text has
  characters (or two), the parser, tokens and error of a single \<open>jsmn_parse\<close> into an array of that size, and the error is
  never \<^verbatim>\<open>JSMN_ERROR_NOMEM\<close>.\<close>

theorem jsondump_doubling:
  assumes "\<forall>k. mem k"
  shows "\<exists>n \<ge> 2. n \<le> max 2 (2 * length js) \<and>
    again heap mem jsmn_init js (map heap [0..<2]) = Some (outcome (jsmn_parse jsmn_init js (Some (map heap [0..<n])))) \<and>
    \<not> nomem (jsmn_parse jsmn_init js (Some (map heap [0..<n])))"
  using assms by (rule again_result)

theorem jsondump_doubling_witness:
  "\<exists>n \<le> 14. again (\<lambda>_. blank_tok) (\<lambda>_. True) jsmn_init ex_array (map (\<lambda>_. blank_tok) [0..<2]) =
    Some (outcome (jsmn_parse jsmn_init ex_array (Some (replicate n blank_tok))))"
  using jsondump_doubling [of "\<lambda>_. True" ex_array "\<lambda>_. blank_tok"] by (auto simp: ex_array_def map_replicate_const)

section \<open>Printing a text\<close>

lemma blanks_NUL: "blanks b \<Longrightarrow> NUL \<notin> set b"
  by (auto simp: blank_def list_all_iff)

lemma json_text_NUL:
  "json_text v t f \<Longrightarrow> NUL \<notin> set t"
  "json_elems vs t f \<Longrightarrow> NUL \<notin> set t"
  "json_members ms t f \<Longrightarrow> NUL \<notin> set t"
  by (induction rule: json_induct) (auto simp: prim_ok_NUL str_ok_NUL blanks_NUL quote_def dest: blanks_NUL str_ok_NUL)

lemma json_text_nonempty: "json_text v t f \<Longrightarrow> t \<noteq> []"
  by (cases rule: json_text.cases) (auto simp: prim_ok_def quote_def)

lemma chunk_text_id:
  assumes "NUL \<notin> set buf"
  shows "chunk_text buf = buf"
proof -
  have "takeWhile (\<lambda>c. c \<noteq> NUL) buf = buf" unfolding takeWhile_eq_all_conv using assms by blast
  then show ?thesis unfolding chunk_text_def by (simp only: Let_def diff_self_eq_0 replicate_0 append_Nil2)
qed

lemma json_text_again:
  assumes "json_text v t f" and "blanks post" and "\<forall>k. mem k"
  shows "\<exists>p Q. again heap mem jsmn_init (t @ post) (map heap [0..<2]) = Some (Parsed p (Some (f 0 @ Q))) \<and>
    toknext p = length (f 0) \<and> length (f 0) \<le> length (t @ post)"
proof -
  let ?js = "t @ post" and ?k = "length (f 0)"
  obtain n where n: "again heap mem jsmn_init ?js (map heap [0..<2]) =
      Some (outcome (jsmn_parse jsmn_init ?js (Some (map heap [0..<n]))))"
    and ok: "\<not> nomem (jsmn_parse jsmn_init ?js (Some (map heap [0..<n])))"
    using again_result [OF assms(3)] by metis
  let ?X = "map heap [n..<n + ?k]" and ?r = "jsmn_parse jsmn_init ?js (Some (map heap [0..<n]))"
  obtain p where p: "jsmn_parse jsmn_init ?js (Some (map heap [0..<n] @ ?X)) =
      Inr (p, Some (f 0 @ drop ?k (map heap [0..<n] @ ?X)), ?k)"
    using json_text_tokens [OF assms(1,2), of "map heap [0..<n] @ ?X"] by auto
  then have "grown_step ?X ?r = Inr (p, Some (f 0 @ drop ?k (map heap [0..<n] @ ?X)), ?k)"
    using jsmn_parse_grown [OF ok, of ?X] by simp
  then obtain t' where r: "?r = Inr (p, t', ?k)" and g: "grow ?X t' = Some (f 0 @ drop ?k (map heap [0..<n] @ ?X))"
    by (cases ?r) (auto simp del: drop_append map_option_eq_Some)
  from jsmn_parse_Inr [OF r] obtain B where B: "t' = Some B" "jsmn_inv ?js (pos p) p B" "?k = toknext p" by metis
  have "?k \<le> length B" using B by (simp add: jsmn_inv_def)
  moreover have "B @ ?X = f 0 @ drop ?k (map heap [0..<n] @ ?X)" using g B(1) by simp
  ultimately have "B = f 0 @ drop ?k B" by (metis append_eq_append_conv_if append_take_drop_id)
  moreover have "?k \<le> length ?js"
    using jsmn_parse_toknext [of ?js "map heap [0..<n]"] r B(3) by (simp add: end_parser_def)
  ultimately show ?thesis using n r B by (metis (no_types, lifting) outcome_def sum.simps(6) case_prod_conv)
qed

text \<open>C34: jsondump prints what it reads: for every text that spells a value, with any blanks, read in one chunk (\<^verbatim>\<open>BUFSIZ\<close>
  is 8192), jsondump grows its array as far as needed, writes the value in its indented form and exits with 0 at
  the end of the input, without reading a token or a character out of bounds.\<close>

theorem jsondump_prints:
  assumes "json_text v t f" and "blanks post" and "\<forall>k. mem k" and "length (t @ post) \<le> 8192"
  shows "jsondump_main heap mem [t @ post] = Some (0, yaml 0 v)"
proof -
  have t: "t \<noteq> []" using assms(1) by (rule json_text_nonempty)
  have js: "chunk_text (t @ post) = t @ post"
    using json_text_NUL(1) [OF assms(1)] blanks_NUL [OF assms(2)] by (intro chunk_text_id) auto
  obtain p Q where p: "again heap mem jsmn_init (t @ post) (map heap [0..<2]) = Some (Parsed p (Some (f 0 @ Q)))"
      "toknext p = length (f 0)" "length (f 0) \<le> length (t @ post)"
    using json_text_again [OF assms(1-3)] by blast
  have "length (f (length [])) \<le> unat (of_nat (toknext p) :: ull)"
    using p assms(4) by (simp add: unat_of_nat take_bit_nat_eq_self)
  from dump_json(1) [OF assms(1) _ _ this, of "t @ post" post "f 0 @ Q" "[]" Q 0]
  have "dump (t @ post) (f 0 @ Q) 0 (of_nat (toknext p)) 0 = Some (yaml 0 v, length (f 0))" by simp
  then show ?thesis using t js p(1) assms(3) by (simp add: jsondump_main_def)
qed

theorem jsondump_prints_witness:
  \<open>\<exists>out. jsondump_main (\<lambda>_. blank_tok) (\<lambda>_. True) [''{"a": [1,"x"] ,"b":{ }}'' @ [CHR 0x0A]] = Some (0, out) \<and> length out = 31\<close>
proof -
  have b: "blanks [CHR 0x0A]" by (simp add: blank_def)
  show ?thesis using jsondump_prints [OF json_example b, of "\<lambda>_. True" "\<lambda>_. blank_tok"] by (simp add: indentation_def)
qed

declare again.simps [code]

text \<open>jsondump trusts the sizes: the tokenizer accepts an object whose last key has no value, and printing it reads the
  token behind the last one, here behind the array of two tokens.\<close>

lemma jsondump_overread:
  \<open>jsondump_main (\<lambda>_. blank_tok) (\<lambda>_. True) [''{"a"}''] = None\<close>
  by code_simp

text \<open>A chunk that ends inside a number ends the number: \<^verbatim>\<open>[12]\<close> in two chunks is printed as a list of two.\<close>

lemma jsondump_split_number:
  "jsondump_main (\<lambda>_. blank_tok) (\<lambda>_. True) [''[1'', ''2]''] =
     Some (0, CHR 0x0A # ''   - 1'' @ CHR 0x0A # ''   - 2'' @ [CHR 0x0A]) \<and>
   jsondump_main (\<lambda>_. blank_tok) (\<lambda>_. True) [''[12]''] = Some (0, CHR 0x0A # ''   - 12'' @ [CHR 0x0A])"
  by (rule conjI; code_simp)

section \<open>simple.c\<close>

definition JSON_STRING :: string where
  \<open>JSON_STRING = ''{"user": "johndoe", "admin": false, "uid": 1000,'' @ CHR 0x0A # ''  "groups": ["users", "wheel", "audio", "video"]}''\<close>

definition jsoneq :: "string \<Rightarrow> jsmntok_t \<Rightarrow> string \<Rightarrow> int" where
  "jsoneq json tok s =
     (if tok_type tok = JSMN_STRING \<and> int (length s) = tok_end tok - tok_start tok \<and>
         strncmp_eq (drop (nat (tok_start tok)) json) s (nat (tok_end tok - tok_start tok))
      then 0 else -1)"

definition t_at :: "jsmntok_t list \<Rightarrow> nat \<Rightarrow> jsmntok_t option" where
  "t_at t i = (if i < length t then Some (t ! i) else None)"

fun print_group :: "string \<Rightarrow> jsmntok_t list \<Rightarrow> nat \<Rightarrow> nat \<Rightarrow> string option" where
  \<comment> \<open>the loop over the items of the array, \<open>k\<close> from the token at \<open>i\<close> on\<close>
  "print_group js t i 0 = Some []"
| "print_group js t i (Suc k) = do {
     g \<leftarrow> t_at t i;
     s \<leftarrow> tok_print js g;
     rest \<leftarrow> print_group js t (i + 1) k;
     Some (''  * '' @ s @ CHR 0x0A # rest) }"

definition print_member :: "string \<Rightarrow> jsmntok_t list \<Rightarrow> nat \<Rightarrow> string \<Rightarrow> (string \<times> nat) option" where
  \<comment> \<open>a label and the next token, which is then skipped\<close>
  "print_member js t i label = do {
     v \<leftarrow> t_at t (i + 1);
     s \<leftarrow> tok_print js v;
     Some (label @ s @ [CHR 0x0A], i + 2) }"

definition simple_item :: "string \<Rightarrow> jsmntok_t list \<Rightarrow> nat \<Rightarrow> (string \<times> nat) option" where
  \<comment> \<open>the loop body: what is printed, and the next \<open>i\<close>, after \<open>i++\<close>\<close>
  "simple_item js t i = do {
     tok \<leftarrow> t_at t i;
     if jsoneq js tok ''user'' = 0 then print_member js t i ''- User: ''
     else if jsoneq js tok ''admin'' = 0 then print_member js t i ''- Admin: ''
     else if jsoneq js tok ''uid'' = 0 then print_member js t i ''- UID: ''
     else if jsoneq js tok ''groups'' = 0 then do {
       v \<leftarrow> t_at t (i + 1);
       if tok_type v \<noteq> JSMN_ARRAY then Some (''- Groups:'' @ [CHR 0x0A], i + 1)
       else do {
         gs \<leftarrow> print_group js t (i + 2) (tok_size v);
         Some (''- Groups:'' @ CHR 0x0A # gs, i + tok_size v + 2) } }
     else do {
       s \<leftarrow> tok_print js tok;
       Some (''Unexpected key: '' @ s @ [CHR 0x0A], i + 1) } }"

lemma simple_item_progress: "simple_item js t i = Some (s, j) \<Longrightarrow> i < j"
  by (auto simp: simple_item_def print_member_def bind_eq_Some_conv split: if_splits)

function simple_loop :: "string \<Rightarrow> jsmntok_t list \<Rightarrow> nat \<Rightarrow> nat \<Rightarrow> string option" where
  "simple_loop js t r i =
     (if i < r
      then (case simple_item js t i of
              None \<Rightarrow> None
            | Some (s, j) \<Rightarrow> map_option (\<lambda>rest. s @ rest) (simple_loop js t r j))
      else Some [])"
  by pat_completeness auto
termination
  by (relation "measure (\<lambda>(js, t, r, i). r - i)") (auto dest: simple_item_progress)

definition simple_main :: "string \<Rightarrow> jsmntok_t list \<Rightarrow> (int \<times> string) option" where
  \<comment> \<open>for any text; \<open>mem\<close> is what the local array of 128 tokens holds on entry\<close>
  "simple_main js mem =
     (case jsmn_parse jsmn_init js (Some mem) of
        Inl (OOB, p, t) \<Rightarrow> None
      | Inl (e, p, t) \<Rightarrow>
          Some (1, ''Failed to parse JSON: '' @
            (case e of JSMN_ERROR_NOMEM \<Rightarrow> ''-1'' | JSMN_ERROR_INVAL \<Rightarrow> ''-2'' | _ \<Rightarrow> ''-3'') @ [CHR 0x0A])
      | Inr (p, t, r) \<Rightarrow>
          (case t of None \<Rightarrow> None
           | Some t \<Rightarrow>
               if r < 1 \<or> tok_type (t ! 0) \<noteq> JSMN_OBJECT then Some (1, ''Object expected'' @ [CHR 0x0A])
               else map_option (\<lambda>out. (0, out)) (simple_loop js t r 1)))"

lemma simple_output:
  "simple_main JSON_STRING (replicate 128 blank_tok) = Some (0,
     ''- User: johndoe'' @ CHR 0x0A # ''- Admin: false'' @ CHR 0x0A # ''- UID: 1000'' @ CHR 0x0A #
     ''- Groups:'' @ CHR 0x0A # ''  * users'' @ CHR 0x0A # ''  * wheel'' @ CHR 0x0A # ''  * audio'' @ CHR 0x0A #
     ''  * video'' @ [CHR 0x0A])"
  by code_simp

end
