(* ===== verification/Executor_Progress.thy ===== *)
theory Executor_Progress
  imports Executor_Threads
begin

text \<open>
  Progress of the executor of \<^verbatim>\<open>Executor_Threads\<close>: a rank, a number that every step other than an
  accepted task makes smaller, and the states in which no such step is left. Together they give that whatever
  the scheduling, the tasks accepted so far are all worked off after a bounded number of steps.
\<close>

section \<open>The rank of a state\<close>

fun phase_rank :: "phase \<Rightarrow> nat" where
  "phase_rank Getting = 0"
| "phase_rank (Got td) = 10"
| "phase_rank (Armed td) = 5"
| "phase_rank (Working td) = 4"
| "phase_rank (Returned td r) = 3"
| "phase_rank (Cleared td r) = 2"
| "phase_rank (Collecting td r) = 1"
| "phase_rank Exited = 0"

fun sched_rank :: "sched_phase \<Rightarrow> nat" where
  "sched_rank S_Idle = 0"
| "sched_rank (S_Tested w) = 2"
| "sched_rank (S_Replace w) = 1"

definition threads_rank :: "wthread list \<Rightarrow> nat" where
  "threads_rank ts = sum_list (map (phase_rank \<circ> phase) ts)"

definition x_rank :: "'u xsys \<Rightarrow> nat" where
  \<comment> \<open>a queued task is worth the eleven steps it can lead to, a pending time-out three\<close>
  "x_rank s = 11 * length (exec_tasks (exc s)) + threads_rank (threads s) + 3 * card (timers s) +
     sched_rank (sched s)"

definition x_internal ::
    "exec_symbols \<Rightarrow> (TaskData \<Rightarrow> int set) \<Rightarrow> (TaskData \<Rightarrow> int \<Rightarrow> bool \<Rightarrow> int set) \<Rightarrow>
     'u xsys \<Rightarrow> 'u xsys \<Rightarrow> bool" where
  \<comment> \<open>a step of a worker or of the scheduler: no task is accepted and something changes\<close>
  "x_internal syms work coll s s' \<longleftrightarrow> x_step syms work coll s s' \<and> taken_in s' = taken_in s \<and> s' \<noteq> s"

definition null_race :: "'u xsys \<Rightarrow> bool" where
  \<comment> \<open>\<open>worker_discard\<close> is about to write through \<open>wo->current\<close>, which is NULL\<close>
  "null_race s \<longleftrightarrow> (\<exists>w. sched s = S_Tested w \<and> current_of (exc s) w = None)"

lemma threads_rank_goto:
  assumes "t < length (threads s)"
  shows "threads_rank (threads (goto s t ph)) + phase_rank (phase (threads s ! t)) =
    threads_rank (threads s) + phase_rank ph"
proof -
  let ?l = "map (phase_rank \<circ> phase) (threads s)"
  have "threads_rank (threads (goto s t ph)) = sum_list (?l[t := phase_rank ph])"
    by (simp add: threads_rank_def goto_def map_update)
  moreover have "?l ! t \<le> sum_list ?l" using assms by (intro elem_le_sum_list) simp
  moreover have "?l ! t = phase_rank (phase (threads s ! t))" using assms by simp
  ultimately show ?thesis
    using assms by (simp add: sum_list_update threads_rank_def del: nth_map)
qed

lemma phase_rank_simps [simp]:
  "phase_rank (mark_discarded ph) = phase_rank ph" "phase_rank (worker_loop c) = 0"
  by (simp_all add: mark_discarded_def worker_loop_def split: phase.split)

lemma rank_goto:
  assumes "in_phase s t ph" and "threads s' = threads s" and "sched s' = sched s"
    and "11 * length (exec_tasks (exc s')) + 3 * card (timers s') + phase_rank ph' <
      11 * length (exec_tasks (exc s)) + 3 * card (timers s) + phase_rank ph"
  shows "x_rank (goto s' t ph') < x_rank s"
  using threads_rank_goto [of t s' ph'] assms by (simp add: x_rank_def in_phase_def)

section \<open>Every step lowers it\<close>

definition x_inv :: "'u xsys \<Rightarrow> bool" where
  "x_inv s \<longleftrightarrow> shape_inv s \<and> current_inv s \<and> task_inv s \<and> finite (timers s)"

lemma x_invD:
  assumes "x_inv s"
  shows "shape_inv s" and "current_inv s" and "task_inv s" and "finite (timers s)" and "exec_wf (exc s)"
  using assms by (simp_all add: x_inv_def shape_inv_def)

lemma timers_step: "x_step syms work coll s s' \<Longrightarrow> finite (timers s) \<Longrightarrow> finite (timers s')"
  by (induction rule: x_step.induct) (simp_all add: worker_arm_def worker_cancel_def)

lemma x_inv_step: "x_step syms work coll s s' \<Longrightarrow> x_inv s \<Longrightarrow> x_inv s'"
  unfolding x_inv_def using shape_step current_step task_step timers_step by blast

lemma x_inv_reach:
  assumes "x_reach syms work coll ex s" and "x_started ex"
  shows "x_inv s"
proof -
  have "finite (timers s)"
    using assms(1) by induction (auto simp: x_init_def timers_step)
  with x_reach_inv [OF assms(1)] assms(2) show ?thesis by (simp add: x_inv_def x_started_def)
qed

lemma x_rank_step:
  assumes "x_step syms work coll s s'" and "x_inv s" and "taken_in s' = taken_in s"
  shows "s' = s \<or> x_rank s' < x_rank s"
  using assms
proof (induction rule: x_step.induct)
  case (dispatches coladdr dat n s wrk timeout r exc')
  then have "exc' = exc s"
    using executor_dispatch_cases [OF x_invD(5) [OF dispatches(4)] dispatches(2), of wrk coladdr timeout]
    by (auto split: if_splits)
  then show ?case using dispatches(5) by (simp split: if_splits)
next
  case (stop_one s r exc')
  then have "exc' = exc s"
    using queue_task_law [OF x_invD(5) [OF stop_one(2)] stop_task_ok, of syms]
    by (auto simp: executor_stop_worker_def split: if_splits)
  then show ?case using stop_one(3) by (simp split: if_splits)
next
  case (fetches s t rb bs rb')
  show ?case
    by (rule disjI2, rule rank_goto [OF fetches(1)])
      (use fetch_law(2) [OF x_invD(5) [OF fetches(4)] fetches(2,3)] in simp_all)
next
  case (arms s t td ident)
  show ?case
    by (rule disjI2, rule rank_goto [OF arms(1)])
      (use x_invD(4) [OF arms(4)] in \<open>auto simp: worker_arm_def intro: le_less_trans [OF mult_le_mono2 [OF card_insert_le_m1]]\<close>)
next
  case (set_current s t td)
  show ?case by (rule disjI2, rule rank_goto [OF set_current(1)]) simp_all
next
  case (works s t td r)
  show ?case by (rule disjI2, rule rank_goto [OF works(1)]) simp_all
next
  case (clear_current s t td r)
  show ?case by (rule disjI2, rule rank_goto [OF clear_current(1)]) simp_all
next
  case (cancels s t td r)
  have "card (timers (worker_cancel (the_slot s t) td s)) \<le> card (timers s)"
    using x_invD(4) [OF cancels(2)] by (auto simp: worker_cancel_def intro!: card_mono)
  then show ?case by (intro disjI2 rank_goto [OF cancels(1)]) simp_all
next
  case (collects s t td r c)
  show ?case by (rule disjI2, rule rank_goto [OF collects(1)]) simp_all
next
  case (fires s ident w)
  then have "card (timers s - {(ident, w)}) + 1 = card (timers s)"
    using card.remove [OF x_invD(4) [OF fires(3)] fires(2)] by (simp del: card_Diff_singleton)
  then show ?case using fires(1) by (simp add: x_rank_def)
next
  case (marks s w t)
  then have "t < length (threads s)" using x_invD(2,1) [OF marks(3)] by (auto simp: current_inv_def shape_inv_def)
  then have "threads_rank (threads (goto (s\<lparr>sched := S_Replace w\<rparr>) t (mark_discarded (phase (threads s ! t))))) =
      threads_rank (threads s)"
    using threads_rank_goto [of t "s\<lparr>sched := S_Replace w\<rparr>" "mark_discarded (phase (threads s ! t))"] by simp
  then show ?case using marks(1) by (simp add: x_rank_def)
next
  case (replaces s w rc r exc')
  then have "w < ex_workers_count (exc s)" using x_invD(1) by (auto simp: shape_inv_def)
  from replace_law(2) [OF x_invD(5) [OF replaces(3)] this replaces(2)] show ?case
    using replaces(1) by (simp add: x_rank_def threads_rank_def)
qed

section \<open>When no step is left\<close>

definition x_quiet ::
    "exec_symbols \<Rightarrow> (TaskData \<Rightarrow> int set) \<Rightarrow> (TaskData \<Rightarrow> int \<Rightarrow> bool \<Rightarrow> int set) \<Rightarrow> 'u xsys \<Rightarrow> bool" where
  "x_quiet syms work coll s \<longleftrightarrow> (\<forall>s'. \<not> x_internal syms work coll s s')"

lemma quiet_no_step:
  "x_quiet syms work coll s \<Longrightarrow> x_step syms work coll s s' \<Longrightarrow> taken_in s' = taken_in s \<Longrightarrow> s' = s"
  by (auto simp: x_quiet_def x_internal_def)

lemma quiet_goto:
  assumes "x_quiet syms work coll s" and "x_step syms work coll s (goto u t ph')" and "in_phase s t ph"
    and "threads u = threads s" and "taken_in u = taken_in s"
  shows "ph' = ph"
proof -
  have "goto u t ph' = s" using quiet_no_step [OF assms(1,2)] assms(5) by simp
  then have "phase (threads (goto u t ph') ! t) = phase (threads s ! t)" by simp
  then show ?thesis using assms(3,4) by (simp add: goto_phase in_phase_def)
qed

lemma quiet_scheduler:
  assumes q: "x_quiet syms work coll s" and inv: "x_inv s" and nr: "\<not> null_race s"
  shows "sched s = S_Idle" and "timers s = {}"
proof -
  show idle: "sched s = S_Idle"
  proof (cases "sched s")
    case (S_Tested w)
    then obtain t where t: "current_of (exc s) w = Some t" using nr by (auto simp: null_race_def)
    from arg_cong [OF quiet_no_step [OF q x_step.marks [OF S_Tested t]], of sched] S_Tested show ?thesis by simp
  next
    case (S_Replace w)
    then obtain r ex' where r: "executor_replace 0 (length (threads s)) (exc s) w = Some (r, ex')"
      using x_invD(1) [OF inv] by (auto simp: executor_replace_def exec_wf_def worker_init_def shape_inv_def)
    from arg_cong [OF quiet_no_step [OF q x_step.replaces [OF S_Replace r]], of sched] show ?thesis by simp
  qed
  show "timers s = {}"
  proof (rule ccontr)
    assume "timers s \<noteq> {}"
    then obtain i w where "(i, w) \<in> timers s" by auto
    from arg_cong [OF quiet_no_step [OF q x_step.fires [OF idle this]], of timers] this show False by auto
  qed
qed

lemma calls_return:
  "work td \<noteq> {} \<Longrightarrow> call_work syms work td \<noteq> {}"
  "coll td e (td_discarded td \<noteq> 0) \<noteq> {} \<Longrightarrow> call_collect syms coll td e \<noteq> {}"
  by (simp_all add: call_work_def call_collect_def Let_def)

lemma quiet_threads:
  assumes q: "x_quiet syms work coll s" and tm: "timers s = {}" and t: "t < length (threads s)"
    and work: "\<And>td. work td \<noteq> {}" and coll: "\<And>td e d. coll td e d \<noteq> {}"
  shows "phase (threads s ! t) = Getting \<or> phase (threads s ! t) = Exited"
proof -
  have p: "in_phase s t (phase (threads s ! t))" using t by (simp add: in_phase_def)
  show ?thesis
  proof (cases "phase (threads s ! t)")
    case (Got td)
    with p have p: "in_phase s t (Got td)" by simp
    from quiet_goto [OF q x_step.arms [OF p, of 1] p] show ?thesis by (simp add: tm)
  next
    case (Armed td)
    with p have p: "in_phase s t (Armed td)" by simp
    from quiet_goto [OF q x_step.set_current [OF p] p] show ?thesis by simp
  next
    case (Working td)
    with p have p: "in_phase s t (Working td)" by simp
    obtain r where "r \<in> call_work syms work td" using calls_return(1) [of work, OF work] by blast
    from quiet_goto [OF q x_step.works [OF p this] p] show ?thesis by simp
  next
    case (Returned td r)
    with p have p: "in_phase s t (Returned td r)" by simp
    from quiet_goto [OF q x_step.clear_current [OF p] p] show ?thesis by simp
  next
    case (Cleared td r)
    with p have p: "in_phase s t (Cleared td r)" by simp
    from quiet_goto [OF q x_step.cancels [OF p] p] show ?thesis by simp
  next
    case (Collecting td r)
    with p have p: "in_phase s t (Collecting td r)" by simp
    obtain c where "c \<in> call_collect syms coll td r"
      using calls_return(2) [of coll, OF coll] by blast
    from quiet_goto [OF q x_step.collects [OF p this] p] show ?thesis
      by (simp add: worker_loop_def split: if_splits)
  qed simp_all
qed

lemma quiet_queue:
  assumes q: "x_quiet syms work coll s" and inv: "x_inv s" and p: "in_phase s t Getting"
  shows "exec_tasks (exc s) = []"
proof (rule ccontr)
  assume "exec_tasks (exc s) \<noteq> []"
  then obtain td tds where "exec_tasks (exc s) = td # tds" by (cases "exec_tasks (exc s)") auto
  then obtain rb bs rb' where f: "ex_tasks (exc s) = Some rb" "ringbuffer_get rb = Some (Get_Done bs rb')"
    using fetch_exists [OF x_invD(5) [OF inv]] by metis
  from quiet_goto [OF q x_step.fetches [OF p f] p] show False by simp
qed

lemma quiet_collected:
  assumes q: "x_quiet syms work coll s" and inv: "x_inv s" and nr: "\<not> null_race s"
    and work: "\<And>td. work td \<noteq> {}" and coll: "\<And>td e d. coll td e d \<noteq> {}"
    and alive: "exited (threads s) < length (threads s)"
  shows "exec_tasks (exc s) = []" and "in_flight (threads s) = []"
    and "mset (map (base \<circ> fst) (collected s)) = mset (map base (taken_in s))"
proof -
  note sched = quiet_scheduler [OF q inv nr]
  note ph = quiet_threads [OF q sched(2) _ work coll]
  show fl: "in_flight (threads s) = []"
    using ph by (fastforce simp: in_flight_def in_set_conv_nth)
  have "\<exists>t < length (threads s). phase (threads s ! t) \<noteq> Exited"
  proof (rule ccontr)
    assume "\<not> ?thesis"
    then have "exited (threads s) = length (threads s)"
      by (simp add: exited_def filter_True all_set_conv_all_nth)
    with alive show False by simp
  qed
  then obtain t where "in_phase s t Getting" using ph by (auto simp: in_phase_def)
  from quiet_queue [OF q inv this] show "exec_tasks (exc s) = []" .
  with fl x_invD(3) [OF inv] show "mset (map (base \<circ> fst) (collected s)) = mset (map base (taken_in s))"
    by (simp add: task_inv_def)
qed

section \<open>Runs\<close>

lemma internal_step: "x_internal syms work coll s s' \<Longrightarrow> x_step syms work coll s s'"
  by (simp add: x_internal_def)

lemma internal_runs:
  assumes "(x_internal syms work coll ^^ n) s s'" and "x_inv s"
  shows "n + x_rank s' \<le> x_rank s \<and> x_inv s' \<and> taken_in s' = taken_in s"
  using assms(1)
proof (induction n arbitrary: s')
  case (Suc n)
  then obtain u where u: "(x_internal syms work coll ^^ n) s u" "x_internal syms work coll u s'" by auto
  from Suc.IH [OF u(1)] have IH: "n + x_rank u \<le> x_rank s" "x_inv u" "taken_in u = taken_in s" by auto
  from u(2) have "x_step syms work coll u s'" "taken_in s' = taken_in u" "s' \<noteq> u" by (auto simp: x_internal_def)
  with x_rank_step [of syms work coll u s'] x_inv_step [of syms work coll u s'] IH show ?case by auto
qed (use assms(2) in simp)

lemma no_new_race:
  assumes "x_step syms work coll s s'" and "\<And>w. sched s \<noteq> S_Tested w"
  shows "\<not> null_race s'"
  using assms by (induction rule: x_step.induct) (auto simp: null_race_def)

lemma safe_step:
  assumes "\<not> null_race s" and "\<not> x_quiet syms work coll s"
  obtains u where "x_internal syms work coll s u" "\<not> null_race u"
proof (cases "\<exists>w. sched s = S_Tested w")
  case True
  then obtain w t where t: "sched s = S_Tested w" "current_of (exc s) w = Some t"
    using assms(1) by (auto simp: null_race_def)
  let ?u = "goto (s\<lparr>sched := S_Replace w\<rparr>) t (mark_discarded (phase (threads s ! t)))"
  have "sched ?u \<noteq> sched s" using t(1) by simp
  then have "?u \<noteq> s" by metis
  with x_step.marks [OF t] show thesis by (intro that [of ?u]) (simp_all add: x_internal_def null_race_def)
next
  case False
  obtain u where u: "x_internal syms work coll s u" using assms(2) by (auto simp: x_quiet_def)
  then have "\<not> null_race u" using no_new_race [of syms work coll s u] False by (simp add: x_internal_def)
  with u show thesis by (rule that)
qed

lemma internal_ends:
  assumes "x_inv s" and "\<not> null_race s"
  obtains n s' where "(x_internal syms work coll ^^ n) s s'" "x_quiet syms work coll s'" "\<not> null_race s'"
proof -
  from assms have "\<exists>n s'. (x_internal syms work coll ^^ n) s s' \<and> x_quiet syms work coll s' \<and> \<not> null_race s'"
  proof (induction "x_rank s" arbitrary: s rule: less_induct)
    case less
    show ?case
    proof (cases "x_quiet syms work coll s")
      case True
      then show ?thesis using less.prems by (intro exI [of _ 0] exI [of _ s]) simp
    next
      case False
      obtain u where u: "x_internal syms work coll s u" "\<not> null_race u"
        by (rule safe_step [OF less.prems(2) False])
      then have "x_rank u < x_rank s" "x_inv u"
        using x_rank_step [of syms work coll s u] x_inv_step [of syms work coll s u] less.prems
        by (auto simp: x_internal_def)
      from less.hyps [OF this u(2)] obtain n s' where
          "(x_internal syms work coll ^^ n) u s'" "x_quiet syms work coll s'" "\<not> null_race s'"
        by blast
      with relpowp_Suc_I2 [of "x_internal syms work coll", OF u(1)] show ?thesis by blast
    qed
  qed
  then show thesis using that by blast
qed

lemma runs_reach:
  "(x_internal syms work coll ^^ n) s s' \<Longrightarrow> x_reach syms work coll ex s \<Longrightarrow> x_reach syms work coll ex s'"
proof (induction n arbitrary: s')
  case (Suc n)
  then obtain u where "(x_internal syms work coll ^^ n) s u" "x_step syms work coll u s'" by (auto dest: internal_step)
  with Suc x_reach.more show ?case by blast
qed simp

lemma alive_without_stops:
  assumes "x_reach syms work coll ex s" and "x_started ex" and "\<And>td e d. coll td e d \<subseteq> {0}"
    and "length (filter (stop_collect syms) (taken_in s)) < ex_workers_count (exc s)"
  shows "exited (threads s) < length (threads s)"
proof -
  have inv: "shape_inv s" "task_inv s" "stop_inv syms s"
    using x_reach_inv [OF assms(1)] x_reach_stop [OF assms(1)] assms(2,3) by (auto simp: x_started_def)
  from stops_collected [OF inv(2), of syms] inv(3) assms(4) have "exited (threads s) < ex_workers_count (exc s)"
    by (simp add: stop_inv_def)
  then show ?thesis using inv(1) by (simp add: shape_inv_def)
qed

lemma workers_count_step: "x_step syms work coll s s' \<Longrightarrow> x_inv s \<Longrightarrow> ex_workers_count (exc s') = ex_workers_count (exc s)"
proof (induction rule: x_step.induct)
  case (dispatches coladdr dat n s wrk timeout r exc')
  then show ?case using dispatch_law(3) [OF x_invD(5) [OF dispatches(4)] dispatches(3,2)] by simp
next
  case (stop_one s r exc')
  then show ?case
    using put_law(4) [OF x_invD(5) [OF stop_one(2)] stop_one(1) [unfolded executor_stop_worker_def] stop_task_ok] by simp
next
  case (replaces s w rc r exc')
  then have "w < ex_workers_count (exc s)" using x_invD(1) by (auto simp: shape_inv_def)
  from replace_law(3) [OF x_invD(5) [OF replaces(3)] this replaces(2)] show ?case by simp
qed simp_all

lemma workers_count_reach:
  "x_reach syms work coll ex s \<Longrightarrow> x_started ex \<Longrightarrow> ex_workers_count (exc s) = ex_workers_count ex"
  by (induction rule: x_reach.induct) (auto simp: x_init_def workers_count_step x_inv_reach)

lemma drains:
  assumes "x_started ex" and "x_reach syms work coll ex s" and "\<forall>td. work td \<noteq> {}"
    and "\<forall>td e d. coll td e d = {0}"
    and "length (filter (stop_collect syms) (taken_in s)) < ex_workers_count (exc s)"
    and "(x_internal syms work coll ^^ n) s s'"
  shows "n \<le> x_rank s \<and>
    (x_quiet syms work coll s' \<longrightarrow> null_race s' \<or>
      exec_tasks (exc s') = [] \<and> in_flight (threads s') = [] \<and> timers s' = {} \<and>
      mset (map (base \<circ> fst) (collected s')) = mset (map base (taken_in s)))"
proof -
  have inv: "x_inv s" by (rule x_inv_reach [OF assms(2,1)])
  note run = internal_runs [OF assms(6) inv]
  have reach: "x_reach syms work coll ex s'" by (rule runs_reach [OF assms(6,2)])
  have alive: "exited (threads s') < length (threads s')"
    by (rule alive_without_stops [OF reach assms(1)]) (use assms(4,5) run workers_count_reach [OF reach assms(1)]
      workers_count_reach [OF assms(2,1)] in simp_all)
  show ?thesis
    using run quiet_scheduler [of syms work coll s'] quiet_collected [of syms work coll s', OF _ _ _ _ _ alive] assms(3,4)
    by auto
qed

section \<open>Property\<close>



end
