(* ===== verification/Executor_Results.thy ===== *)
theory Executor_Results
  imports Executor_Threads
begin

text \<open>
  What the collect functions are given by the threads of \<^verbatim>\<open>lib/executor.c\<close>: the result that the work
  function of the same task returned, and the mark of \<^verbatim>\<open>worker_discard\<close> as the time-out flag.
\<close>

section \<open>Results of the work functions\<close>

definition worked :: "exec_symbols \<Rightarrow> (TaskData \<Rightarrow> int set) \<Rightarrow> TaskData \<Rightarrow> int \<Rightarrow> bool" where
  \<comment> \<open>a result of the work function on the task, marked or not\<close>
  "worked syms work td r \<longleftrightarrow> (\<exists>d. r \<in> call_work syms work (td\<lparr>td_discarded := d\<rparr>))"

definition phase_worked :: "exec_symbols \<Rightarrow> (TaskData \<Rightarrow> int set) \<Rightarrow> phase \<Rightarrow> bool" where
  "phase_worked syms work ph \<longleftrightarrow> (case ph of
     Returned td r \<Rightarrow> worked syms work td r
   | Cleared td r \<Rightarrow> worked syms work td r
   | Collecting td r \<Rightarrow> worked syms work td r
   | _ \<Rightarrow> True)"

definition result_inv :: "exec_symbols \<Rightarrow> (TaskData \<Rightarrow> int set) \<Rightarrow> 'u xsys \<Rightarrow> bool" where
  "result_inv syms work s \<longleftrightarrow> (\<forall>th \<in> set (threads s). phase_worked syms work (phase th)) \<and>
     (\<forall>(td, r, late) \<in> set (collected s). worked syms work td r \<and> late = (td_discarded td \<noteq> 0))"

lemma phase_worked_simps [simp]:
  "phase_worked syms work Getting" "phase_worked syms work (Got td)" "phase_worked syms work (Armed td)"
  "phase_worked syms work (Working td)" "phase_worked syms work (Returned td r) = worked syms work td r"
  "phase_worked syms work (Cleared td r) = worked syms work td r"
  "phase_worked syms work (Collecting td r) = worked syms work td r" "phase_worked syms work Exited"
  "phase_worked syms work (worker_loop c)"
  by (simp_all add: phase_worked_def worker_loop_def)

lemma worked_mark [simp]: "worked syms work (td\<lparr>td_discarded := d\<rparr>) r = worked syms work td r"
  by (simp add: worked_def)

lemma phase_worked_mark [simp]: "phase_worked syms work (mark_discarded ph) = phase_worked syms work ph"
  by (cases ph) (simp_all add: mark_discarded_def)

lemma workedI: "r \<in> call_work syms work td \<Longrightarrow> worked syms work td r"
  unfolding worked_def by (rule exI [of _ "td_discarded td"]) simp

lemma goto_threads: "set (threads (goto s t ph)) \<subseteq> insert ((threads s ! t)\<lparr>phase := ph\<rparr>) (set (threads s))"
  by (simp add: goto_def set_update_subset_insert)

lemma result_goto:
  assumes "result_inv syms work s" and "phase_worked syms work ph"
    and "threads s' = threads s" and "collected s' = collected s"
  shows "result_inv syms work (goto s' t ph)"
  using assms goto_threads [of s' t ph] by (fastforce simp: result_inv_def)

lemma result_phase: "result_inv syms work s \<Longrightarrow> t < length (threads s) \<Longrightarrow> phase_worked syms work (phase (threads s ! t))"
  by (simp add: result_inv_def)

lemma result_step:
  assumes "x_step syms work coll s s'" and "result_inv syms work s" and "shape_inv s" and "current_inv s"
  shows "result_inv syms work s'"
  using assms
proof (induction rule: x_step.induct)
  case (works s t td r)
  then show ?case by (intro result_goto) (simp_all add: workedI)
next
  case (clear_current s t td r)
  then show ?case using result_phase [of syms work s t] by (intro result_goto) (simp_all add: in_phase_def)
next
  case (cancels s t td r)
  then show ?case using result_phase [of syms work s t] by (intro result_goto) (simp_all add: in_phase_def)
next
  case (collects s t td r c)
  then have "worked syms work td r" using result_phase [of syms work s t] by (simp add: in_phase_def)
  then have "result_inv syms work (s\<lparr>collected := collected s @ [(td, r, td_discarded td \<noteq> 0)]\<rparr>)"
    using collects(3) by (auto simp: result_inv_def)
  then show ?case by (rule result_goto) simp_all
next
  case (marks s w t)
  then have "t < length (threads s)" by (auto simp: current_inv_def shape_inv_def)
  then show ?case using marks(3) result_phase [OF marks(3)] by (intro result_goto) simp_all
next
  case (fires s ident w)
  then show ?case by (simp add: result_inv_def)
next
  case (replaces s w rc r exc')
  then show ?case by (auto simp: result_inv_def)
next
  case (dispatches coladdr dat n s wrk timeout r exc')
  then show ?case by (simp add: result_inv_def)
next
  case (stop_one s r exc')
  then show ?case by (simp add: result_inv_def)
qed (auto intro!: result_goto)

lemma result_reach:
  assumes "x_reach syms work coll ex s" and "x_started ex"
  shows "result_inv syms work s"
  using assms(1)
proof induction
  case start
  then show ?case by (auto simp: result_inv_def x_init_def)
next
  case (more s s')
  have "shape_inv s" "current_inv s" using x_reach_inv [OF more(1)] assms(2) by (simp_all add: x_started_def)
  with more show ?case using result_step by blast
qed

end
