(* ===== verification/Daemon.thy ===== *)
theory Daemon
  imports Vmon Executor_Progress Executor_Results
begin

text \<open>
  The daemon as it runs: the callbacks of the main loop (\<^verbatim>\<open>vmon_io_callback\<close> and \<^verbatim>\<open>poll_libvirt\<close> of
  \<^verbatim>\<open>src/vmon_int.c\<close>) interleaved with the steps of the threads of its executor (\<^verbatim>\<open>lib/executor.c\<close>), which share
  the queue. A callback is one step: of what it touches, the threads see only the queue, under its lock. The list \<open>acc\<close>
  holds the lines that were accepted.
\<close>

section \<open>Steps\<close>

definition text_task :: "('c, 'd) sampler_env \<Rightarrow> VmonConfig \<Rightarrow> jsmntok_t list \<Rightarrow> string \<Rightarrow> TaskData" where
  \<comment> \<open>the task for a line that the parser accepts\<close>
  "text_task env cf mem line = request_task env cf
     (if cf_bulk_sampling cf then bulk_sampling_work_addr env else list_domains_work_addr env)
     (req_zero\<lparr>rq_sr := snd (the (sampler_parse_request (lv_consts env) (uuid_parse env) mem line (length line)))\<rparr>)"

definition queued :: "'u xsys \<Rightarrow> ('c, 'u) VmonDaemon \<Rightarrow> 'u xsys" where
  \<comment> \<open>the executor after a callback of the main loop, with the task it queued\<close>
  "queued s d = s\<lparr>exc := cx_executor (vd_ctx d),
     taken_in := taken_in s @ drop (length (exec_tasks (exc s))) (exec_tasks (cx_executor (vd_ctx d)))\<rparr>"

definition accepted :: "io_read \<Rightarrow> bool \<Rightarrow> string list" where
  "accepted rd ret = (case rd of Read_Normal line \<Rightarrow> if ret then [line] else [] | _ \<Rightarrow> [])"

inductive d_reach ::
    "glib_flags \<Rightarrow> ('c, 'd) sampler_env \<Rightarrow> jsmntok_t list \<Rightarrow> exec_symbols \<Rightarrow> (TaskData \<Rightarrow> int set) \<Rightarrow>
     (TaskData \<Rightarrow> int \<Rightarrow> bool \<Rightarrow> int set) \<Rightarrow> ('c, 'u) VmonDaemon \<Rightarrow>
     ('c, 'u) VmonDaemon \<Rightarrow> 'u xsys \<Rightarrow> string list \<Rightarrow> bool"
  for G env mem syms work coll di where
  begins: "d_reach G env mem syms work coll di di (x_init (cx_executor (vd_ctx di))) []"
| reads: "d_reach G env mem syms work coll di d s acc \<Longrightarrow>
    vmon_io_callback G env buf mem cond rd d = Some (ret, d') \<Longrightarrow>
    d_reach G env mem syms work coll di d' (queued s d') (acc @ accepted rd ret)"
| polls: "d_reach G env mem syms work coll di d s acc \<Longrightarrow>
    poll_libvirt G env buf uuid d = Some (ret, d') \<Longrightarrow>
    d_reach G env mem syms work coll di d' (queued s d') acc"
| threads_run: "d_reach G env mem syms work coll di d s acc \<Longrightarrow> x_step syms work coll s s' \<Longrightarrow>
    d_reach G env mem syms work coll di (d\<lparr>vd_ctx := (vd_ctx d)\<lparr>cx_executor := exc s'\<rparr>\<rparr>) s' acc"

definition d_linked ::
    "('c, 'd) sampler_env \<Rightarrow> jsmntok_t list \<Rightarrow> exec_symbols \<Rightarrow> (TaskData \<Rightarrow> int set) \<Rightarrow>
     (TaskData \<Rightarrow> int \<Rightarrow> bool \<Rightarrow> int set) \<Rightarrow> ('c, 'u) VmonDaemon \<Rightarrow>
     ('c, 'u) VmonDaemon \<Rightarrow> 'u xsys \<Rightarrow> string list \<Rightarrow> bool" where
  \<comment> \<open>the daemon and its threads share the executor, which makes steps of its own only, and knows every accepted line\<close>
  "d_linked env mem syms work coll di d s acc \<longleftrightarrow> cx_executor (vd_ctx d) = exc s \<and>
     cx_conf (vd_ctx d) = cx_conf (vd_ctx di) \<and> x_reach syms work coll (cx_executor (vd_ctx di)) s \<and>
     mset (map (text_task env (cx_conf (vd_ctx di)) mem) acc) \<subseteq># mset (map base (taken_in s))"

lemma vmon_log_ctx: "vmon_log G buf lv m d = Some d' \<Longrightarrow> vd_ctx d' = vd_ctx d \<and> vd_counter d' = vd_counter d"
  by (auto simp: vmon_log_def split: if_splits)

lemma teardown_ctx: "vmon_teardown_log G buf d = Some d' \<Longrightarrow> vd_ctx d' = vd_ctx d"
  by (auto simp: vmon_teardown_log_def split: Option.bind_splits if_splits dest!: vmon_log_ctx)

lemma io_callback_ctx:
  assumes "vmon_io_callback G env buf mem cond rd d = Some (ret, d')"
  obtains (Same) "vd_ctx d' = vd_ctx d" "accepted rd ret = []"
  | (Line) line err where "rd = Read_Normal line" "ret = (err = 0)"
      "sampler_handle_request env (vd_ctx d) mem line (length line) = Some (err, vd_ctx d')"
proof (cases rd)
  case (Read_Normal line)
  with assms Line show thesis
    by (auto simp: vmon_io_callback_def Let_def split: Option.bind_splits if_splits dest!: vmon_log_ctx)
next
  case (Read_Error m)
  with assms Same show thesis
    by (auto simp: vmon_io_callback_def accepted_def split: Option.bind_splits dest!: vmon_log_ctx)
next
  case Read_Eof
  with assms Same show thesis
    by (auto simp: vmon_io_callback_def accepted_def split: Option.bind_splits dest!: vmon_log_ctx teardown_ctx)
next
  case Read_Again
  with assms Same show thesis
    by (auto simp: vmon_io_callback_def accepted_def split: Option.bind_splits dest!: vmon_log_ctx)
qed

lemma poll_ctx:
  assumes "poll_libvirt G env buf uuid d = Some (ret, d')"
  obtains err where "sampler_send_request env (vd_ctx d) (req_zero\<lparr>rq_sr := sr_clear\<lparr>sr_uuid := uuid\<rparr>\<rparr>) = Some (err, vd_ctx d')"
    "ret" "vd_counter d' = (if err = 0 then (vd_counter d + 1) mod 2 ^ 64 else vd_counter d)"
proof -
  obtain err ctx where s: "sampler_send_request env (vd_ctx d) (req_zero\<lparr>rq_sr := sr_clear\<lparr>sr_uuid := uuid\<rparr>\<rparr>) = Some (err, ctx)"
    using assms by (auto simp: poll_libvirt_def split: Option.bind_splits)
  show thesis
  proof (cases "err = 0")
    case True
    with assms s show thesis
      by (auto simp: poll_libvirt_def split: Option.bind_splits dest!: vmon_log_ctx intro!: that)
  next
    case False
    with assms s show thesis
      by (auto simp: poll_libvirt_def split: Option.bind_splits dest!: vmon_log_ctx intro!: that)
  qed
qed

section \<open>A callback is a step of the executor\<close>

lemma dispatch_is_step:
  assumes d: "dispatch_request env (vd_ctx d) work_addr req = Some (err, vd_ctx d')"
    and ex: "cx_executor (vd_ctx d) = exc s" and wf: "exec_wf (exc s)"
    and img: "length (req_image env req) = sizeof_VmonRequest"
    and col: "sampling_collect_addr env \<noteq> StopCollect_addr syms"
  shows "x_step syms work coll s (queued s d')" and "cx_conf (vd_ctx d') = cx_conf (vd_ctx d)"
    and "taken_in (queued s d') = taken_in s @
      (if err = 0 then [request_task env (cx_conf (vd_ctx d)) work_addr req] else [])"
proof -
  let ?task = "request_task env (cx_conf (vd_ctx d)) work_addr req"
  obtain b where b: "executor_dispatch (exc s) work_addr (sampling_collect_addr env) (req_image env req) sizeof_VmonRequest
      (cf_timeout (cx_conf (vd_ctx d))) = Some (err, b)" "vd_ctx d\<lparr>cx_executor := b\<rparr> = vd_ctx d'"
    using d by (auto simp: dispatch_request_def ex)
  from b(1) have e: "executor_dispatch (exc s) work_addr (sampling_collect_addr env) (req_image env req) sizeof_VmonRequest
      (cf_timeout (cx_conf (vd_ctx d))) = Some (err, cx_executor (vd_ctx d'))"
    by (simp flip: b(2))
  have l: "exec_tasks (cx_executor (vd_ctx d')) = exec_tasks (exc s) @ (if err = 0 then [?task] else [])"
    using dispatch_law(4) [OF wf e img] by (simp add: request_task_def)
  then have q: "queued s d' = s\<lparr>exc := cx_executor (vd_ctx d'),
      taken_in := (if err = 0 then taken_in s @ [?task] else taken_in s)\<rparr>"
    by (simp add: queued_def)
  show "x_step syms work coll s (queued s d')"
    unfolding q request_task_def by (rule x_step.dispatches [OF col img e])
  show "cx_conf (vd_ctx d') = cx_conf (vd_ctx d)" by (simp flip: b(2))
  show "taken_in (queued s d') = taken_in s @ (if err = 0 then [?task] else [])" using l by (simp add: queued_def)
qed

lemma request_task_base:
  assumes "length (req_image env req) = sizeof_VmonRequest"
  shows "base (request_task env cf work req) = request_task env cf work req"
  using assms by (simp add: base_def request_task_def dispatch_task_def mem_read_def task_zero_def)

lemma queued_same: "vd_ctx d' = vd_ctx d \<Longrightarrow> cx_executor (vd_ctx d) = exc s \<Longrightarrow> queued s d' = s"
  by (simp add: queued_def)

lemma taken_in_grows: "x_step syms work coll s s' \<Longrightarrow> mset (map base (taken_in s)) \<subseteq># mset (map base (taken_in s'))"
  by (induction rule: x_step.induct) simp_all

lemma linked_queued:
  assumes "d_linked env mem syms work coll di d s acc" and "x_started (cx_executor (vd_ctx di))"
    and "\<forall>r. length (req_image env r) = sizeof_VmonRequest" and "sampling_collect_addr env \<noteq> StopCollect_addr syms"
    and "dispatch_request env (vd_ctx d) work_addr req = Some (err, vd_ctx d')"
    and "map (text_task env (cx_conf (vd_ctx di)) mem) lines =
      (if err = 0 \<and> lines \<noteq> [] then [request_task env (cx_conf (vd_ctx di)) work_addr req] else [])"
  shows "d_linked env mem syms work coll di d' (queued s d') (acc @ lines)"
proof -
  note l = assms(1) [unfolded d_linked_def]
  have "exec_wf (exc s)" using x_inv_reach [of syms work coll _ s] l assms(2) x_invD(5) by blast
  then have st: "x_step syms work coll s (queued s d')" "cx_conf (vd_ctx d') = cx_conf (vd_ctx d)"
      "taken_in (queued s d') = taken_in s @
        (if err = 0 then [request_task env (cx_conf (vd_ctx d)) work_addr req] else [])"
    using dispatch_is_step [OF assms(5) _ _ _ assms(4)] l assms(3) by blast+
  have "mset (map (text_task env (cx_conf (vd_ctx di)) mem) lines) \<subseteq>#
      mset (map base (if err = 0 then [request_task env (cx_conf (vd_ctx d)) work_addr req] else []))"
    using assms(3,6) l by (simp add: request_task_base)
  then show ?thesis
    using l st(2) x_reach.more [OF _ st(1)] unfolding d_linked_def st(3)
    by (simp add: queued_def subset_mset.add_mono)
qed

lemma d_reach_linked:
  assumes "d_reach G env mem syms work coll di d s acc" and "x_started (cx_executor (vd_ctx di))"
    and "\<forall>r. length (req_image env r) = sizeof_VmonRequest" and "sampling_collect_addr env \<noteq> StopCollect_addr syms"
  shows "d_linked env mem syms work coll di d s acc"
  using assms(1)
proof induction
  case begins
  then show ?case by (simp add: d_linked_def x_init_def x_reach.start [unfolded x_init_def])
next
  case (reads d s acc buf cond rd ret d')
  from reads(2) show ?case
  proof (cases rule: io_callback_ctx)
    case Same
    then show ?thesis using reads(3) queued_same [of d' d s] by (simp add: d_linked_def)
  next
    case (Line line err)
    note l = reads(3) [unfolded d_linked_def]
    obtain e sr where p: "sampler_parse_request (lv_consts env) (uuid_parse env) mem line (length line) = Some (e, sr)"
      using Line(3) by (auto simp: sampler_handle_request_def split: option.splits)
    show ?thesis
    proof (cases "e = 0")
      case True
      then have "dispatch_request env (vd_ctx d)
          (if cf_bulk_sampling (cx_conf (vd_ctx di)) then bulk_sampling_work_addr env else list_domains_work_addr env)
          (req_zero\<lparr>rq_sr := sr\<rparr>) = Some (err, vd_ctx d')"
        using Line(3) p l by (simp add: sampler_handle_request_def sampler_send_request_def)
      from linked_queued [OF reads(3) assms(2-4) this] show ?thesis
        using p True Line by (simp add: accepted_def text_task_def)
    next
      case False
      then have "err \<noteq> 0" "vd_ctx d' = vd_ctx d" using Line(3) p by (auto simp: sampler_handle_request_def)
      then show ?thesis using reads(3) Line queued_same [of d' d s] by (simp add: d_linked_def accepted_def)
    qed
  qed
next
  case (polls d s acc buf uuid ret d')
  obtain err where "sampler_send_request env (vd_ctx d) (req_zero\<lparr>rq_sr := sr_clear\<lparr>sr_uuid := uuid\<rparr>\<rparr>) = Some (err, vd_ctx d')"
    by (rule poll_ctx [OF polls(2)])
  from linked_queued [OF polls(3) assms(2-4) this [unfolded sampler_send_request_def Let_def], where lines = "[]"]
  show ?case by simp
next
  case (threads_run d s acc s')
  then show ?case
    using taken_in_grows [OF threads_run(2)] x_reach.more
    by (auto simp: d_linked_def intro: subset_mset.trans)
qed

lemma sampling_collect_zero:
  \<comment> \<open>the threads go on after every task of the sampler\<close>
  "sampling_collect env ctx req error timeout = Some (r, ctx') \<Longrightarrow> r = 0"
  by (auto simp: sampling_collect_def collect_success_def split: if_splits)

text \<open>A tick of the polling timer never removes the timer, queues at most one task, of the configured mode and
  for all statistics, and counts only the ticks that queued one.\<close>

lemma poll_libvirt_result:
  assumes "\<not> vd_log_closed d" and "exec_wf (cx_executor (vd_ctx d))"
    and "\<forall>r. length (req_image env r) = sizeof_VmonRequest"
  shows "\<exists>exc d'. poll_libvirt G env buf uuid d = Some (True, d') \<and> vd_ctx d' = (vd_ctx d)\<lparr>cx_executor := exc\<rparr> \<and>
    (if ex_running (cx_executor (vd_ctx d)) \<and> 0 < exec_room (cx_executor (vd_ctx d))
     then vd_counter d' = (vd_counter d + 1) mod 2 ^ 64 \<and>
       exec_tasks exc = exec_tasks (cx_executor (vd_ctx d)) @ [request_task env (cx_conf (vd_ctx d))
         (if cf_bulk_sampling (cx_conf (vd_ctx d)) then bulk_sampling_work_addr env else list_domains_work_addr env)
         (req_zero\<lparr>rq_sr := sr_clear\<lparr>sr_uuid := uuid\<rparr>\<rparr>)]
     else vd_counter d' = vd_counter d \<and> exc = cx_executor (vd_ctx d))"
proof -
  let ?req = "req_zero\<lparr>rq_sr := sr_clear\<lparr>sr_uuid := uuid\<rparr>\<rparr>"
  let ?work = "if cf_bulk_sampling (cx_conf (vd_ctx d)) then bulk_sampling_work_addr env else list_domains_work_addr env"
  obtain exc where exc: "dispatch_request env (vd_ctx d) ?work ?req =
      Some (if ex_running (cx_executor (vd_ctx d)) \<and> 0 < exec_room (cx_executor (vd_ctx d)) then 0 else -1,
            (vd_ctx d)\<lparr>cx_executor := exc\<rparr>)"
      "if ex_running (cx_executor (vd_ctx d)) \<and> 0 < exec_room (cx_executor (vd_ctx d))
       then exec_tasks exc = exec_tasks (cx_executor (vd_ctx d)) @ [request_task env (cx_conf (vd_ctx d)) ?work ?req]
       else exc = cx_executor (vd_ctx d)"
    using dispatch_request_law [OF assms(2), of env ?req ?work] assms(3) by (auto split: if_splits)
  show ?thesis
  proof (cases "ex_running (cx_executor (vd_ctx d)) \<and> 0 < exec_room (cx_executor (vd_ctx d))")
    case True
    with exc assms(1) show ?thesis
      by (cases "cf_bulk_sampling (cx_conf (vd_ctx d))"; intro exI [of _ exc])
        (simp_all add: poll_libvirt_def sampler_send_request_def Let_def)
  next
    case False
    with exc assms(1) show ?thesis
      by (cases "cf_bulk_sampling (cx_conf (vd_ctx d))"; intro exI [of _ exc])
        (simp_all add: poll_libvirt_def sampler_send_request_def Let_def)
  qed
qed

section \<open>What the tasks write\<close>

definition task_request :: "(byte list \<Rightarrow> 'd VmonRequest) \<Rightarrow> TaskData \<Rightarrow> 'd VmonRequest" where
  \<comment> \<open>the request in the memory of a task; the first argument reads such memory\<close>
  "task_request rd td = rd (take sizeof_VmonRequest (td_data td))"

definition sampled_request ::
    "('c, 'd) sampler_env \<Rightarrow> ('c, 'u) VmonContext \<Rightarrow> (byte list \<Rightarrow> 'd VmonRequest) \<Rightarrow> TaskData \<Rightarrow> 'd VmonRequest" where
  \<comment> \<open>the request as the work function of the task leaves it\<close>
  "sampled_request env ctx rd td =
     (if td_work td = bulk_sampling_work_addr env then snd (bulk_sampling_work env ctx (task_request rd td))
      else if td_work td = sample_domain_work_addr env then snd (sample_domain_work env ctx (task_request rd td))
      else task_request rd td)"

definition task_output ::
    "('c, 'd) sampler_env \<Rightarrow> ('c, 'u) VmonContext \<Rightarrow> (byte list \<Rightarrow> 'd VmonRequest) \<Rightarrow> TaskData \<times> int \<times> bool \<Rightarrow>
     string list" where
  \<comment> \<open>the buffers that the call of the collect function writes\<close>
  "task_output env ctx rd = (\<lambda>(td, r, late).
     if td_collect td = sampling_collect_addr env
     then (case sampling_collect env (ctx\<lparr>cx_out := []\<rparr>) (sampled_request env ctx rd td) r late of
             None \<Rightarrow> [] | Some (_, ctx') \<Rightarrow> cx_out ctx')
     else [])"

definition daemon_output ::
    "('c, 'd) sampler_env \<Rightarrow> ('c, 'u) VmonContext \<Rightarrow> (byte list \<Rightarrow> 'd VmonRequest) \<Rightarrow> (TaskData \<times> int \<times> bool) list \<Rightarrow>
     string list" where
  \<comment> \<open>the output, each buffer with one call of \<open>write\<close>, in the order of the collect functions\<close>
  "daemon_output env ctx rd cs = concat (map (task_output env ctx rd) cs)"

lemma submultiset_choice:
  assumes "mset (map f xs) \<subseteq># mset (map g ys)"
  obtains zs where "mset zs \<subseteq># mset ys" "list_all2 (\<lambda>x z. g z = f x) xs zs"
proof -
  from assms have "\<exists>zs. mset zs \<subseteq># mset ys \<and> list_all2 (\<lambda>x z. g z = f x) xs zs"
  proof (induction xs arbitrary: ys)
    case (Cons x xs)
    then have "f x \<in> set (map g ys)" by (auto dest: mset_subset_eqD)
    then obtain y us vs where ys: "ys = us @ y # vs" "g y = f x" by (auto dest: split_list)
    then have "mset (map f xs) \<subseteq># mset (map g (us @ vs))" using Cons.prems by simp
    from Cons.IH [OF this] obtain zs where "mset zs \<subseteq># mset (us @ vs)" "list_all2 (\<lambda>x z. g z = f x) xs zs" by blast
    then show ?case using ys by (intro exI [of _ "y # zs"]) simp
  qed simp
  then show thesis using that by blast
qed

lemma concat_submultiset:
  assumes "mset zs \<subseteq># mset ys"
  shows "mset (concat (map f zs)) \<subseteq># mset (concat (map f ys))"
proof -
  have c: "mset (concat (map f xs)) = \<Sum>\<^sub># (image_mset (mset \<circ> f) (mset xs))" for xs
    by (induction xs) simp_all
  obtain M where "mset ys = mset zs + M" using assms by (auto simp: mset_subset_eq_exists_conv)
  then show ?thesis by (simp add: c)
qed

lemma list_all2_submultiset:
  assumes "mset xs \<subseteq># A + B"
    and "\<And>ys. mset ys \<subseteq># A \<Longrightarrow> set ys \<subseteq> set xs \<Longrightarrow> \<exists>outss. mset (concat outss) \<subseteq># C \<and> list_all2 P ys outss"
    and "\<And>ys. mset ys \<subseteq># B \<Longrightarrow> set ys \<subseteq> set xs \<Longrightarrow> \<exists>outss. mset (concat outss) \<subseteq># D \<and> list_all2 P ys outss"
  shows "\<exists>outss. mset (concat outss) \<subseteq># C + D \<and> list_all2 P xs outss"
proof -
  obtain ys where ys: "mset ys = mset xs \<inter># A" using ex_mset by blast
  obtain zs where zs: "mset zs = mset xs - A" using ex_mset by blast
  have "mset ys \<subseteq># A" "mset zs \<subseteq># B" using assms(1) by (simp_all add: ys zs subset_eq_diff_conv ac_simps)
  moreover have "set ys \<subseteq> set xs" "set zs \<subseteq> set xs"
    using arg_cong [OF ys, of set_mset] arg_cong [OF zs, of set_mset] by (auto dest: in_diffD)
  ultimately obtain o1 o2 where o: "mset (concat o1) \<subseteq># C" "list_all2 P ys o1" "mset (concat o2) \<subseteq># D" "list_all2 P zs o2"
    using assms(2,3) by meson
  have "mset (ys @ zs) = mset xs" by (simp add: ys zs multiset_eq_iff min_def)
  then have "mset (map id xs) \<subseteq># mset (map fst (zip (ys @ zs) (o1 @ o2)))"
    using o(2,4) by (simp add: list_all2_lengthD map_fst_zip_take flip: mset_map)
  then obtain ps where ps: "mset ps \<subseteq># mset (zip (ys @ zs) (o1 @ o2))" "list_all2 (\<lambda>x p. fst p = id x) xs ps"
    by (rule submultiset_choice)
  have "set ps \<subseteq> set (zip (ys @ zs) (o1 @ o2))" using ps(1) by (metis set_mset_mono set_mset_mset)
  moreover have "list_all2 P (ys @ zs) (o1 @ o2)" using o(2,4) by (rule list_all2_appendI)
  ultimately have "P (fst p) (snd p)" if "p \<in> set ps" for p
    using that by (fastforce simp: list_all2_iff)
  then have "P (fst (ps ! i)) (snd (ps ! i))" if "i < length ps" for i using that by simp
  then have "list_all2 P xs (map snd ps)" using ps(2) by (simp add: list_all2_conv_all_nth)
  moreover have "mset (concat (map snd ps)) \<subseteq># mset (concat (map snd (zip (ys @ zs) (o1 @ o2))))"
    by (rule concat_submultiset [OF ps(1)])
  then have "mset (concat (map snd ps)) \<subseteq># mset (concat o1) + mset (concat o2)"
    using o(2,4) by (simp add: list_all2_lengthD map_snd_zip_take)
  with o(1,3) have "mset (concat (map snd ps)) \<subseteq># C + D" by (meson subset_mset.add_mono subset_mset.order_trans)
  ultimately show ?thesis by blast
qed

lemma regroup:
  assumes "list_all2 P (concat xss) outs"
  shows "\<exists>outss. concat outss = outs \<and> list_all2 (list_all2 P) xss outss"
  using assms
proof (induction xss arbitrary: outs)
  case (Cons xs xss)
  then obtain us vs where "outs = us @ vs" "list_all2 P xs us" "list_all2 P (concat xss) vs"
    by (auto simp: list_all2_append1)
  with Cons.IH show ?case by (metis concat.simps(2) list_all2_Cons)
qed simp

lemma sum_submultiset:
  fixes f :: "'a \<Rightarrow> 'b multiset"
  assumes "mset zs \<subseteq># mset ys"
  shows "sum_list (map f zs) \<subseteq># sum_list (map f ys)"
proof -
  obtain M where M: "mset ys = mset zs + M" using assms by (auto simp: mset_subset_eq_exists_conv)
  have "sum_list (map f ys) = \<Sum>\<^sub># (image_mset f (mset ys))" "sum_list (map f zs) = \<Sum>\<^sub># (image_mset f (mset zs))"
    by (metis mset_map sum_mset_sum_list)+
  then show ?thesis by (simp add: M)
qed

lemma output_of_collected:
  assumes "mset (map f xs) \<subseteq># mset (map (base \<circ> fst) cs)"
    and "\<And>x td r late. x \<in> set xs \<Longrightarrow> (td, r, late) \<in> set cs \<Longrightarrow> base td = f x \<Longrightarrow>
      P x (task_output env ctx rd (td, r, late))"
  shows "\<exists>outss. mset (concat outss) \<subseteq># mset (daemon_output env ctx rd cs) \<and> list_all2 P xs outss"
proof -
  obtain zs where zs: "mset zs \<subseteq># mset cs" "list_all2 (\<lambda>x z. (base \<circ> fst) z = f x) xs zs"
    by (rule submultiset_choice [OF assms(1)])
  have "set zs \<subseteq> set cs" using zs(1) by (metis set_mset_mono set_mset_mset)
  have "P (xs ! i) (task_output env ctx rd (zs ! i))" if i: "i < length xs" for i
  proof -
    obtain td r late where z: "zs ! i = (td, r, late)" by (cases "zs ! i")
    have "i < length zs" using i zs(2) by (simp add: list_all2_lengthD)
    then have "(td, r, late) \<in> set cs" using \<open>set zs \<subseteq> set cs\<close> nth_mem z by fastforce
    moreover have "base td = f (xs ! i)" using list_all2_nthD [OF zs(2) i] z by simp
    ultimately show ?thesis using assms(2) i z by simp
  qed
  with zs(2) have "list_all2 P xs (map (task_output env ctx rd) zs)"
    by (simp add: list_all2_conv_all_nth)
  with concat_submultiset [OF zs(1)] show ?thesis unfolding daemon_output_def by blast
qed

end
