(* ===== verification/Lister_Threads.thy ===== *)
theory Lister_Threads
  imports Daemon
begin

text \<open>
  The daemon without bulk sampling: \<^verbatim>\<open>list_domains_work\<close> of \<^verbatim>\<open>src/sampler.c\<close> as it runs on a worker thread. It is a
  work function that dispatches tasks itself, so it is cut at its calls of \<^verbatim>\<open>executor_dispatch\<close>, between which the main loop
  and the other threads (\<^verbatim>\<open>Daemon\<close>) run. \<open>todo\<close> is the local state of the loop of a thread: the domains it has
  not come to and the last \<open>err\<close>. \<open>sent\<close> and \<open>errors\<close> record, for the tasks it dispatches, the requests that were accepted and
  the calls of \<^verbatim>\<open>collect_error\<close>.
\<close>

section \<open>State\<close>

record ('c, 'd, 'u) lsys =
  daemon :: "('c, 'u) VmonDaemon"
  sys :: "'u xsys"
  todo :: "nat \<Rightarrow> ('d list \<times> int) option"
  sent :: "'d VmonRequest list"
  errors :: "('d VmonRequest \<times> int) list"
  accepted_lines :: "string list"

definition is_lister :: "('c, 'd) sampler_env \<Rightarrow> TaskData \<Rightarrow> bool" where
  "is_lister env td \<longleftrightarrow> td_work td = list_domains_work_addr env"

definition listing :: "('c, 'd) sampler_env \<Rightarrow> (TaskData \<Rightarrow> int set) \<Rightarrow> int set \<Rightarrow> TaskData \<Rightarrow> int set" where
  \<comment> \<open>the results of the work functions, with those given for the lister\<close>
  "listing env work R td = (if is_lister env td then R else work td)"

definition l_init :: "('c, 'u) VmonDaemon \<Rightarrow> ('c, 'd, 'u) lsys" where
  "l_init di = \<lparr>daemon = di, sys = x_init (cx_executor (vd_ctx di)), todo = Map.empty, sent = [], errors = [],
     accepted_lines = []\<rparr>"

definition l_run :: "('c, 'd, 'u) lsys \<Rightarrow> 'u xsys \<Rightarrow> ('c, 'd, 'u) lsys" where
  \<comment> \<open>after a step of the threads\<close>
  "l_run L s = L\<lparr>daemon := (daemon L)\<lparr>vd_ctx := (vd_ctx (daemon L))\<lparr>cx_executor := exc s\<rparr>\<rparr>, sys := s\<rparr>"

definition l_call :: "('c, 'd, 'u) lsys \<Rightarrow> ('c, 'u) VmonDaemon \<Rightarrow> ('c, 'd, 'u) lsys" where
  \<comment> \<open>after a call that may have queued a task\<close>
  "l_call L d = L\<lparr>daemon := d, sys := queued (sys L) d\<rparr>"

section \<open>Steps of the lister\<close>

inductive list_step ::
    "('c, 'd) sampler_env \<Rightarrow> (byte list \<Rightarrow> 'd VmonRequest) \<Rightarrow> ('c, 'd, 'u) lsys \<Rightarrow> ('c, 'd, 'u) lsys \<Rightarrow> bool"
  for env rd where
  lists: "in_phase (sys L) t (Working td) \<Longrightarrow> is_lister env td \<Longrightarrow> todo L t = None \<Longrightarrow>
    vir_ConnectListAllDomains env (cx_conn (vd_ctx (daemon L))) (cx_flags (vd_ctx (daemon L))) = (ret, domains) \<Longrightarrow>
    0 \<le> ret \<Longrightarrow> nat ret \<le> length domains \<Longrightarrow>
    list_step env rd L (L\<lparr>todo := (todo L)(t \<mapsto> (take (nat ret) domains, 0))\<rparr>)"
| fails: "in_phase (sys L) t (Working td) \<Longrightarrow> is_lister env td \<Longrightarrow> todo L t = None \<Longrightarrow>
    vir_ConnectListAllDomains env (cx_conn (vd_ctx (daemon L))) (cx_flags (vd_ctx (daemon L))) = (ret, domains) \<Longrightarrow>
    ret < 0 \<Longrightarrow>
    list_step env rd L (L\<lparr>sys := goto (sys L) t (Returned td ret), errors := errors L @ [(task_request rd td, ret)]\<rparr>)"
| sends: "in_phase (sys L) t (Working td) \<Longrightarrow> is_lister env td \<Longrightarrow> todo L t = Some (dm # domains, err0) \<Longrightarrow>
    vreq = (task_request rd td)\<lparr>rq_dom := Some dm\<rparr> \<Longrightarrow>
    dispatch_request env (vd_ctx (daemon L)) (sample_domain_work_addr env) vreq = Some (err, ctx) \<Longrightarrow>
    list_step env rd L ((l_call L ((daemon L)\<lparr>vd_ctx := ctx\<rparr>))\<lparr>todo := (todo L)(t \<mapsto> (domains, err)),
      sent := (if err = 0 then sent L @ [vreq] else sent L),
      errors := (if err = 0 then errors L else errors L @ [(vreq, err)])\<rparr>)"
| returns: "in_phase (sys L) t (Working td) \<Longrightarrow> is_lister env td \<Longrightarrow> todo L t = Some ([], err) \<Longrightarrow>
    list_step env rd L (L\<lparr>sys := goto (sys L) t (Returned td err), todo := (todo L)(t := None)\<rparr>)"

inductive l_reach ::
    "glib_flags \<Rightarrow> ('c, 'd) sampler_env \<Rightarrow> jsmntok_t list \<Rightarrow> exec_symbols \<Rightarrow> (TaskData \<Rightarrow> int set) \<Rightarrow>
     (TaskData \<Rightarrow> int \<Rightarrow> bool \<Rightarrow> int set) \<Rightarrow> (byte list \<Rightarrow> 'd VmonRequest) \<Rightarrow> ('c, 'u) VmonDaemon \<Rightarrow>
     ('c, 'd, 'u) lsys \<Rightarrow> bool"
  for G env mem syms work coll rd di where
  begins: "l_reach G env mem syms work coll rd di (l_init di)"
| reads: "l_reach G env mem syms work coll rd di L \<Longrightarrow>
    vmon_io_callback G env buf mem cond r (daemon L) = Some (ret, d) \<Longrightarrow>
    l_reach G env mem syms work coll rd di ((l_call L d)\<lparr>accepted_lines := accepted_lines L @ accepted r ret\<rparr>)"
| polls: "l_reach G env mem syms work coll rd di L \<Longrightarrow> poll_libvirt G env buf uuid (daemon L) = Some (ret, d) \<Longrightarrow>
    l_reach G env mem syms work coll rd di (l_call L d)"
| threads_run: "l_reach G env mem syms work coll rd di L \<Longrightarrow> x_step syms (listing env work {}) coll (sys L) s \<Longrightarrow>
    l_reach G env mem syms work coll rd di (l_run L s)"
| lister_runs: "l_reach G env mem syms work coll rd di L \<Longrightarrow> list_step env rd L L' \<Longrightarrow>
    l_reach G env mem syms work coll rd di L'"

lemma l_simps [simp]:
  "daemon (l_init di) = di" "sys (l_init di) = x_init (cx_executor (vd_ctx di))" "todo (l_init di) = Map.empty"
  "sent (l_init di) = []" "errors (l_init di) = []" "accepted_lines (l_init di) = []"
  "daemon (l_call L d) = d" "sys (l_call L d) = queued (sys L) d" "todo (l_call L d) = todo L"
  "sent (l_call L d) = sent L" "errors (l_call L d) = errors L" "accepted_lines (l_call L d) = accepted_lines L"
  "sys (l_run L s) = s" "todo (l_run L s) = todo L" "sent (l_run L s) = sent L" "errors (l_run L s) = errors L"
  "accepted_lines (l_run L s) = accepted_lines L"
  "daemon (l_run L s) = (daemon L)\<lparr>vd_ctx := (vd_ctx (daemon L))\<lparr>cx_executor := exc s\<rparr>\<rparr>"
  by (simp_all add: l_init_def l_call_def l_run_def)

lemma is_lister_mark [simp]: "is_lister env (td\<lparr>td_discarded := d\<rparr>) = is_lister env td" "is_lister env (base td) = is_lister env td"
  by (simp_all add: is_lister_def base_def)

lemma task_request_mark [simp]: "task_request rd (td\<lparr>td_discarded := d\<rparr>) = task_request rd td"
  "task_request rd (base td) = task_request rd td"
  by (simp_all add: task_request_def base_def)

text \<open>Undisturbed, the steps are the function: a lister on a worker thread that nothing interrupts
  leaves the executor, the result and the errors as \<open>list_domains_work\<close> does.\<close>

definition lister_output :: "('c, 'd) sampler_env \<Rightarrow> ('d VmonRequest \<times> int) list \<Rightarrow> string list" where
  \<comment> \<open>what the calls of \<open>collect_error\<close> write\<close>
  "lister_output env = map (\<lambda>(req, err). written env (error_response env req err False))"

lemma queued_exc [simp]: "exc (queued s d) = cx_executor (vd_ctx d)" "threads (queued s d) = threads s"
  "timers (queued s d) = timers s" "sched (queued s d) = sched s" "collected (queued s d) = collected s"
  by (simp_all add: queued_def)

lemma in_phase_queued [simp]: "in_phase (queued s d) t ph = in_phase s t ph"
  by (simp add: in_phase_def)

lemma list_loop_steps:
  assumes "list_loop env ctx (task_request rd td) doms e = Some (err, ctx')"
    and "in_phase (sys L) t (Working td)" and "is_lister env td" and "todo L t = Some (doms, e)"
    and "ctx = (vd_ctx (daemon L))\<lparr>cx_out := out\<rparr>"
  shows "\<exists>L' es. (list_step env rd)\<^sup>*\<^sup>* L L' \<and> in_phase (sys L') t (Working td) \<and> todo L' t = Some ([], err) \<and>
    errors L' = errors L @ es \<and> ctx' = (vd_ctx (daemon L'))\<lparr>cx_out := out @ lister_output env es\<rparr>"
  using assms
proof (induction doms arbitrary: L ctx e out)
  case Nil
  then show ?case by (intro exI [of _ L] exI [of _ "[]"]) (simp add: lister_output_def)
next
  case (Cons dm doms)
  let ?vreq = "(task_request rd td)\<lparr>rq_dom := Some dm\<rparr>"
  obtain r x where x: "executor_dispatch (cx_executor (vd_ctx (daemon L))) (sample_domain_work_addr env)
      (sampling_collect_addr env) (req_image env ?vreq) sizeof_VmonRequest (cf_timeout (cx_conf (vd_ctx (daemon L)))) = Some (r, x)"
    using Cons.prems(1,5) by (auto simp: dispatch_request_def Let_def split: option.splits)
  let ?ctx = "(vd_ctx (daemon L))\<lparr>cx_executor := x\<rparr>"
  have d: "dispatch_request env (vd_ctx (daemon L)) (sample_domain_work_addr env) ?vreq = Some (r, ?ctx)"
    "dispatch_request env ctx (sample_domain_work_addr env) ?vreq = Some (r, ctx\<lparr>cx_executor := x\<rparr>)"
    using x Cons.prems(5) by (simp_all add: dispatch_request_def)
  let ?L = "(l_call L ((daemon L)\<lparr>vd_ctx := ?ctx\<rparr>))\<lparr>todo := (todo L)(t \<mapsto> (doms, r)),
      sent := (if r = 0 then sent L @ [?vreq] else sent L),
      errors := (if r = 0 then errors L else errors L @ [(?vreq, r)])\<rparr>"
  let ?es = "if r = 0 then [] else [(?vreq, r)]"
  have st: "list_step env rd L ?L"
    by (rule list_step.sends [OF Cons.prems(2,3,4) refl d(1)])
  have "\<exists>L' es. (list_step env rd)\<^sup>*\<^sup>* ?L L' \<and> in_phase (sys L') t (Working td) \<and> todo L' t = Some ([], err) \<and>
    errors L' = errors ?L @ es \<and> ctx' = (vd_ctx (daemon L'))\<lparr>cx_out := (out @ lister_output env ?es) @ lister_output env es\<rparr>"
  proof (rule Cons.IH)
    let ?c = "ctx\<lparr>cx_executor := x\<rparr>"
    show "list_loop env (if r \<noteq> 0 then collect_error env ?c ?vreq r False else ?c) (task_request rd td) doms r = Some (err, ctx')"
      using Cons.prems(1) d(2) by (simp add: Let_def)
    show "(if r \<noteq> 0 then collect_error env ?c ?vreq r False else ?c) = (vd_ctx (daemon ?L))\<lparr>cx_out := out @ lister_output env ?es\<rparr>"
      using Cons.prems(5) by (simp add: collect_error_def write_response_def lister_output_def written_def)
  qed (use Cons.prems(2,3) in simp_all)
  then obtain L' es where L': "(list_step env rd)\<^sup>*\<^sup>* ?L L'" "in_phase (sys L') t (Working td)" "todo L' t = Some ([], err)"
    "errors L' = errors L @ ?es @ es" "ctx' = (vd_ctx (daemon L'))\<lparr>cx_out := out @ lister_output env (?es @ es)\<rparr>"
    by (auto simp: lister_output_def split: if_splits)
  then show ?case using st by (intro exI [of _ L'] exI [of _ "?es @ es"]) (auto intro: converse_rtranclp_into_rtranclp)
qed

lemma lister_alone:
  assumes "list_domains_work env (vd_ctx (daemon L)) (task_request rd td) = Some (err, ctx)"
    and "in_phase (sys L) t (Working td)" and "is_lister env td" and "todo L t = None"
  shows "\<exists>L' es. (list_step env rd)\<^sup>*\<^sup>* L L' \<and> in_phase (sys L') t (Returned td err) \<and> todo L' t = None \<and>
    errors L' = errors L @ es \<and>
    ctx = (vd_ctx (daemon L'))\<lparr>cx_out := cx_out (vd_ctx (daemon L)) @ lister_output env es\<rparr>"
proof -
  obtain ret doms where v: "vir_ConnectListAllDomains env (cx_conn (vd_ctx (daemon L))) (cx_flags (vd_ctx (daemon L))) = (ret, doms)"
    by (meson surj_pair)
  have goto: "in_phase (goto s t ph) t ph" if "in_phase s t ph0" for s ph ph0
    using that by (simp add: in_phase_def goto_phase)
  show ?thesis
  proof (cases "ret < 0")
    case True
    let ?L = "L\<lparr>sys := goto (sys L) t (Returned td ret), errors := errors L @ [(task_request rd td, ret)]\<rparr>"
    have "list_step env rd L ?L" by (rule list_step.fails [OF assms(2-4) v True])
    with True v assms show ?thesis
      by (intro exI [of _ ?L] exI [of _ "[(task_request rd td, ret)]"])
        (auto simp: list_domains_work_def collect_error_def write_response_def lister_output_def written_def intro: goto)
  next
    case False
    with v assms(1) have n: "nat ret \<le> length doms"
      "list_loop env (vd_ctx (daemon L)) (task_request rd td) (take (nat ret) doms) 0 = Some (err, ctx)"
      by (auto simp: list_domains_work_def split: if_splits)
    let ?L = "L\<lparr>todo := (todo L)(t \<mapsto> (take (nat ret) doms, 0))\<rparr>"
    have st: "list_step env rd L ?L" using False n(1) by (intro list_step.lists [OF assms(2-4) v]) simp_all
    obtain L' es where L': "(list_step env rd)\<^sup>*\<^sup>* ?L L'" "in_phase (sys L') t (Working td)" "todo L' t = Some ([], err)"
      "errors L' = errors ?L @ es" "ctx = (vd_ctx (daemon L'))\<lparr>cx_out := cx_out (vd_ctx (daemon L)) @ lister_output env es\<rparr>"
      using list_loop_steps [OF n(2), of ?L t "cx_out (vd_ctx (daemon L))"] assms(2,3) by auto
    have fin: "list_step env rd L' (L'\<lparr>sys := goto (sys L') t (Returned td err), todo := (todo L')(t := None)\<rparr>)"
      by (rule list_step.returns [OF L'(2) assms(3) L'(3)])
    have "(list_step env rd)\<^sup>*\<^sup>* L (L'\<lparr>sys := goto (sys L') t (Returned td err), todo := (todo L')(t := None)\<rparr>)"
      using st L'(1) fin by (meson converse_rtranclp_into_rtranclp rtranclp.rtrancl_into_rtrancl)
    then show ?thesis
      using L'(2,4,5) by (intro exI [of _ "L'\<lparr>sys := goto (sys L') t (Returned td err), todo := (todo L')(t := None)\<rparr>"] exI [of _ es])
        (auto intro: goto)
  qed
qed

section \<open>A run of the daemon\<close>

definition sampler_symbols :: "('c, 'd) sampler_env \<Rightarrow> exec_symbols \<Rightarrow> bool" where
  \<comment> \<open>different functions have different addresses, and the image of a request has its size\<close>
  "sampler_symbols env syms \<longleftrightarrow> (\<forall>r. length (req_image env r) = sizeof_VmonRequest) \<and>
     sampling_collect_addr env \<noteq> StopCollect_addr syms \<and> list_domains_work_addr env \<noteq> StopWorker_addr syms \<and>
     sample_domain_work_addr env \<noteq> StopWorker_addr syms \<and>
     sample_domain_work_addr env \<notin> {list_domains_work_addr env, bulk_sampling_work_addr env}"

lemma sampler_symbolsD:
  assumes "sampler_symbols env syms"
  shows "length (req_image env r) = sizeof_VmonRequest" and "sampling_collect_addr env \<noteq> StopCollect_addr syms"
    and "list_domains_work_addr env \<noteq> StopWorker_addr syms" and "sample_domain_work_addr env \<noteq> StopWorker_addr syms"
    and "sample_domain_work_addr env \<noteq> list_domains_work_addr env"
    and "sample_domain_work_addr env \<noteq> bulk_sampling_work_addr env"
  using assms by (simp_all add: sampler_symbols_def)

lemma x_step_mono:
  assumes "x_step syms work coll s s'" and "\<And>td. work td \<subseteq> work' td"
  shows "x_step syms work' coll s s'"
  using assms(1)
proof (induction rule: x_step.induct)
  case (works s t td r)
  then have "r \<in> call_work syms work' td" using assms(2) by (auto simp: call_work_def split: if_splits)
  with works show ?case by (intro x_step.works)
qed (rule x_step.intros; assumption)+

lemma lister_any: "sampler_symbols env syms \<Longrightarrow> is_lister env td \<Longrightarrow> r \<in> call_work syms (listing env work UNIV) td"
  by (simp add: sampler_symbols_def is_lister_def call_work_def listing_def)

lemma lister_none: "sampler_symbols env syms \<Longrightarrow> is_lister env td \<Longrightarrow> call_work syms (listing env work {}) td = {}"
  by (simp add: sampler_symbols_def is_lister_def call_work_def listing_def)

lemma same_executor: "cx_executor (vd_ctx d) = e \<Longrightarrow> d\<lparr>vd_ctx := (vd_ctx d)\<lparr>cx_executor := e\<rparr>\<rparr> = d"
  by (cases d) auto

lemma dispatch_ctx: "dispatch_request env ctx work req = Some (err, ctx') \<Longrightarrow> \<exists>x. ctx' = ctx\<lparr>cx_executor := x\<rparr>"
  by (auto simp: dispatch_request_def)

lemma l_d_reach:
  assumes "l_reach G env mem syms work coll rd di L" and "x_started (cx_executor (vd_ctx di))" and "sampler_symbols env syms"
  shows "d_reach G env mem syms (listing env work UNIV) coll di (daemon L) (sys L) (accepted_lines L)"
  using assms(1)
proof induction
  case begins
  then show ?case by (simp add: d_reach.begins)
next
  case (reads L buf cond r ret d)
  then show ?case by (simp add: d_reach.reads)
next
  case (polls L buf uuid ret d)
  from d_reach.polls [OF polls(3,2)] show ?case by simp
next
  case (threads_run L s)
  have "x_step syms (listing env work UNIV) coll (sys L) s"
    by (rule x_step_mono [OF threads_run(2)]) (simp add: listing_def)
  from d_reach.threads_run [OF threads_run(3) this] show ?case by simp
next
  case (lister_runs L L')
  note sym = sampler_symbolsD [OF assms(3)]
  have l: "d_linked env mem syms (listing env work UNIV) coll di (daemon L) (sys L) (accepted_lines L)"
    by (rule d_reach_linked [OF lister_runs(3) assms(2)]) (use sym in auto)
  then have ex: "cx_executor (vd_ctx (daemon L)) = exc (sys L)"
    and wf: "exec_wf (exc (sys L))"
    using x_inv_reach [of syms _ coll _ "sys L"] assms(2) x_invD(5) by (auto simp: d_linked_def)
  have done_by: "d_reach G env mem syms (listing env work UNIV) coll di (daemon L)
      (goto (sys L) t (Returned td r)) (accepted_lines L)"
      if "in_phase (sys L) t (Working td)" "is_lister env td" for t td r
    using d_reach.threads_run [OF lister_runs(3) x_step.works [OF that(1) lister_any [OF assms(3) that(2)]]]
    by (simp add: same_executor [OF ex])
  from lister_runs(2) show ?case
  proof cases
    case (lists t td ret domains)
    with lister_runs(3) show ?thesis by simp
  next
    case (fails t td ret domains)
    with done_by show ?thesis by simp
  next
    case (sends t td dm domains err0 vreq err ctx)
    let ?d = "(daemon L)\<lparr>vd_ctx := ctx\<rparr>"
    have d: "dispatch_request env (vd_ctx (daemon L)) (sample_domain_work_addr env) vreq = Some (err, vd_ctx ?d)"
      using sends by simp
    have "x_step syms (listing env work UNIV) coll (sys L) (queued (sys L) ?d)"
      by (rule dispatch_is_step(1) [OF d ex wf sym(1,2)])
    from d_reach.threads_run [OF lister_runs(3) this] sends(1) dispatch_ctx [OF d] show ?thesis by auto
  next
    case (returns t td err)
    with done_by show ?thesis by simp
  qed
qed

lemma l_linked:
  assumes "l_reach G env mem syms work coll rd di L" and "x_started (cx_executor (vd_ctx di))" and "sampler_symbols env syms"
  shows "cx_executor (vd_ctx (daemon L)) = exc (sys L)" and "cx_conf (vd_ctx (daemon L)) = cx_conf (vd_ctx di)"
    and "x_inv (sys L)" and "x_reach syms (listing env work UNIV) coll (cx_executor (vd_ctx di)) (sys L)"
proof -
  have "d_linked env mem syms (listing env work UNIV) coll di (daemon L) (sys L) (accepted_lines L)"
    by (rule d_reach_linked [OF l_d_reach [OF assms] assms(2)]) (use sampler_symbolsD [OF assms(3)] in auto)
  then show "cx_executor (vd_ctx (daemon L)) = exc (sys L)" "cx_conf (vd_ctx (daemon L)) = cx_conf (vd_ctx di)"
    "x_reach syms (listing env work UNIV) coll (cx_executor (vd_ctx di)) (sys L)"
    by (simp_all add: d_linked_def)
  then show "x_inv (sys L)" using x_inv_reach assms(2) by blast
qed

lemma callback_ctx:
  assumes "vmon_io_callback G env buf mem cond rd d = Some (ret, d')"
  shows "\<exists>x. vd_ctx d' = (vd_ctx d)\<lparr>cx_executor := x\<rparr>"
  using assms
proof (cases rule: io_callback_ctx)
  case Same
  then show ?thesis by (intro exI [of _ "cx_executor (vd_ctx d)"]) simp
next
  case (Line line err)
  show ?thesis
  proof (cases "\<exists>work req. dispatch_request env (vd_ctx d) work req = Some (err, vd_ctx d')")
    case True
    then show ?thesis using dispatch_ctx by blast
  next
    case False
    then have "vd_ctx d' = vd_ctx d"
      using Line(3) by (auto simp: sampler_handle_request_def sampler_send_request_def Let_def split: option.splits if_splits)
    then show ?thesis by (intro exI [of _ "cx_executor (vd_ctx d)"]) simp
  qed
qed

lemma poll_only_executor:
  assumes "poll_libvirt G env buf uuid d = Some (ret, d')"
  shows "\<exists>x. vd_ctx d' = (vd_ctx d)\<lparr>cx_executor := x\<rparr>"
  by (rule poll_ctx [OF assms]) (use dispatch_ctx in \<open>auto simp: sampler_send_request_def Let_def\<close>)

lemma list_step_ctx:
  assumes "list_step env rd L L'"
  shows "\<exists>x. vd_ctx (daemon L') = (vd_ctx (daemon L))\<lparr>cx_executor := x\<rparr>"
  using assms
proof cases
  case (sends t td dm domains err0 vreq err ctx)
  then show ?thesis by (auto simp: dispatch_request_def)
qed (intro exI [of _ "cx_executor (vd_ctx (daemon L))"]; simp)+

lemma l_reach_ctx:
  "l_reach G env mem syms work coll rd di L \<Longrightarrow> \<exists>x. vd_ctx (daemon L) = (vd_ctx di)\<lparr>cx_executor := x\<rparr>"
proof (induction rule: l_reach.induct)
  case begins
  show ?case by (intro exI [of _ "cx_executor (vd_ctx di)"]) simp
next
  case (reads L buf cond r ret d)
  with callback_ctx [OF reads(2)] show ?case by auto
next
  case (polls L buf uuid ret d)
  with poll_only_executor [OF polls(2)] show ?case by auto
next
  case (threads_run L s)
  then show ?case by auto
next
  case (lister_runs L L')
  with list_step_ctx [OF lister_runs(2)] show ?case by auto
qed

section \<open>What the listers owe\<close>

definition listed :: "('c, 'd) sampler_env \<Rightarrow> ('c, 'u) VmonContext \<Rightarrow> 'd VmonRequest \<Rightarrow> 'd VmonRequest list" where
  \<comment> \<open>the requests that are to be answered for a request: a copy for each domain, or itself when they cannot be listed\<close>
  "listed env ctx req = (let (ret, domains) = vir_ConnectListAllDomains env (cx_conn ctx) (cx_flags ctx)
     in if ret < 0 then [req] else map (\<lambda>dm. req\<lparr>rq_dom := Some dm\<rparr>) (take (nat ret) domains))"

definition dues ::
    "('c, 'd) sampler_env \<Rightarrow> ('c, 'u) VmonContext \<Rightarrow> (byte list \<Rightarrow> 'd VmonRequest) \<Rightarrow> TaskData \<Rightarrow> 'd VmonRequest multiset" where
  "dues env ctx rd td = (if is_lister env td then mset (listed env ctx (task_request rd td)) else {#})"

definition begun ::
    "('c, 'd) sampler_env \<Rightarrow> ('c, 'u) VmonContext \<Rightarrow> (byte list \<Rightarrow> 'd VmonRequest) \<Rightarrow>
     (nat \<Rightarrow> ('d list \<times> int) option) \<Rightarrow> nat \<Rightarrow> phase \<Rightarrow> 'd VmonRequest multiset" where
  \<comment> \<open>of the task of a thread, once the domains are listed\<close>
  "begun env ctx rd tdo t ph = (case ph of
     Working td \<Rightarrow> if tdo t = None then {#} else dues env ctx rd td
   | Returned td r \<Rightarrow> dues env ctx rd td
   | Cleared td r \<Rightarrow> dues env ctx rd td
   | Collecting td r \<Rightarrow> dues env ctx rd td
   | _ \<Rightarrow> {#})"

definition pending_work ::
    "(byte list \<Rightarrow> 'd VmonRequest) \<Rightarrow> (nat \<Rightarrow> ('d list \<times> int) option) \<Rightarrow> nat \<Rightarrow> phase \<Rightarrow> 'd VmonRequest multiset" where
  \<comment> \<open>of these, the ones that the loop has not come to\<close>
  "pending_work rd tdo t ph = (case ph of
     Working td \<Rightarrow> (case tdo t of None \<Rightarrow> {#}
       | Some (domains, err) \<Rightarrow> mset (map (\<lambda>dm. (task_request rd td)\<lparr>rq_dom := Some dm\<rparr>) domains))
   | _ \<Rightarrow> {#})"

definition thread_sum :: "(nat \<Rightarrow> phase \<Rightarrow> 'm) \<Rightarrow> wthread list \<Rightarrow> 'm :: comm_monoid_add" where
  "thread_sum f ts = (\<Sum>t < length ts. f t (phase (ts ! t)))"

definition todo_ok :: "('c, 'd) sampler_env \<Rightarrow> (nat \<Rightarrow> ('d list \<times> int) option) \<Rightarrow> 'u xsys \<Rightarrow> bool" where
  \<comment> \<open>only the threads that work on a task of the lister are in the loop\<close>
  "todo_ok env tdo s \<longleftrightarrow> (\<forall>t v. tdo t = Some v \<longrightarrow> (\<exists>td. in_phase s t (Working td) \<and> is_lister env td))"

lemma todo_none:
  assumes "todo_ok env tdo s" and "in_phase s t ph" and "\<And>td. ph = Working td \<Longrightarrow> \<not> is_lister env td"
  shows "tdo t = None"
  using assms by (cases "tdo t") (fastforce simp: todo_ok_def in_phase_def)+

definition account ::
    "('c, 'd) sampler_env \<Rightarrow> ('c, 'u) VmonContext \<Rightarrow> (byte list \<Rightarrow> 'd VmonRequest) \<Rightarrow> ('c, 'd, 'u) lsys \<Rightarrow> bool" where
  \<comment> \<open>every listed request was sent, or its error was written, or it is still to come\<close>
  "account env ctx rd L \<longleftrightarrow>
     mset (sent L) + mset (map fst (errors L)) + thread_sum (pending_work rd (todo L)) (threads (sys L)) =
     thread_sum (begun env ctx rd (todo L)) (threads (sys L)) + sum_list (map (dues env ctx rd \<circ> fst) (collected (sys L)))"

lemma thread_sum_change:
  fixes f g :: "nat \<Rightarrow> phase \<Rightarrow> 'm :: cancel_comm_monoid_add"
  assumes "t < length ts" and "length ts' = length ts"
    and "\<And>u. u \<noteq> t \<Longrightarrow> u < length ts \<Longrightarrow> g u (phase (ts' ! u)) = f u (phase (ts ! u))"
  shows "thread_sum g ts' + f t (phase (ts ! t)) = thread_sum f ts + g t (phase (ts' ! t))"
proof -
  have "(\<Sum>u \<in> {..<length ts} - {t}. g u (phase (ts' ! u))) = (\<Sum>u \<in> {..<length ts} - {t}. f u (phase (ts ! u)))"
    by (rule sum.cong) (use assms(3) in auto)
  then show ?thesis
    using assms(1,2) by (simp add: thread_sum_def sum.remove [of "{..<length ts}" t] ac_simps)
qed

lemma thread_sum_goto:
  fixes f g :: "nat \<Rightarrow> phase \<Rightarrow> 'm :: cancel_comm_monoid_add"
  assumes "in_phase s t ph" and "threads s' = threads s" and "\<And>u p. u \<noteq> t \<Longrightarrow> g u p = f u p"
  shows "thread_sum g (threads (goto s' t ph')) + f t ph = thread_sum f (threads s) + g t ph'"
  using thread_sum_change [of t "threads s" "threads (goto s' t ph')" g f] assms by (simp add: in_phase_def goto_phase)

lemma thread_sum_same:
  fixes f :: "nat \<Rightarrow> phase \<Rightarrow> 'm :: cancel_comm_monoid_add"
  assumes "in_phase s t ph" and "threads s' = threads s" and "f t ph' = f t ph"
  shows "thread_sum f (threads (goto s' t ph')) = thread_sum f (threads s)"
  using thread_sum_goto [OF assms(1,2), of f f ph'] assms(3) by simp

lemma thread_sum_local:
  fixes f g :: "nat \<Rightarrow> phase \<Rightarrow> 'm :: cancel_comm_monoid_add"
  assumes "in_phase s t ph" and "\<And>u p. u \<noteq> t \<Longrightarrow> g u p = f u p"
  shows "thread_sum g (threads s) + f t ph = thread_sum f (threads s) + g t ph"
  using thread_sum_change [of t "threads s" "threads s" g f] assms by (simp add: in_phase_def)

lemma thread_sum_app: "thread_sum f (ts @ [th]) = thread_sum f ts + f (length ts) (phase th)"
  by (simp add: thread_sum_def nth_append)

lemma thread_sum_zero: "(\<And>t. t < length ts \<Longrightarrow> f t (phase (ts ! t)) = 0) \<Longrightarrow> thread_sum f ts = 0"
  by (simp add: thread_sum_def)

lemma dues_mark [simp]: "dues env ctx rd (td\<lparr>td_discarded := d\<rparr>) = dues env ctx rd td"
  by (simp add: dues_def)

lemma begun_simps [simp]:
  "begun env ctx rd tdo t Getting = {#}" "begun env ctx rd tdo t (Got td) = {#}" "begun env ctx rd tdo t (Armed td) = {#}"
  "begun env ctx rd tdo t (Working td) = (if tdo t = None then {#} else dues env ctx rd td)"
  "begun env ctx rd tdo t (Returned td r) = dues env ctx rd td" "begun env ctx rd tdo t (Cleared td r) = dues env ctx rd td"
  "begun env ctx rd tdo t (Collecting td r) = dues env ctx rd td" "begun env ctx rd tdo t Exited = {#}"
  "begun env ctx rd tdo t (worker_loop c) = {#}"
  by (simp_all add: begun_def worker_loop_def)

lemma pending_simps [simp]:
  "pending_work rd tdo t Getting = {#}" "pending_work rd tdo t (Got td) = {#}" "pending_work rd tdo t (Armed td) = {#}"
  "pending_work rd tdo t (Working td) = (case tdo t of None \<Rightarrow> {#}
     | Some (domains, err) \<Rightarrow> mset (map (\<lambda>dm. (task_request rd td)\<lparr>rq_dom := Some dm\<rparr>) domains))"
  "pending_work rd tdo t (Returned td r) = {#}" "pending_work rd tdo t (Cleared td r) = {#}"
  "pending_work rd tdo t (Collecting td r) = {#}" "pending_work rd tdo t Exited = {#}"
  "pending_work rd tdo t (worker_loop c) = {#}"
  by (simp_all add: pending_work_def worker_loop_def)

lemma begun_marked [simp]: "begun env ctx rd tdo t (mark_discarded ph) = begun env ctx rd tdo t ph"
  by (cases ph) (simp_all add: mark_discarded_def)

lemma pending_marked [simp]: "pending_work rd tdo t (mark_discarded ph) = pending_work rd tdo t ph"
  by (cases ph) (simp_all add: mark_discarded_def split: option.split)

lemma other_thread [simp]:
  "u \<noteq> t \<Longrightarrow> begun env ctx rd (tdo(t := v)) u ph = begun env ctx rd tdo u ph"
  "u \<noteq> t \<Longrightarrow> pending_work rd (tdo(t := v)) u ph = pending_work rd tdo u ph"
  by (simp_all add: begun_def pending_work_def cong: phase.case_cong)

lemma thread_sum_init: "(\<And>t. f t Getting = 0) \<Longrightarrow> thread_sum f (threads (x_init e)) = 0"
  by (rule thread_sum_zero) (simp add: x_init_def)

lemma current_thread:
  assumes "x_inv s" and "sched s = S_Tested w" and "current_of (exc s) w = Some t"
  shows "t < length (threads s)"
proof -
  have "w < ex_workers_count (exc s)" using x_invD(1) [OF assms(1)] assms(2) by (simp add: shape_inv_def)
  then show ?thesis using x_invD(2) [OF assms(1)] assms(3) unfolding current_inv_def by blast
qed

lemma goto_other:
  assumes "in_phase s t ph" and "in_phase s u (Working td)" and "ph \<noteq> Working td" and "threads s' = threads s"
  shows "in_phase (goto s' t ph') u (Working td)"
proof -
  have "u \<noteq> t" using assms(1-3) by (metis in_phase_def)
  with assms(2,4) show ?thesis by (simp add: in_phase_def goto_def)
qed

lemma working_stays:
  assumes "x_step syms (listing env work {}) coll s s'" and "in_phase s u (Working td)" and "x_inv s"
    and "is_lister env td" and "sampler_symbols env syms"
  shows "\<exists>td'. in_phase s' u (Working td') \<and> is_lister env td'"
  using assms(1-3)
proof (induction rule: x_step.induct)
  case (marks s w t)
  have t: "t < length (threads s)" by (rule current_thread [OF marks(4,1,2)])
  show ?case
  proof (cases "u = t")
    case True
    with marks(3) t assms(4) show ?thesis by (auto simp: in_phase_def goto_phase mark_discarded_def)
  next
    case False
    with marks(3) t assms(4) show ?thesis by (auto simp: in_phase_def goto_phase)
  qed
next
  case (works s t tk r)
  then have "tk \<noteq> td" using lister_none [OF assms(5,4), of work] by auto
  with goto_other [OF works(1,3)] assms(4) show ?case by auto
next
  case (replaces s w rc r exc')
  with assms(4) show ?case by (auto simp: in_phase_def nth_append)
next
  case (dispatches coladdr dat n s wrk timeout r exc')
  with assms(4) show ?case by (auto simp: in_phase_def)
next
  case (stop_one s r exc')
  with assms(4) show ?case by (auto simp: in_phase_def)
next
  case (fires s ident w)
  with assms(4) show ?case by (auto simp: in_phase_def)
next
  case (fetches s t rb bs rb')
  show ?case by (rule exI [of _ td], rule conjI, rule goto_other [OF fetches(1,4)]) (simp_all add: assms(4))
next
  case (arms s t tk ident)
  show ?case by (rule exI [of _ td], rule conjI, rule goto_other [OF arms(1,4)]) (simp_all add: assms(4))
next
  case (set_current s t tk)
  show ?case by (rule exI [of _ td], rule conjI, rule goto_other [OF set_current(1,2)]) (simp_all add: assms(4))
next
  case (clear_current s t tk r)
  show ?case by (rule exI [of _ td], rule conjI, rule goto_other [OF clear_current(1,2)]) (simp_all add: assms(4))
next
  case (cancels s t tk r)
  show ?case by (rule exI [of _ td], rule conjI, rule goto_other [OF cancels(1,2)]) (simp_all add: assms(4))
next
  case (collects s t tk r c)
  show ?case by (rule exI [of _ td], rule conjI, rule goto_other [OF collects(1,3)]) (simp_all add: assms(4))
qed

lemma account_step:
  assumes "x_step syms (listing env work {}) coll s s'" and "sampler_symbols env syms" and "x_inv s"
    and "todo_ok env tdo s"
  shows "thread_sum (pending_work rd tdo) (threads s') = thread_sum (pending_work rd tdo) (threads s) \<and>
    thread_sum (begun env ctx rd tdo) (threads s') + sum_list (map (dues env ctx rd \<circ> fst) (collected s')) =
    thread_sum (begun env ctx rd tdo) (threads s) + sum_list (map (dues env ctx rd \<circ> fst) (collected s))"
  using assms
proof (induction rule: x_step.induct)
  case (set_current s t td)
  then have "tdo t = None" by (auto intro: todo_none)
  with set_current show ?case by (simp add: thread_sum_same [OF set_current(1)])
next
  case (works s t td r)
  then have "\<not> is_lister env td" using lister_none [of env syms td work] by auto
  with works have "tdo t = None" by (auto intro: todo_none)
  with works show ?case by (simp add: thread_sum_same [OF works(1)] dues_def \<open>\<not> is_lister env td\<close>)
next
  case (collects s t td r c)
  let ?s = "s\<lparr>collected := collected s @ [(td, r, td_discarded td \<noteq> 0)]\<rparr>"
  have "thread_sum (begun env ctx rd tdo) (threads (goto ?s t (worker_loop c))) + dues env ctx rd td =
      thread_sum (begun env ctx rd tdo) (threads s)"
    using thread_sum_goto [OF collects(1), of ?s "begun env ctx rd tdo" "begun env ctx rd tdo" "worker_loop c"] by simp
  then show ?case by (simp add: thread_sum_same [OF collects(1)] ac_simps)
next
  case (marks s w t)
  then have "in_phase s t (phase (threads s ! t))" using current_thread by (simp add: in_phase_def)
  then show ?case by (simp add: thread_sum_same)
next
  case (fetches s t rb bs rb')
  then show ?case by (simp add: thread_sum_same [OF fetches(1)])
next
  case (arms s t td ident)
  then show ?case by (simp add: thread_sum_same [OF arms(1)])
next
  case (clear_current s t td r)
  then show ?case by (simp add: thread_sum_same [OF clear_current(1)])
next
  case (cancels s t td r)
  then show ?case by (simp add: thread_sum_same [OF cancels(1)])
qed (simp_all add: thread_sum_app)

lemma todo_step:
  assumes "x_step syms (listing env work {}) coll s s'" and "todo_ok env tdo s" and "sampler_symbols env syms" and "x_inv s"
  shows "todo_ok env tdo s'"
  using assms working_stays unfolding todo_ok_def by blast

lemma todo_cong: "todo_ok env tdo s \<Longrightarrow> threads s' = threads s \<Longrightarrow> todo_ok env tdo s'"
  by (simp add: todo_ok_def in_phase_def)

lemma todo_goto:
  assumes "todo_ok env tdo s"
  shows "todo_ok env (tdo(t := None)) (goto s t ph)"
  unfolding todo_ok_def
proof (intro allI impI)
  fix u v
  assume u: "(tdo(t := None)) u = Some v"
  then have "u \<noteq> t" "tdo u = Some v" by (auto split: if_splits)
  with assms obtain td where "in_phase s u (Working td)" "is_lister env td" unfolding todo_ok_def by blast
  with \<open>u \<noteq> t\<close> show "\<exists>td. in_phase (goto s t ph) u (Working td) \<and> is_lister env td"
    by (intro exI [of _ td]) (simp add: in_phase_def goto_def)
qed

lemma list_step_keeps:
  assumes "list_step env rd L L'" and "todo_ok env (todo L) (sys L)" and "account env ctx rd L"
    and "vd_ctx (daemon L) = ctx\<lparr>cx_executor := x\<rparr>"
  shows "todo_ok env (todo L') (sys L') \<and> account env ctx rd L'"
  using assms(1)
proof cases
  case (lists t td ret domains)
  have l: "mset (map (\<lambda>dm. (task_request rd td)\<lparr>rq_dom := Some dm\<rparr>) (take (nat ret) domains)) = dues env ctx rd td"
    using lists assms(4) by (simp add: dues_def listed_def)
  let ?tdo = "(todo L)(t \<mapsto> (take (nat ret) domains, 0))"
  have "thread_sum (begun env ctx rd ?tdo) (threads (sys L)) =
      thread_sum (begun env ctx rd (todo L)) (threads (sys L)) + dues env ctx rd td"
    using thread_sum_local [OF lists(2), of "begun env ctx rd ?tdo" "begun env ctx rd (todo L)"] lists(4)
    by simp
  moreover have "thread_sum (pending_work rd ?tdo) (threads (sys L)) =
      thread_sum (pending_work rd (todo L)) (threads (sys L)) + dues env ctx rd td"
    using thread_sum_local [OF lists(2), of "pending_work rd ?tdo" "pending_work rd (todo L)"] lists(4) l
    by simp
  ultimately show ?thesis
    using assms(2,3) lists by (auto simp: account_def todo_ok_def ac_simps)
next
  case (fails t td ret domains)
  have l: "dues env ctx rd td = {#task_request rd td#}"
    using fails assms(4) by (simp add: dues_def listed_def)
  have "thread_sum (begun env ctx rd (todo L)) (threads (goto (sys L) t (Returned td ret))) =
      thread_sum (begun env ctx rd (todo L)) (threads (sys L)) + {#task_request rd td#}"
    using thread_sum_goto [OF fails(2) refl, of "begun env ctx rd (todo L)" "begun env ctx rd (todo L)"] fails(4)
    by (simp add: l)
  moreover have "thread_sum (pending_work rd (todo L)) (threads (goto (sys L) t (Returned td ret))) =
      thread_sum (pending_work rd (todo L)) (threads (sys L))"
    by (rule thread_sum_same [OF fails(2) refl]) (simp add: fails(4))
  moreover have "todo_ok env (todo L) (goto (sys L) t (Returned td ret))"
    using todo_goto [OF assms(2), of t] fails(4) by (simp add: fun_upd_idem)
  ultimately show ?thesis using assms(3) fails(1) by (simp add: account_def ac_simps)
next
  case (sends t td dm domains err0 vreq err ctx')
  let ?tdo = "(todo L)(t \<mapsto> (domains, err))"
  have "thread_sum (begun env ctx rd ?tdo) (threads (sys L)) = thread_sum (begun env ctx rd (todo L)) (threads (sys L))"
    using thread_sum_local [OF sends(2), of "begun env ctx rd ?tdo" "begun env ctx rd (todo L)"] sends(4)
    by simp
  moreover have "thread_sum (pending_work rd (todo L)) (threads (sys L)) =
      add_mset vreq (thread_sum (pending_work rd ?tdo) (threads (sys L)))"
    using thread_sum_local [OF sends(2), of "pending_work rd ?tdo" "pending_work rd (todo L)"] sends(4,5)
    by simp
  moreover have "todo_ok env ?tdo (queued (sys L) (daemon L\<lparr>vd_ctx := ctx'\<rparr>))"
    using assms(2) sends(2,3) by (auto simp: todo_ok_def)
  ultimately show ?thesis using assms(3) sends(1) by (auto simp: account_def ac_simps)
next
  case (returns t td err)
  let ?tdo = "(todo L)(t := None)"
  have "thread_sum (begun env ctx rd ?tdo) (threads (goto (sys L) t (Returned td err))) =
      thread_sum (begun env ctx rd (todo L)) (threads (sys L))"
    using thread_sum_goto [OF returns(2) refl, of "begun env ctx rd ?tdo" "begun env ctx rd (todo L)" "Returned td err"] returns(4)
    by simp
  moreover have "thread_sum (pending_work rd ?tdo) (threads (goto (sys L) t (Returned td err))) =
      thread_sum (pending_work rd (todo L)) (threads (sys L))"
    using thread_sum_goto [OF returns(2) refl, of "pending_work rd ?tdo" "pending_work rd (todo L)" "Returned td err"] returns(4)
    by simp
  moreover have "todo_ok env ?tdo (goto (sys L) t (Returned td err))"
    by (rule todo_goto [OF assms(2)])
  ultimately show ?thesis using assms(3) returns(1) by (simp add: account_def)
qed

definition sent_inv :: "('c, 'd) sampler_env \<Rightarrow> VmonConfig \<Rightarrow> ('c, 'd, 'u) lsys \<Rightarrow> bool" where
  "sent_inv env cf L \<longleftrightarrow>
     mset (map (request_task env cf (sample_domain_work_addr env)) (sent L)) \<subseteq># mset (map base (taken_in (sys L)))"

definition l_inv ::
    "('c, 'd) sampler_env \<Rightarrow> (byte list \<Rightarrow> 'd VmonRequest) \<Rightarrow> ('c, 'u) VmonDaemon \<Rightarrow> ('c, 'd, 'u) lsys \<Rightarrow> bool" where
  "l_inv env rd di L \<longleftrightarrow> todo_ok env (todo L) (sys L) \<and> account env (vd_ctx di) rd L \<and> sent_inv env (cx_conf (vd_ctx di)) L"

lemma queued_grows: "mset (map base (taken_in s)) \<subseteq># mset (map base (taken_in (queued s d)))"
  by (simp add: queued_def)

lemma l_inv_queued: "l_inv env rd di L \<Longrightarrow> l_inv env rd di (l_call L d)"
  using queued_grows [of "sys L" d] todo_cong [of env "todo L" "sys L" "queued (sys L) d"]
  by (auto simp: l_inv_def account_def sent_inv_def intro: subset_mset.trans)

lemma sent_step:
  assumes "list_step env rd L L'" and "sent_inv env cf L" and "cx_conf (vd_ctx (daemon L)) = cf"
    and "cx_executor (vd_ctx (daemon L)) = exc (sys L)" and "exec_wf (exc (sys L))" and "sampler_symbols env syms"
  shows "sent_inv env cf L'"
  using assms(1)
proof cases
  case (sends t td dm domains err0 vreq err ctx)
  note sym = sampler_symbolsD [OF assms(6)]
  let ?d = "(daemon L)\<lparr>vd_ctx := ctx\<rparr>"
  have "dispatch_request env (vd_ctx (daemon L)) (sample_domain_work_addr env) vreq = Some (err, vd_ctx ?d)"
    using sends by simp
  from dispatch_is_step(3) [OF this assms(4,5) sym(1,2)]
  show ?thesis
    using assms(2,3) sends(1) by (auto simp: sent_inv_def request_task_base sym(1) intro: subset_mset.add_increasing2)
qed (use assms(2) in \<open>simp_all add: sent_inv_def\<close>)

lemma l_reach_inv:
  assumes "l_reach G env mem syms work coll rd di L" and "x_started (cx_executor (vd_ctx di))" and "sampler_symbols env syms"
  shows "l_inv env rd di L"
  using assms(1)
proof induction
  case begins
  show ?case
    using thread_sum_init [of "pending_work rd Map.empty" "cx_executor (vd_ctx di)"]
      thread_sum_init [of "begun env (vd_ctx di) rd Map.empty" "cx_executor (vd_ctx di)"]
    by (simp add: l_inv_def todo_ok_def account_def sent_inv_def x_init_def)
next
  case (reads L buf cond r ret d)
  from l_inv_queued [OF reads(3)] show ?case by (simp add: l_inv_def account_def sent_inv_def)
next
  case (polls L buf uuid ret d)
  from l_inv_queued [OF polls(3)] show ?case .
next
  case (threads_run L s)
  note linked = l_linked [OF threads_run(1) assms(2,3)]
  have t: "todo_ok env (todo L) (sys L)" using threads_run(3) by (simp add: l_inv_def)
  note sums = account_step [OF threads_run(2) assms(3) linked(3) t, of rd "vd_ctx di"]
  have "account env (vd_ctx di) rd (l_run L s)"
    using threads_run(3) sums by (simp add: l_inv_def account_def)
  moreover have "sent_inv env (cx_conf (vd_ctx di)) (l_run L s)"
    using threads_run(3) subset_mset.trans [OF _ taken_in_grows [OF threads_run(2)]] by (simp add: l_inv_def sent_inv_def)
  ultimately show ?case
    using todo_step [OF threads_run(2) t assms(3) linked(3)] by (simp add: l_inv_def)
next
  case (lister_runs L L')
  note linked = l_linked [OF lister_runs(1) assms(2,3)]
  obtain x where x: "vd_ctx (daemon L) = (vd_ctx di)\<lparr>cx_executor := x\<rparr>"
    using l_reach_ctx [OF lister_runs(1)] by blast
  show ?case
    using lister_runs(3) list_step_keeps [OF lister_runs(2) _ _ x]
      sent_step [OF lister_runs(2) _ linked(2,1) x_invD(5) [OF linked(3)] assms(3)]
    by (simp add: l_inv_def)
qed

end
