(* ===== verification/Lister_Progress.thy ===== *)
theory Lister_Progress
  imports Lister_Threads
begin

text \<open>
  Progress of the daemon without bulk sampling, on the steps of \<^verbatim>\<open>Lister_Threads\<close>: a rank that every step of the threads
  and of the listers lowers, although a lister queues more tasks, and what is known when no step is left.
\<close>

section \<open>The rank\<close>

definition listed_count :: "('c, 'd) sampler_env \<Rightarrow> ('c, 'u) VmonContext \<Rightarrow> nat" where
  "listed_count env ctx = (let (ret, domains) = vir_ConnectListAllDomains env (cx_conn ctx) (cx_flags ctx)
     in length (take (nat ret) domains))"

definition lister_rank :: "('c, 'd) sampler_env \<Rightarrow> nat \<Rightarrow> TaskData \<Rightarrow> nat" where
  \<comment> \<open>a task of the lister is worth one step for listing, and for each domain one step and the task it queues\<close>
  "lister_rank env n td = (if is_lister env td then 12 * n + 1 else 0)"

definition loop_rank ::
    "('c, 'd) sampler_env \<Rightarrow> nat \<Rightarrow> (nat \<Rightarrow> ('d list \<times> int) option) \<Rightarrow> nat \<Rightarrow> phase \<Rightarrow> nat" where
  "loop_rank env n tdo t ph = (case ph of
     Got td \<Rightarrow> lister_rank env n td
   | Armed td \<Rightarrow> lister_rank env n td
   | Working td \<Rightarrow> (case tdo t of None \<Rightarrow> lister_rank env n td | Some (domains, err) \<Rightarrow> 12 * length domains)
   | _ \<Rightarrow> 0)"

definition listers_rank ::
    "('c, 'd) sampler_env \<Rightarrow> nat \<Rightarrow> (nat \<Rightarrow> ('d list \<times> int) option) \<Rightarrow> 'u xsys \<Rightarrow> nat" where
  "listers_rank env n tdo s =
     sum_list (map (lister_rank env n) (exec_tasks (exc s))) + thread_sum (loop_rank env n tdo) (threads s)"

definition l_rank :: "('c, 'd) sampler_env \<Rightarrow> ('c, 'd, 'u) lsys \<Rightarrow> nat" where
  "l_rank env L = x_rank (sys L) + listers_rank env (listed_count env (vd_ctx (daemon L))) (todo L) (sys L)"

lemma lister_rank_mark [simp]: "lister_rank env n (td\<lparr>td_discarded := d\<rparr>) = lister_rank env n td"
  by (simp add: lister_rank_def)

lemma loop_rank_simps [simp]:
  "loop_rank env n tdo t Getting = 0" "loop_rank env n tdo t (Got td) = lister_rank env n td"
  "loop_rank env n tdo t (Armed td) = lister_rank env n td"
  "loop_rank env n tdo t (Working td) =
     (case tdo t of None \<Rightarrow> lister_rank env n td | Some (domains, err) \<Rightarrow> 12 * length domains)"
  "loop_rank env n tdo t (Returned td r) = 0" "loop_rank env n tdo t (Cleared td r) = 0"
  "loop_rank env n tdo t (Collecting td r) = 0" "loop_rank env n tdo t Exited = 0" "loop_rank env n tdo t (worker_loop c) = 0"
  by (simp_all add: loop_rank_def worker_loop_def)

lemma loop_rank_marked [simp]: "loop_rank env n tdo t (mark_discarded ph) = loop_rank env n tdo t ph"
  by (cases ph) (simp_all add: mark_discarded_def split: option.split)

lemma loop_rank_other [simp]: "u \<noteq> t \<Longrightarrow> loop_rank env n (tdo(t := v)) u ph = loop_rank env n tdo u ph"
  by (simp add: loop_rank_def cong: phase.case_cong)

lemma listers_rank_goto:
  assumes "in_phase s t ph" and "threads s' = threads s" and "exec_tasks (exc s') = exec_tasks (exc s)"
    and "\<And>u p. u \<noteq> t \<Longrightarrow> loop_rank env n tdo' u p = loop_rank env n tdo u p"
  shows "listers_rank env n tdo' (goto s' t ph') + loop_rank env n tdo t ph =
    listers_rank env n tdo s + loop_rank env n tdo' t ph'"
  using thread_sum_goto [OF assms(1,2), of "loop_rank env n tdo'" "loop_rank env n tdo" ph'] assms(3,4)
  by (simp add: listers_rank_def)

lemma listers_rank_lower:
  assumes "in_phase s t ph" and "threads s' = threads s" and "exec_tasks (exc s') = exec_tasks (exc s)"
    and "loop_rank env n tdo t ph' \<le> loop_rank env n tdo t ph"
  shows "listers_rank env n tdo (goto s' t ph') \<le> listers_rank env n tdo s"
  using listers_rank_goto [OF assms(1-3), of env n tdo tdo ph'] assms(4) by simp

lemma listers_rank_step:
  assumes "x_step syms (listing env work {}) coll s s'" and "x_inv s" and "taken_in s' = taken_in s"
    and "todo_ok env tdo s"
  shows "listers_rank env n tdo s' \<le> listers_rank env n tdo s"
  using assms
proof (induction rule: x_step.induct)
  case (dispatches coladdr dat k s wrk timeout r exc')
  then have "exec_tasks exc' = exec_tasks (exc s)"
    using dispatch_law(4) [OF x_invD(5) [OF dispatches(4)] dispatches(3,2)] by (auto split: if_splits)
  then show ?case by (simp add: listers_rank_def)
next
  case (stop_one s r exc')
  then have "exec_tasks exc' = exec_tasks (exc s)"
    using put_law(2) [OF x_invD(5) [OF stop_one(2)] stop_one(1) [unfolded executor_stop_worker_def] stop_task_ok]
    by (auto split: if_splits)
  then show ?case by (simp add: listers_rank_def)
next
  case (fetches s t rb bs rb')
  let ?s = "s\<lparr>exc := (exc s)\<lparr>ex_tasks := Some rb'\<rparr>\<rparr>"
  have "thread_sum (loop_rank env n tdo) (threads (goto ?s t (Got (task_of_bytes bs)))) =
      thread_sum (loop_rank env n tdo) (threads s) + lister_rank env n (task_of_bytes bs)"
    using thread_sum_goto [OF fetches(1), of ?s "loop_rank env n tdo" "loop_rank env n tdo" "Got (task_of_bytes bs)"] by simp
  then show ?case using fetch_law(2) [OF x_invD(5) [OF fetches(4)] fetches(2,3)] by (simp add: listers_rank_def)
next
  case (set_current s t td)
  then have "tdo t = None" by (auto intro: todo_none)
  then show ?case by (intro listers_rank_lower [OF set_current(1)]) simp_all
next
  case (arms s t td ident)
  show ?case by (rule listers_rank_lower [OF arms(1)]) simp_all
next
  case (works s t td r)
  show ?case by (rule listers_rank_lower [OF works(1)]) simp_all
next
  case (clear_current s t td r)
  show ?case by (rule listers_rank_lower [OF clear_current(1)]) simp_all
next
  case (cancels s t td r)
  show ?case by (rule listers_rank_lower [OF cancels(1)]) simp_all
next
  case (collects s t td r c)
  show ?case by (rule listers_rank_lower [OF collects(1)]) simp_all
next
  case (fires s ident w)
  show ?case by (simp add: listers_rank_def)
next
  case (marks s w t)
  then have "in_phase s t (phase (threads s ! t))" using current_thread by (simp add: in_phase_def)
  then show ?case by (rule listers_rank_lower) simp_all
next
  case (replaces s w rc r exc')
  then have "w < ex_workers_count (exc s)" using x_invD(1) by (auto simp: shape_inv_def)
  from replace_law(2) [OF x_invD(5) [OF replaces(3)] this replaces(2)] show ?case
    by (simp add: listers_rank_def thread_sum_app)
qed

lemma list_step_rank:
  assumes "list_step env rd L L'" and "cx_executor (vd_ctx (daemon L)) = exc (sys L)" and "x_inv (sys L)"
    and "sampler_symbols env syms"
  shows "l_rank env L' < l_rank env L"
proof -
  have n: "listed_count env (vd_ctx (daemon L')) = listed_count env (vd_ctx (daemon L))"
    using list_step_ctx [OF assms(1)] by (auto simp: listed_count_def)
  define n where "n = listed_count env (vd_ctx (daemon L))"
  from assms(1) show ?thesis
  proof cases
    case (lists t td ret domains)
    have "thread_sum (loop_rank env n (todo L')) (threads (sys L)) < thread_sum (loop_rank env n (todo L)) (threads (sys L))"
      using thread_sum_local [OF lists(2), of "loop_rank env n (todo L')" "loop_rank env n (todo L)"] lists
      by (simp add: lister_rank_def n_def listed_count_def)
    then show ?thesis using lists(1) by (simp add: l_rank_def listers_rank_def n_def)
  next
    case (fails t td ret domains)
    have "x_rank (sys L') < x_rank (sys L)"
      using rank_goto [OF fails(2) refl refl, of "Returned td ret"] fails(1) by simp
    moreover have "listers_rank env n (todo L) (sys L') \<le> listers_rank env n (todo L) (sys L)"
      using listers_rank_lower [OF fails(2) refl refl, of env n "todo L" "Returned td ret"] fails(1) by simp
    ultimately show ?thesis using fails(1) by (simp add: l_rank_def n_def)
  next
    case (returns t td err)
    have "x_rank (sys L') < x_rank (sys L)"
      using rank_goto [OF returns(2) refl refl, of "Returned td err"] returns(1) by simp
    moreover have "listers_rank env n (todo L') (sys L') \<le> listers_rank env n (todo L) (sys L)"
      using listers_rank_goto [OF returns(2) refl refl, of env n "todo L'" "todo L" "Returned td err"] returns(1) by simp
    ultimately show ?thesis using returns(1) by (simp add: l_rank_def n_def)
  next
    case (sends t td dm domains err0 vreq err ctx)
    note sym = sampler_symbolsD [OF assms(4)]
    let ?task = "request_task env (cx_conf (vd_ctx (daemon L))) (sample_domain_work_addr env) vreq"
    have task: "lister_rank env n ?task = 0"
      using sym by (simp add: lister_rank_def is_lister_def request_task_fields)
    have "exec_wf (cx_executor (vd_ctx (daemon L)))" using x_invD(5) [OF assms(3)] assms(2) by simp
    from dispatch_request_law [OF this sym(1), of "sample_domain_work_addr env" vreq] sends(6)
    have tasks: "exec_tasks (cx_executor ctx) = exec_tasks (exc (sys L)) \<or>
        exec_tasks (cx_executor ctx) = exec_tasks (exc (sys L)) @ [?task]"
      using assms(2) by (auto split: if_splits)
    have "thread_sum (loop_rank env n (todo L')) (threads (sys L)) + 12 = thread_sum (loop_rank env n (todo L)) (threads (sys L))"
      using thread_sum_local [OF sends(2), of "loop_rank env n (todo L')" "loop_rank env n (todo L)"] sends(1,4) by simp
    then show ?thesis
      using tasks task sends(1) n by (auto simp: l_rank_def listers_rank_def x_rank_def n_def)
  qed
qed

section \<open>Runs\<close>

definition l_internal ::
    "('c, 'd) sampler_env \<Rightarrow> exec_symbols \<Rightarrow> (TaskData \<Rightarrow> int set) \<Rightarrow> (TaskData \<Rightarrow> int \<Rightarrow> bool \<Rightarrow> int set) \<Rightarrow>
     (byte list \<Rightarrow> 'd VmonRequest) \<Rightarrow> ('c, 'd, 'u) lsys \<Rightarrow> ('c, 'd, 'u) lsys \<Rightarrow> bool" where
  \<comment> \<open>a step of a worker, of a lister or of the scheduler\<close>
  "l_internal env syms work coll rd L L' \<longleftrightarrow>
     (\<exists>s. x_internal syms (listing env work {}) coll (sys L) s \<and> L' = l_run L s) \<or> list_step env rd L L'"

definition l_quiet ::
    "('c, 'd) sampler_env \<Rightarrow> exec_symbols \<Rightarrow> (TaskData \<Rightarrow> int set) \<Rightarrow> (TaskData \<Rightarrow> int \<Rightarrow> bool \<Rightarrow> int set) \<Rightarrow>
     (byte list \<Rightarrow> 'd VmonRequest) \<Rightarrow> ('c, 'd, 'u) lsys \<Rightarrow> bool" where
  "l_quiet env syms work coll rd L \<longleftrightarrow> (\<forall>L'. \<not> l_internal env syms work coll rd L L')"

definition domains_listed :: "('c, 'd) sampler_env \<Rightarrow> ('c, 'u) VmonContext \<Rightarrow> bool" where
  \<comment> \<open>libvirt returns as many domains as it says\<close>
  "domains_listed env ctx \<longleftrightarrow>
     (let (ret, domains) = vir_ConnectListAllDomains env (cx_conn ctx) (cx_flags ctx) in nat ret \<le> length domains)"

lemma l_internal_step:
  assumes "l_reach G env mem syms work coll rd di L" and "x_started (cx_executor (vd_ctx di))" and "sampler_symbols env syms"
    and "l_internal env syms work coll rd L L'"
  shows "l_reach G env mem syms work coll rd di L'" and "l_rank env L' < l_rank env L"
    and "accepted_lines L' = accepted_lines L"
proof -
  note linked = l_linked [OF assms(1-3)]
  have "l_reach G env mem syms work coll rd di L' \<and> l_rank env L' < l_rank env L \<and> accepted_lines L' = accepted_lines L"
    using assms(4) unfolding l_internal_def
  proof (elim disjE exE conjE)
    fix s
    assume x: "x_internal syms (listing env work {}) coll (sys L) s" and L': "L' = l_run L s"
    have st: "x_step syms (listing env work {}) coll (sys L) s" and tk: "taken_in s = taken_in (sys L)" and ne: "s \<noteq> sys L"
      using x by (simp_all add: x_internal_def)
    have "todo_ok env (todo L) (sys L)" using l_reach_inv [OF assms(1-3)] by (simp add: l_inv_def)
    from listers_rank_step [OF st linked(3) tk this] x_rank_step [OF st linked(3) tk] ne
    have "l_rank env (l_run L s) < l_rank env L"
      by (simp add: l_rank_def listed_count_def add_less_le_mono)
    with l_reach.threads_run [OF assms(1) st] show ?thesis by (simp add: L')
  next
    assume "list_step env rd L L'"
    with l_reach.lister_runs [OF assms(1) this] list_step_rank [OF this linked(1,3) assms(3)] show ?thesis
      by (auto elim: list_step.cases)
  qed
  then show "l_reach G env mem syms work coll rd di L'" "l_rank env L' < l_rank env L" "accepted_lines L' = accepted_lines L"
    by blast+
qed

lemma l_runs:
  assumes "(l_internal env syms work coll rd ^^ n) L L'" and "l_reach G env mem syms work coll rd di L"
    and "x_started (cx_executor (vd_ctx di))" and "sampler_symbols env syms"
  shows "n + l_rank env L' \<le> l_rank env L \<and> l_reach G env mem syms work coll rd di L' \<and> accepted_lines L' = accepted_lines L"
  using assms(1)
proof (induction n arbitrary: L')
  case (Suc n)
  then obtain M where M: "(l_internal env syms work coll rd ^^ n) L M" "l_internal env syms work coll rd M L'" by auto
  with Suc.IH [OF M(1)] l_internal_step [of G env mem syms work coll rd di M, OF _ assms(3,4) M(2)] show ?case by auto
qed (use assms(2) in simp)

section \<open>When no step is left\<close>

lemma lister_goes_on:
  assumes "in_phase (sys L) t (Working td)" and "is_lister env td" and "domains_listed env (vd_ctx (daemon L))"
    and "exec_wf (cx_executor (vd_ctx (daemon L)))" and "sampler_symbols env syms"
  shows "\<exists>L'. list_step env rd L L'"
proof (cases "todo L t")
  case None
  obtain ret doms where v: "vir_ConnectListAllDomains env (cx_conn (vd_ctx (daemon L))) (cx_flags (vd_ctx (daemon L))) = (ret, doms)"
    by (meson surj_pair)
  show ?thesis
  proof (cases "ret < 0")
    case True
    from list_step.fails [OF assms(1,2) None v True] show ?thesis by blast
  next
    case False
    with list_step.lists [OF assms(1,2) None v] assms(3) v show ?thesis by (auto simp: domains_listed_def)
  qed
next
  case (Some v)
  obtain doms e where v: "v = (doms, e)" by (cases v)
  show ?thesis
  proof (cases doms)
    case Nil
    with list_step.returns [OF assms(1,2)] Some v show ?thesis by blast
  next
    case (Cons dm ds)
    obtain err ctx where "dispatch_request env (vd_ctx (daemon L)) (sample_domain_work_addr env)
        ((task_request rd td)\<lparr>rq_dom := Some dm\<rparr>) = Some (err, ctx)"
      using dispatch_request_law [OF assms(4) sampler_symbolsD(1) [OF assms(5)]] by blast
    from list_step.sends [OF assms(1,2) _ refl this] Some v Cons show ?thesis by blast
  qed
qed

lemma x_step_no_lister:
  assumes "x_step syms (listing env work R) coll s s'" and "\<And>t td. in_phase s t (Working td) \<Longrightarrow> \<not> is_lister env td"
  shows "x_step syms (listing env work {}) coll s s'"
  using assms
proof (induction rule: x_step.induct)
  case (works s t td r)
  then have "r \<in> call_work syms (listing env work {}) td" by (auto simp: call_work_def listing_def split: if_splits)
  with works(1) show ?case by (rule x_step.works)
qed (rule x_step.intros; assumption)+

lemma l_quiet_threads:
  assumes "l_reach G env mem syms work coll rd di L" and "x_started (cx_executor (vd_ctx di))" and "sampler_symbols env syms"
    and "l_quiet env syms work coll rd L" and "domains_listed env (vd_ctx di)"
  shows "x_quiet syms (listing env work UNIV) coll (sys L)"
proof -
  note linked = l_linked [OF assms(1-3)]
  obtain x where "vd_ctx (daemon L) = (vd_ctx di)\<lparr>cx_executor := x\<rparr>" using l_reach_ctx [OF assms(1)] by blast
  then have d: "domains_listed env (vd_ctx (daemon L))" using assms(5) by (simp add: domains_listed_def)
  have no: "\<not> is_lister env td" if "in_phase (sys L) t (Working td)" for t td
  proof
    assume "is_lister env td"
    from lister_goes_on [OF that this d _ assms(3)] x_invD(5) [OF linked(3)] linked(1) assms(4) show False
      by (auto simp: l_quiet_def l_internal_def)
  qed
  have "x_step syms (listing env work {}) coll (sys L) s" if "x_step syms (listing env work UNIV) coll (sys L) s" for s
    by (rule x_step_no_lister [OF that no])
  then show ?thesis
    using assms(4) unfolding x_quiet_def x_internal_def l_quiet_def l_internal_def by blast
qed

lemma l_drained:
  assumes "l_reach G env mem syms work coll rd di L" and "x_started (cx_executor (vd_ctx di))" and "sampler_symbols env syms"
    and "l_quiet env syms work coll rd L" and "domains_listed env (vd_ctx di)" and "\<not> null_race (sys L)"
    and "\<forall>td. work td \<noteq> {}" and "\<forall>td e t. coll td e t = {0}"
    and "length (filter (stop_collect syms) (taken_in (sys L))) < ex_workers_count (exc (sys L))"
  shows "mset (map (base \<circ> fst) (collected (sys L))) = mset (map base (taken_in (sys L)))"
    and "mset (sent L) + mset (map fst (errors L)) = sum_list (map (dues env (vd_ctx di) rd \<circ> fst) (collected (sys L)))"
proof -
  note linked = l_linked [OF assms(1-3)]
  note quiet = l_quiet_threads [OF assms(1-5)]
  have work: "listing env work UNIV td \<noteq> {}" for td using assms(7) by (simp add: listing_def)
  have coll: "coll td e d \<noteq> {}" for td e d using assms(8) by simp
  have "exited (threads (sys L)) < length (threads (sys L))"
    by (rule alive_without_stops [OF linked(4) assms(2) _ assms(9)]) (simp add: assms(8))
  from quiet_collected(3) [OF quiet linked(3) assms(6) work coll this]
  show "mset (map (base \<circ> fst) (collected (sys L))) = mset (map base (taken_in (sys L)))" .
  have "phase (threads (sys L) ! t) = Getting \<or> phase (threads (sys L) ! t) = Exited" if "t < length (threads (sys L))" for t
    using quiet_threads [OF quiet quiet_scheduler(2) [OF quiet linked(3) assms(6)] that work coll] .
  then have "thread_sum f (threads (sys L)) = {#}" if "\<And>t. f t Getting = {#}" "\<And>t. f t Exited = {#}"
    for f :: "nat \<Rightarrow> phase \<Rightarrow> 'd VmonRequest multiset"
    using that by (intro thread_sum_zero) metis
  from this [of "pending_work rd (todo L)"] this [of "begun env (vd_ctx di) rd (todo L)"] l_reach_inv [OF assms(1-3)]
  show "mset (sent L) + mset (map fst (errors L)) = sum_list (map (dues env (vd_ctx di) rd \<circ> fst) (collected (sys L)))"
    by (simp add: l_inv_def account_def)
qed

lemma list_step_race: "list_step env rd L L' \<Longrightarrow> cx_executor (vd_ctx (daemon L)) = exc (sys L) \<Longrightarrow> x_inv (sys L) \<Longrightarrow>
    sampler_symbols env syms \<Longrightarrow> null_race (sys L') = null_race (sys L)"
proof (induction rule: list_step.induct)
  case (sends L t td dm domains err0 vreq err ctx)
  have wf: "exec_wf (exc (sys L))" using x_invD(5) sends by blast
  have d: "executor_dispatch (exc (sys L)) (sample_domain_work_addr env) (sampling_collect_addr env) (req_image env vreq)
      sizeof_VmonRequest (cf_timeout (cx_conf (vd_ctx (daemon L)))) = Some (err, cx_executor ctx)"
    using sends(5,6) by (auto simp: dispatch_request_def)
  from current_same_workers [OF dispatch_law(2) [OF wf d sampler_symbolsD(1) [OF sends(8)]]] show ?case
    by (simp add: null_race_def)
qed (simp_all add: null_race_def)

lemma l_ends:
  assumes "l_reach G env mem syms work coll rd di L" and "x_started (cx_executor (vd_ctx di))" and "sampler_symbols env syms"
    and "\<not> null_race (sys L)"
  obtains n L' where "(l_internal env syms work coll rd ^^ n) L L'" "l_quiet env syms work coll rd L'" "\<not> null_race (sys L')"
proof -
  from assms(1,4) have "\<exists>n L'. (l_internal env syms work coll rd ^^ n) L L' \<and> l_quiet env syms work coll rd L' \<and>
      \<not> null_race (sys L')"
  proof (induction "l_rank env L" arbitrary: L rule: less_induct)
    case less
    note linked = l_linked [OF less.prems(1) assms(2,3)]
    show ?case
    proof (cases "l_quiet env syms work coll rd L")
      case True
      then show ?thesis using less.prems by (intro exI [of _ 0] exI [of _ L]) simp
    next
      case False
      have "\<exists>M. l_internal env syms work coll rd L M \<and> \<not> null_race (sys M)"
      proof (cases "x_quiet syms (listing env work {}) coll (sys L)")
        case True
        then obtain M where "list_step env rd L M"
          using False by (auto simp: l_quiet_def l_internal_def x_quiet_def)
        with list_step_race [OF this linked(1,3) assms(3)] less.prems(2) show ?thesis by (auto simp: l_internal_def)
      next
        case False
        from safe_step [OF less.prems(2) False] show ?thesis by (metis l_internal_def l_simps(13))
      qed
      then obtain M where M: "l_internal env syms work coll rd L M" "\<not> null_race (sys M)" by blast
      note step = l_internal_step [OF less.prems(1) assms(2,3) M(1)]
      from less.hyps [OF step(2,1) M(2)] obtain n L' where "(l_internal env syms work coll rd ^^ n) M L'"
          "l_quiet env syms work coll rd L'" "\<not> null_race (sys L')"
        by blast
      with relpowp_Suc_I2 [of "l_internal env syms work coll rd", OF M(1)] show ?thesis by blast
    qed
  qed
  then show thesis using that by blast
qed

section \<open>Errors and stops\<close>

lemma list_step_errors:
  assumes "list_step env rd L L'" and "(v, e) \<in> set (errors L')" and "exec_wf (cx_executor (vd_ctx (daemon L)))"
    and "sampler_symbols env syms"
  shows "(v, e) \<in> set (errors L) \<or> e = -1 \<or>
    e < 0 \<and> e = fst (vir_ConnectListAllDomains env (cx_conn (vd_ctx (daemon L))) (cx_flags (vd_ctx (daemon L))))"
  using assms(1)
proof cases
  case (sends t td dm domains err0 vreq err ctx)
  with dispatch_request_law [OF assms(3) sampler_symbolsD(1) [OF assms(4)], of "sample_domain_work_addr env" vreq] assms(2)
  show ?thesis by (auto split: if_splits)
qed (use assms(2) in auto)

lemma l_reach_errors:
  assumes "l_reach G env mem syms work coll rd di L" and "x_started (cx_executor (vd_ctx di))" and "sampler_symbols env syms"
    and "(v, e) \<in> set (errors L)"
  shows "e = -1 \<or> e < 0 \<and> e = fst (vir_ConnectListAllDomains env (cx_conn (vd_ctx di)) (cx_flags (vd_ctx di)))"
  using assms(1,4)
proof induction
  case (lister_runs L L')
  note linked = l_linked [OF lister_runs(1) assms(2,3)]
  have "exec_wf (cx_executor (vd_ctx (daemon L)))" using x_invD(5) [OF linked(3)] linked(1) by simp
  from list_step_errors [OF lister_runs(2,4) this assms(3)] lister_runs(3) l_reach_ctx [OF lister_runs(1)] show ?case by auto
qed simp_all

lemma internal_stops: "x_internal syms work coll s s' \<Longrightarrow> stops s' = stops s"
proof -
  assume i: "x_internal syms work coll s s'"
  then have "x_step syms work coll s s'" "taken_in s' = taken_in s" by (simp_all add: x_internal_def)
  then show ?thesis by (induction rule: x_step.induct) (auto split: if_splits)
qed

lemma l_runs_stops:
  assumes "(l_internal env syms work coll rd ^^ n) L L'"
  shows "stops (sys L') = stops (sys L)"
  using assms
proof (induction n arbitrary: L')
  case (Suc n)
  then obtain M where M: "(l_internal env syms work coll rd ^^ n) L M" "l_internal env syms work coll rd M L'" by auto
  have "stops (sys L') = stops (sys M)"
    using M(2) internal_stops unfolding l_internal_def by (auto elim!: list_step.cases simp: queued_def)
  with Suc.IH [OF M(1)] show ?case by simp
qed simp

lemma l_runs_alive:
  assumes "(l_internal env syms work coll rd ^^ n) L L'" and "l_reach G env mem syms work coll rd di L"
    and "x_started (cx_executor (vd_ctx di))" and "sampler_symbols env syms" and "\<forall>td e t. coll td e t = {0}"
    and "length (filter (stop_collect syms) (taken_in (sys L))) < ex_workers_count (exc (sys L))"
  shows "length (filter (stop_collect syms) (taken_in (sys L'))) < ex_workers_count (exc (sys L'))"
proof -
  have reach: "x_reach syms (listing env work UNIV) coll (cx_executor (vd_ctx di)) (sys L)"
    "x_reach syms (listing env work UNIV) coll (cx_executor (vd_ctx di)) (sys L')"
    using l_linked(4) [OF assms(2-4)] l_linked(4) [OF conjunct1 [OF conjunct2 [OF l_runs [OF assms(1-4)]]] assms(3,4)] .
  have stop: "stop_inv syms s" if "x_reach syms (listing env work UNIV) coll (cx_executor (vd_ctx di)) s" for s
    by (rule x_reach_stop [OF that]) (use assms(3,5) in \<open>simp_all add: x_started_def\<close>)
  from stop [OF reach(1)] stop [OF reach(2)] l_runs_stops [OF assms(1)] assms(6)
    workers_count_reach [OF reach(1) assms(3)] workers_count_reach [OF reach(2) assms(3)]
  show ?thesis by (simp add: stop_inv_def)
qed

end
