(* ===== verification/Spec2Isabelle.thy ===== *)
theory Spec2Isabelle
  imports Ring_Buffer_Threads Threading Session Response_Json Jsmn_Examples Lister_Progress
begin

text \<open>
  Verification of vmon, a daemon that samples the statistics of the virtual machines of a host
  through libvirt. A request is a line of JSON on the standard input (or a tick of a timer); the
  answers are JSON on the standard output. Paths are below \<^verbatim>\<open>src/\<close>.

  \<^bold>\<open>How the parts work together.\<close> \<^verbatim>\<open>main\<close> (\<^verbatim>\<open>src/vmon.c\<close>) reads the configuration, connects to libvirt and
  starts a scheduler and an executor. The input callback (\<^verbatim>\<open>src/vmon_int.c\<close>) passes each line to the
  sampler (\<^verbatim>\<open>src/sampler.c\<close>), which tokenizes it with jsmn (\<^verbatim>\<open>contrib/jsmn/jsmn.c\<close>), reads the request
  out of the tokens and dispatches a task to the executor (\<^verbatim>\<open>lib/executor.c\<close>). The executor keeps its
  tasks in a ring buffer of bytes (\<^verbatim>\<open>lib/ringbuffer.c\<close>), from which its worker threads take them; a
  task has a work function, a collect function and a time-out, for which the worker adds a timer to
  the scheduler (\<^verbatim>\<open>lib/scheduler.c\<close>). The task of the lister dispatches one more task for each domain.
  The tasks that sample call libvirt; their collect function parses each record into a
  \<^verbatim>\<open>VmInfo\<close> (\<^verbatim>\<open>lib/vminfo_parse.c\<close>), sends the events (\<^verbatim>\<open>lib/vminfo.c\<close>), prints it
  (\<^verbatim>\<open>lib/vminfo_print.c\<close>) and releases it.

  \<^bold>\<open>The theories,\<close> from the bottom up:

  \<^item> \<open>Vmon_Prelude\<close>: the C integers (\<open>guint\<close>, \<open>ull\<close>, conversion to \<^verbatim>\<open>int\<close>, division that truncates)
    and byte-addressed memory; \<open>C_String\<close>: the string functions of the C library that the sources use.
  \<^item> \<open>Bounded_Queue\<close>: the interface of a bounded queue, a locale with one law for each operation, and what
    follows from the laws for every history of operations.
  \<^item> \<open>Ring_Buffer\<close>: every function of \<^verbatim>\<open>lib/ringbuffer.c\<close> on a record with its fields and the block of
    slots as a list of bytes. Put and get are correct on every branch and stay inside the
    block; the buffer is an interpretation of \<open>bounded_queue\<close>, which gives the refinement of a list. Also
    shown: \<^verbatim>\<open>ringbuffer_clear\<close> does not empty a buffer, and the \<^verbatim>\<open>int\<close> offset of a slot wraps.
    \<open>Ring_Buffer_Threads\<close>: any number of threads on one buffer, as a step relation; delivery is
    first-in first-out, and no wake-up is lost.
  \<^item> \<open>Threading\<close>: the event and \<^verbatim>\<open>timespec_addms\<close> of \<^verbatim>\<open>lib/threading.c\<close>: deadlines are exact; an event never
    loses the wake-up of a single waiter, but strands one of two.
  \<^item> \<open>Scheduler\<close>: \<^verbatim>\<open>lib/scheduler.c\<close>, over the calls of GLib as a record of functions (\<open>glib\<close>) with their
    documented behaviour as the predicate \<open>glib_doc\<close>. Adding and deleting a task cancels
    it on the default context; on a standalone scheduler the deletion misses it.
  \<^item> \<open>Task_Data\<close>: the memory of a \<^verbatim>\<open>TaskData\<close> (128 bytes, 88 of them for the caller's data) and the
    locale of a queue of encoded items, with an interpretation on the ring buffer. \<open>Executor\<close>: every function of
    \<^verbatim>\<open>lib/executor.c\<close> that the client calls, with what each does to the list of queued tasks.
    \<open>Executor_Threads\<close>: the worker threads, cut at their accesses to the shared worker structure, with the
    scheduler thread that discards late tasks, as a step relation. Every accepted task is held or
    collected exactly once; a late task is discarded only while it lives, but the pointer to it can become
    NULL between test and write; a replaced worker is never ended. \<open>Executor_Results\<close>: a collect function is called
    with what its own task's work function returned and with the mark of its own task. \<open>Executor_Progress\<close>: a rank that every step
    without a new task lowers, so the accepted tasks are all collected after a bounded number of steps.
  \<^item> \<open>Jsmn\<close>: the tokenizer, function by function. Loops are functions with a termination proof, so no
    fuel is needed anywhere. The tokens of a successful parse are well formed and their children stay
    inside the array; each error means what it says; counting agrees with parsing.
    \<open>Jsmn_Json\<close>: a grammar of JSON texts (strings with their escapes, which nothing decodes); for every text of a value the tokenizer yields
    exactly the tokens of that value. \<open>Jsmn_Resume\<close>: after \<open>NOMEM\<close>, going on with a bigger array gives what the bigger array
    would have given at once. \<open>Jsmn_Examples\<close>: \<^verbatim>\<open>jsondump.c\<close> and \<^verbatim>\<open>simple.c\<close>, whose loop that doubles the array
    ends, and which prints every JSON text it reads in one chunk.
  \<^item> \<open>Sampler_Request\<close>: the request parser. It never reads a token that was not filled, whatever
    the bytes, except for the \<open>tokens[-1]\<close> of jsmn; what it accepts as a name, an identifier and a list of names.
    \<open>Request_Json\<close>: the meaning of a request as a JSON object, and that parsing any text of it computes that meaning.
  \<^item> \<open>Vminfo\<close>: the records of \<^verbatim>\<open>lib/vminfo.h\<close>, their release (a pointer is NULL, a block or freed) and
    the events. \<open>Vminfo_Parse\<close>: the parser of libvirt's parameters; the locale \<open>device_fields\<close> states the
    contract of the three parsers of device fields, is interpreted on each, and gives that none of
    them ever gets a field. \<open>Vminfo_Print\<close>: the output, entry by entry.
  \<^item> \<open>Sampler\<close>: the tasks of \<^verbatim>\<open>src/sampler.c\<close> and the dispatch of requests, over libvirt, libuuid, the clock
    and \<^verbatim>\<open>write\<close> as the record \<open>sampler_env\<close>. \<open>Json_Commas\<close>: an automaton that reads a text
    byte by byte and finds the comma before a closing brace, which no text of a JSON value has. \<open>Response_Json\<close>: an error
    answer is one line of JSON; the answer to a record is a stream of JSON values exactly when the machine has no
    interface or only events are asked for (the entry of an interface ends in a comma too many).
  \<^item> \<open>Vmon\<close>: log, input callback, polling, command line, configuration and \<^verbatim>\<open>main\<close>. \<open>Session\<close>: any sequence of reads given to the input
    callback. Each line queues one task with the request the line means, and whatever the bytes, the only undefined
    behaviour is the \<open>tokens[-1]\<close> of the tokenizer. \<open>Daemon\<close>: the callbacks of the main loop interleaved with the threads of
    the executor, on the queue they share, and what the collected tasks have written.
  \<^item> \<open>Lister_Threads\<close>: the mode without bulk sampling, where the work function of a task (\<^verbatim>\<open>list_domains_work\<close>) dispatches tasks
    itself: its steps on a worker thread, between those of the main loop and the other threads. Undisturbed they are the function; and
    every domain a lister has listed is at any time sent, reported as an error, or still to come. \<open>Lister_Progress\<close>: a rank that these
    steps lower, too, although they queue tasks.
  \<^item> This theory joins the parts. Sampling for a line writes the answers to it; and in the daemon with its threads, in either mode,
    only so many further steps are possible as the rank says, after which the output holds, for each accepted line (and each domain,
    without bulk sampling), its answers or a line with the error or the time-out, in buffers of its own.

  \<^bold>\<open>Conventions.\<close> A definition has the name of the function, a record field that of the C field, with a
  prefix of its structure. A function that changes a structure returns the changed one; the result of the C function comes first.
  \<open>None\<close> is undefined behaviour: an access out of bounds or through NULL, a double free. What memory
  allocation, pthread, GLib, libvirt and libuuid return is an argument, and so is the set of results of
  the functions that the users of the executor pass. The integers are kept at their width where the code can
  reach it: counters and flags are words, offsets are converted to \<^verbatim>\<open>int\<close>. Arithmetic on \<^verbatim>\<open>int\<close> that can overflow (the threshold
  of the block event, the period of the polling in milliseconds), which C leaves undefined, wraps, as the compiler's code
  does. Within a run libvirt's answer is a function of the call (one \<open>sampler_env\<close>). A critical section is one step, and a
  call is cut where it waits or where it accesses shared memory without a lock.

  \<^bold>\<open>Bounds.\<close> A queue has at most \<open>INT_MAX\<close> bytes (\<open>sz * n \<le> INT_MAX\<close>), which is where the offsets begin to wrap. Positions
  in a request are natural numbers: a line is shorter than \<open>2^31\<close> bytes. The memory image of a task is
  that of a little-endian target with 64-bit pointers.

  \<^bold>\<open>Termination.\<close> No model has fuel. Loops are structural recursion, or recursion with a measure; the loop of jsondump that
  repeats the tokenizer could run for ever, so it is a partial function, and that it returns is a theorem. The worker threads are
  a step relation, whose runs between two accepted tasks are bounded by \<open>x_rank\<close>, with listers by \<open>l_rank\<close>.

  \<^bold>\<open>Not modelled:\<close> the texts of the log messages of sampler and executor; the debug dump of the ring buffer and how
  \<^verbatim>\<open>GOption\<close> splits the command line (parameters: the options it reports are stored, in order, as its documentation says);
  \<^verbatim>\<open>ringbuffer_free\<close>, \<^verbatim>\<open>scheduler_free\<close> and \<^verbatim>\<open>vmon_init\<close>, which only free a block or do nothing with a current
  GLib; the strict mode and the parent links of jsmn (not compiled in); \<^verbatim>\<open>jsmn_test.c\<close>, the tests, the build files.
\<close>

section \<open>From a line of input to its answers\<close>

lemma collected_answers:
  assumes "\<forall>n sz. calloc_ok env n sz" and "uuid_text (uuid_unparse env (sr_uuid (rq_sr req)))"
    and "\<forall>r \<in> set rs. vir_DomainGetUUIDString env (rec_dom r) = Some (u r) \<and> uuid_text (u r) \<and>
      last_ul ''net.count'' 0 (rec_params r) = 0"
  shows "\<exists>outs. sampling_collect env ctx (req\<lparr>rq_records := rs, rq_records_num := int (length rs)\<rparr>) 0 False =
      Some (0, ctx\<lparr>cx_out := cx_out ctx @ map (written env) outs\<rparr>) \<and>
    list_all2 (\<lambda>r. stream (answers env (cx_conf ctx) req (u r) (rec_params r))) rs outs"
proof -
  let ?req = "req\<lparr>rq_records := rs, rq_records_num := int (length rs)\<rparr>"
  let ?outs = "map (record_response env (cx_conf ctx) req) rs"
  have "rq_sr ?req = rq_sr req" by simp
  then have same: "record_response env cf ?req r = record_response env cf req r" for cf r
    by (simp only: record_response_def)
  have "sampling_collect env ctx ?req 0 False = Some (0, ctx\<lparr>cx_out := cx_out ctx @ map (written env) ?outs\<rparr>)"
    using collect_loop_ok [of env ?req 0 "length rs" "response_init env" ctx] assms(1,3)
    by (auto simp: sampling_collect_def collect_success_def response_init_def same comp_def)
  moreover have "stream (answers env (cx_conf ctx) req (u r) (rec_params r)) (record_response env (cx_conf ctx) req r)"
    if "r \<in> set rs" for r
    using record_answer_stream assms that by blast
  ultimately show ?thesis by (intro exI [of _ ?outs]) (simp add: list_all2_conv_all_nth)
qed

lemma collect_answers:
  assumes "\<forall>n sz. calloc_ok env n sz" and "uuid_text (uuid_unparse env (sr_uuid (rq_sr req)))"
    and "vir_DomainListGetStats env [rq_dom req, None] (sr_stats (rq_sr req)) = (int (length rs), rs)"
    and "\<forall>r \<in> set rs. vir_DomainGetUUIDString env (rec_dom r) = Some (u r) \<and> uuid_text (u r) \<and>
      last_ul ''net.count'' 0 (rec_params r) = 0"
  shows "\<exists>outs. sampling_collect env ctx (snd (bulk_sampling_work env ctx req)) 0 False =
      Some (0, ctx\<lparr>cx_out := cx_out ctx @ map (written env) outs\<rparr>) \<and>
    list_all2 (\<lambda>r. stream (answers env (cx_conf ctx) req (u r) (rec_params r))) rs outs"
  using collected_answers [OF assms(1,2,4)] assms(3) by (simp add: bulk_sampling_work_def)

text \<open>From a request to its answers, with bulk sampling: a line that spells a request is parsed into the identifier
  and the flags it names, libvirt is asked for exactly those statistics, and for each record it returns (of a machine without
  interfaces) collecting the task writes, in the order of the records, one buffer that is a stream of JSON values: the events, and
  the response with the request's own identifier and the values of that record.\<close>

lemma line_answered:
  assumes "request_line env mem ms line" and "\<forall>n sz. calloc_ok env n sz"
    and "uuid_text (uuid_unparse env (sr_uuid (rq_sr (line_request env ms))))"
    and "vir_DomainListGetStats env [None, None] (sr_stats (rq_sr (line_request env ms))) = (int (length rs), rs)"
    and "\<forall>r \<in> set rs. vir_DomainGetUUIDString env (rec_dom r) = Some (u r) \<and> uuid_text (u r) \<and>
      last_ul ''net.count'' 0 (rec_params r) = 0"
  shows "sampler_parse_request (lv_consts env) (uuid_parse env) mem line (length line) = Some (0, rq_sr (line_request env ms)) \<and>
    (\<exists>outs. sampling_collect env ctx (snd (bulk_sampling_work env ctx (line_request env ms))) 0 False =
        Some (0, ctx\<lparr>cx_out := cx_out ctx @ map (written env) outs\<rparr>) \<and>
      list_all2 (\<lambda>r. stream (answers env (cx_conf ctx) (line_request env ms) (u r) (rec_params r))) rs outs)"
proof -
  have "rq_dom (line_request env ms) = None" by (simp add: line_request_def req_zero_def)
  then have "vir_DomainListGetStats env [rq_dom (line_request env ms), None] (sr_stats (rq_sr (line_request env ms))) =
      (int (length rs), rs)"
    using assms(4) by simp
  from collect_answers [OF assms(2,3) this assms(5)] request_line_parse [OF assms(1)] show ?thesis
    by (simp add: line_request_def)
qed

definition env1 :: "(unit, nat) sampler_env" where
  \<comment> \<open>sampling finds one machine\<close>
  "env1 = env0\<lparr>vir_DomainListGetStats := (\<lambda>ds st. (1, [record0]))\<rparr>"

lemma line_answered_example:
  "\<exists>out. sampling_collect env1 ctx0 (snd (bulk_sampling_work env1 ctx0 (line_request env1 ex_members))) 0 False =
      Some (0, ctx0\<lparr>cx_out := [written env1 out]\<rparr>) \<and>
    stream (answers env1 (cx_conf ctx0) (line_request env1 ex_members) ''d'' (rec_params record0)) out"
proof -
  have 1: "request_line env1 mem0 ex_members one_line"
    using one_line_request by (simp add: request_line_def env1_def)
  have 2: "\<forall>n sz. calloc_ok env1 n sz" "uuid_text (uuid_unparse env1 (sr_uuid (rq_sr (line_request env1 ex_members))))"
    by (simp_all add: env1_def env0_def uuid_text_def)
  have 3: "vir_DomainListGetStats env1 [None, None] (sr_stats (rq_sr (line_request env1 ex_members))) =
      (int (length [record0]), [record0])"
    by (simp add: env1_def)
  have 4: "\<forall>r \<in> set [record0]. vir_DomainGetUUIDString env1 (rec_dom r) = Some ((\<lambda>_. ''d'') r) \<and> uuid_text ((\<lambda>_. ''d'') r) \<and>
      last_ul ''net.count'' 0 (rec_params r) = 0"
    by (simp add: env1_def env0_def uuid_text_def record0_def)
  have o: "cx_out ctx0 = []" by (simp add: ctx0_def)
  from line_answered [OF 1 2 3 4, of ctx0] show ?thesis by (auto simp: o list_all2_Cons1)
qed

section \<open>The daemon and its threads\<close>

lemma text_task_line: "request_line env mem ms line \<Longrightarrow> text_task env cf mem line = line_task env cf ms"
  by (simp add: text_task_def line_task_def line_request_def request_line_parse del: One_nat_def)

lemma text_task_lines:
  "list_all2 (request_line env mem) mss acc \<Longrightarrow> map (text_task env cf mem) acc = map (line_task env cf) mss"
  by (induction rule: list_all2_induct) (simp_all add: text_task_line)

text \<open>Every accepted request is served, with and without bulk sampling: after a bounded number of steps of the threads the collect
  function has been called once for the task of each accepted line, which is the task that carries its meaning.\<close>

lemma daemon_serves:
  assumes "x_started (cx_executor (vd_ctx di))" and "\<forall>r. length (req_image env r) = sizeof_VmonRequest"
    and "sampling_collect_addr env \<noteq> StopCollect_addr syms" and "\<forall>td. work td \<noteq> {}" and "\<forall>td e t. coll td e t = {0}"
    and "d_reach G env mem syms work coll di d s acc"
    and "length (filter (stop_collect syms) (taken_in s)) < ex_workers_count (exc s)"
    and "(x_internal syms work coll ^^ n) s s'" and "list_all2 (request_line env mem) mss acc"
  shows "n \<le> x_rank s \<and>
    (x_quiet syms work coll s' \<longrightarrow> null_race s' \<or>
      mset (map (line_task env (cx_conf (vd_ctx di))) mss) \<subseteq># mset (map (base \<circ> fst) (collected s')))"
proof -
  have l: "x_reach syms work coll (cx_executor (vd_ctx di)) s"
      "mset (map (text_task env (cx_conf (vd_ctx di)) mem) acc) \<subseteq># mset (map base (taken_in s))"
    using d_reach_linked [OF assms(6,1,2,3)] by (simp_all add: d_linked_def)
  note text_task_lines [OF assms(9)]
  with l drains [OF assms(1) l(1) assms(4,5,7,8)] show ?thesis by auto
qed

lemma one_line_read:
  assumes "request_line env mem ms line" and "\<not> vd_log_closed d" and "cx_executor (vd_ctx d) = ex_running_exec"
    and "\<forall>r. length (req_image env r) = sizeof_VmonRequest"
  obtains d' where "vmon_io_callback G0 env [] mem 1 (Read_Normal line) d = Some (True, d')"
proof -
  have facts: "exec_wf (cx_executor (vd_ctx d))" "ex_running (cx_executor (vd_ctx d))" "0 < exec_room (cx_executor (vd_ctx d))"
    using ex_running_started by (simp_all add: assms(3) x_started_def)
  obtain exc where h: "sampler_handle_request env (vd_ctx d) mem line (length line) = Some (0, (vd_ctx d)\<lparr>cx_executor := exc\<rparr>)"
    by (rule handle_line [OF assms(1) facts]) (use assms(4) in auto)
  with io_callback_cases [of d "Read_Normal line" env mem 0 "(vd_ctx d)\<lparr>cx_executor := exc\<rparr>" G0 "[]" 1] assms(2) that
  show thesis by auto
qed

lemma one_line_run:
  assumes line: "request_line env mem ms line" and log: "\<not> vd_log_closed d" and ex: "cx_executor (vd_ctx d) = ex_running_exec"
    and img: "\<forall>r. length (req_image env r) = sizeof_VmonRequest" and col: "sampling_collect_addr env \<noteq> StopCollect_addr syms0"
  obtains d' s n s' where "d_reach G0 env mem syms0 work0 coll0 d d' s [line]"
    "length (filter (stop_collect syms0) (taken_in s)) < ex_workers_count (exc s)"
    "(x_internal syms0 work0 coll0 ^^ n) s s'" "x_quiet syms0 work0 coll0 s'" "\<not> null_race s'"
proof -
  obtain d' where d': "vmon_io_callback G0 env [] mem 1 (Read_Normal line) d = Some (True, d')"
    by (rule one_line_read [OF line log ex img])
  define s where "s = queued (x_init (cx_executor (vd_ctx d))) d'"
  have r: "d_reach G0 env mem syms0 work0 coll0 d d' s [line]"
    using d_reach.reads [OF d_reach.begins d'] by (simp add: accepted_def s_def)
  have st: "x_started (cx_executor (vd_ctx d))" using ex_running_started by (simp add: ex)
  have xr: "x_reach syms0 work0 coll0 ex_running_exec s"
    using d_reach_linked [OF r st img col] by (simp add: d_linked_def ex)
  have inv: "x_inv s" by (rule x_inv_reach [OF xr ex_running_started])
  have "stop_inv syms0 s"
    by (rule x_reach_stop [OF xr]) (use ex_running_started in \<open>simp_all add: x_started_def coll0_def\<close>)
  moreover have "ex_workers_count (exc s) = ex_workers_count ex_running_exec"
    by (rule workers_count_reach [OF xr ex_running_started])
  moreover have stops: "stops s = 0" "sched s = S_Idle" by (simp_all add: s_def queued_def x_init_def)
  ultimately have no: "length (filter (stop_collect syms0) (taken_in s)) < ex_workers_count (exc s)"
    using ex_running_started by (simp add: stop_inv_def x_started_def)
  have "\<not> null_race s" using stops by (simp add: null_race_def)
  then obtain n s' where "(x_internal syms0 work0 coll0 ^^ n) s s'" "x_quiet syms0 work0 coll0 s'" "\<not> null_race s'"
    using internal_ends [OF inv] by metis
  with r no show thesis by (rule that)
qed

section \<open>The answers of the daemon\<close>

definition answered ::
    "('c, 'd) sampler_env \<Rightarrow> VmonConfig \<Rightarrow> ('d virDomainStatsRecord \<Rightarrow> string) \<Rightarrow> 'd virDomainStatsRecord list \<Rightarrow>
     'd VmonRequest \<Rightarrow> (int \<times> bool) set \<Rightarrow> string list \<Rightarrow> bool" where
  \<comment> \<open>the answers for each of the records, or one line with an error and time-out of the set\<close>
  "answered env cf u rs req faults outs \<longleftrightarrow> (\<exists>bufs. outs = map (written env) bufs \<and>
     (list_all2 (\<lambda>r. stream (answers env cf req (u r) (rec_params r))) rs bufs \<or>
      (\<exists>(err, late) \<in> faults. \<exists>t. bufs = [t @ [CHR 0x0A]] \<and> spells (response_json
         (uuid_unparse env (sr_uuid (rq_sr req))) (time_now env) (error_json (error_vm env req) err late)) t)))"

definition answerable ::
    "('c, 'd) sampler_env \<Rightarrow> ('d virDomainStatsRecord \<Rightarrow> string) \<Rightarrow> 'd virDomainStatsRecord list \<Rightarrow> 'd VmonRequest \<Rightarrow> bool" where
  \<comment> \<open>records of machines that libvirt knows, without interfaces\<close>
  "answerable env u rs req \<longleftrightarrow> uuid_text (uuid_unparse env (sr_uuid (rq_sr req))) \<and>
     (\<forall>r \<in> set rs. vir_DomainGetUUIDString env (rec_dom r) = Some (u r) \<and> uuid_text (u r) \<and>
        last_ul ''net.count'' 0 (rec_params r) = 0)"

definition samples ::
    "('c, 'd) sampler_env \<Rightarrow> ('d virDomainStatsRecord \<Rightarrow> string) \<Rightarrow> 'd virDomainStatsRecord list \<Rightarrow> 'd VmonRequest \<Rightarrow> bool" where
  \<comment> \<open>libvirt answers bulk sampling for the request with these records\<close>
  "samples env u rs req \<longleftrightarrow> vir_DomainListGetStats env [None, None] (sr_stats (rq_sr req)) = (int (length rs), rs) \<and>
     answerable env u rs req"

lemma line_request_dom: "rq_dom (line_request env ms) = None"
  by (simp add: line_request_def req_zero_def)

lemma error_answered:
  assumes "answerable env u rs req" and "uuid_text (error_vm env req)" and "time_now env < 2 ^ 64"
    and "\<bar>err\<bar> \<le> 2 ^ 31" and "(err, late) \<in> faults"
  shows "answered env cf u rs req faults [written env (error_response env req err late)]"
proof -
  have "uuid_text (uuid_unparse env (sr_uuid (rq_sr req)))" using assms(1) by (simp add: answerable_def)
  then obtain t where t: "error_response env req err late = t @ [CHR 0x0A]"
      "spells (response_json (uuid_unparse env (sr_uuid (rq_sr req))) (time_now env) (error_json (error_vm env req) err late)) t"
    using error_answer assms(2-4) by blast
  show ?thesis
    unfolding answered_def
    by (rule exI [of _ "[t @ [CHR 0x0A]]"]) (use t assms(5) in auto)
qed

lemma task_answered:
  assumes "td_collect td = sampling_collect_addr env"
    and "sampled_request env ctx rd td = req\<lparr>rq_records := rs, rq_records_num := int (length rs)\<rparr>"
    and "\<forall>n sz. calloc_ok env n sz" and "answerable env u rs req" and "uuid_text (error_vm env req)"
    and "time_now env < 2 ^ 64" and "(0, True) \<in> faults"
  shows "answered env (cx_conf ctx) u rs req faults (task_output env ctx rd (td, 0, late))"
proof (cases late)
  case False
  have u: "uuid_text (uuid_unparse env (sr_uuid (rq_sr req)))"
    and rs: "\<forall>r \<in> set rs. vir_DomainGetUUIDString env (rec_dom r) = Some (u r) \<and> uuid_text (u r) \<and>
      last_ul ''net.count'' 0 (rec_params r) = 0"
    using assms(4) by (simp_all add: answerable_def)
  from collected_answers [OF assms(3) u rs, of "ctx\<lparr>cx_out := []\<rparr>"] False assms(1,2) show ?thesis
    by (auto simp: task_output_def answered_def)
next
  case True
  have "error_response env (req\<lparr>rq_records := rs, rq_records_num := int (length rs)\<rparr>) 0 True = error_response env req 0 True"
    by (simp add: error_response_def)
  then have "task_output env ctx rd (td, 0, late) = [written env (error_response env req 0 True)]"
    using True assms(1,2) by (simp add: task_output_def sampling_collect_def collect_error_def write_response_def written_def)
  with error_answered [OF assms(4-6), of 0 True] assms(7) show ?thesis by simp
qed

lemma bulk_task_output:
  assumes td: "base td = line_task env (cx_conf ctx) ms" and bulk: "cf_bulk_sampling (cx_conf ctx)"
    and img: "length (req_image env (line_request env ms)) = sizeof_VmonRequest"
    and rd: "rd (req_image env (line_request env ms)) = line_request env ms"
    and alloc: "\<forall>n sz. calloc_ok env n sz" and smp: "samples env u rs (line_request env ms)" and time: "time_now env < 2 ^ 64"
  shows "answered env (cx_conf ctx) u rs (line_request env ms) {(0, True)} (task_output env ctx rd (td, 0, late))"
proof (rule task_answered [OF _ _ alloc _ _ time])
  have "td_work td = td_work (base td)" "td_collect td = td_collect (base td)" "td_data td = td_data (base td)"
    by (simp_all add: base_def)
  then have f: "td_work td = bulk_sampling_work_addr env" "task_request rd td = line_request env ms"
    and "td_collect td = sampling_collect_addr env"
    using request_task_fields [OF img] rd bulk by (simp_all add: td line_task_def task_request_def)
  then show "td_collect td = sampling_collect_addr env" by simp
  show "sampled_request env ctx rd td = (line_request env ms)\<lparr>rq_records := rs, rq_records_num := int (length rs)\<rparr>"
    using smp by (simp add: sampled_request_def f bulk_sampling_work_def samples_def line_request_dom)
  show "answerable env u rs (line_request env ms)" using smp by (simp add: samples_def)
  show "uuid_text (error_vm env (line_request env ms))" by (simp add: error_vm_def line_request_dom uuid_text_def)
qed simp


definition d1 :: "(unit, unit) VmonDaemon" where
  \<comment> \<open>with bulk sampling\<close>
  "d1 = d0\<lparr>vd_ctx := ctx0\<lparr>cx_conf := (cx_conf ctx0)\<lparr>cf_bulk_sampling := True\<rparr>\<rparr>\<rparr>"


section \<open>The answers without bulk sampling\<close>

definition reports ::
    "('c, 'd) sampler_env \<Rightarrow> ('c, 'u) VmonContext \<Rightarrow> ('d virDomainStatsRecord \<Rightarrow> string) \<Rightarrow> 'd virDomainStatsRecord list \<Rightarrow>
     'd VmonRequest \<Rightarrow> bool" where
  \<comment> \<open>libvirt answers the sampling of a domain for the request with these records\<close>
  "reports env ctx u rs req \<longleftrightarrow>
     vir_ConnectGetAllDomainStats env (cx_conn ctx) (sr_stats (rq_sr req)) = (int (length rs), rs) \<and> answerable env u rs req"

lemma domain_task_output:
  assumes td: "base td = request_task env (cx_conf ctx) (sample_domain_work_addr env) vreq" and sym: "sampler_symbols env syms"
    and rd: "rd (req_image env vreq) = vreq" and rs: "reports env ctx u rs vreq" and vm: "uuid_text (error_vm env vreq)"
    and "\<forall>n sz. calloc_ok env n sz" and "time_now env < 2 ^ 64" and "(0, True) \<in> faults"
  shows "answered env (cx_conf ctx) u rs vreq faults (task_output env ctx rd (td, 0, late))"
proof (rule task_answered [OF _ _ assms(6) _ vm assms(7,8)])
  note img = sampler_symbolsD(1) [OF sym, of vreq]
  have "td_work td = td_work (base td)" "td_collect td = td_collect (base td)" "td_data td = td_data (base td)"
    by (simp_all add: base_def)
  then have f: "td_work td = sample_domain_work_addr env" "task_request rd td = vreq"
    and "td_collect td = sampling_collect_addr env"
    using request_task_fields [OF img] rd by (simp_all add: td task_request_def)
  then show "td_collect td = sampling_collect_addr env" by simp
  show "sampled_request env ctx rd td = vreq\<lparr>rq_records := rs, rq_records_num := int (length rs)\<rparr>"
    using rs sampler_symbolsD(6) [OF sym] by (simp add: sampled_request_def f sample_domain_work_def reports_def)
  show "answerable env u rs vreq" using rs by (simp add: reports_def)
qed

definition domain_request :: "('c, 'd) sampler_env \<Rightarrow> (string \<times> json) list \<Rightarrow> 'd \<Rightarrow> 'd VmonRequest" where
  "domain_request env ms dm = (line_request env ms)\<lparr>rq_dom := Some dm\<rparr>"

lemma collected_dues:
  assumes "mset (map (line_task env (cx_conf ctx)) mss) \<subseteq># mset (map (base \<circ> fst) cs)" and "\<not> cf_bulk_sampling (cx_conf ctx)"
    and "sampler_symbols env syms"
    and "vir_ConnectListAllDomains env (cx_conn ctx) (cx_flags ctx) = (int (length ds), ds)"
    and "\<forall>ms \<in> set mss. rd (req_image env (line_request env ms)) = line_request env ms"
  shows "mset (concat (map (\<lambda>ms. map (domain_request env ms) ds) mss)) \<subseteq># sum_list (map (dues env ctx rd \<circ> fst) cs)"
proof -
  obtain zs where zs: "mset zs \<subseteq># mset cs" "list_all2 (\<lambda>ms z. (base \<circ> fst) z = line_task env (cx_conf ctx) ms) mss zs"
    by (rule submultiset_choice [OF assms(1)])
  note img = sampler_symbolsD(1) [OF assms(3)]
  have d: "dues env ctx rd td = mset (map (domain_request env ms) ds)"
    if "base td = line_task env (cx_conf ctx) ms" "ms \<in> set mss" for td ms
  proof -
    have "td_work td = td_work (base td)" "td_data td = td_data (base td)" by (simp_all add: base_def)
    then have "is_lister env td" "task_request rd td = line_request env ms"
      using request_task_fields [OF img] assms(2,5) that by (simp_all add: line_task_def task_request_def is_lister_def)
    then show ?thesis using assms(4) by (simp add: dues_def listed_def domain_request_def [abs_def])
  qed
  have "sum_list (map (dues env ctx rd \<circ> fst) zs) = mset (concat (map (\<lambda>ms. map (domain_request env ms) ds) mss))"
    using zs(2) d by (induction rule: list_all2_induct) auto
  with sum_submultiset [OF zs(1), of "dues env ctx rd \<circ> fst"] show ?thesis by simp
qed

lemma l_lines:
  assumes "l_reach G env mem syms work coll rd di L" and "x_started (cx_executor (vd_ctx di))" and "sampler_symbols env syms"
    and "list_all2 (request_line env mem) mss (accepted_lines L)"
  shows "mset (map (line_task env (cx_conf (vd_ctx di))) mss) \<subseteq># mset (map base (taken_in (sys L)))"
proof -
  note sym = sampler_symbolsD [OF assms(3)]
  have "mset (map (text_task env (cx_conf (vd_ctx di)) mem) (accepted_lines L)) \<subseteq># mset (map base (taken_in (sys L)))"
    using d_reach_linked [OF l_d_reach [OF assms(1-3)] assms(2) _ sym(2)] sym(1) by (simp add: d_linked_def)
  then show ?thesis by (simp add: text_task_lines [OF assms(4)])
qed

lemma sent_answers:
  assumes "l_reach G env mem syms work coll rd di L" and "x_started (cx_executor (vd_ctx di))" and sym: "sampler_symbols env syms"
    and "\<forall>td. td_work td = sample_domain_work_addr env \<longrightarrow> work td = {0}"
    and "mset (map (base \<circ> fst) (collected (sys L))) = mset (map base (taken_in (sys L)))"
    and "mset ys \<subseteq># mset (sent L)"
    and "\<forall>y \<in> set ys. rd (req_image env y) = y \<and> reports env (vd_ctx di) u (rs (sr_stats (rq_sr y))) y \<and> uuid_text (error_vm env y)"
    and "\<forall>n sz. calloc_ok env n sz" and "time_now env < 2 ^ 64" and "(0, True) \<in> faults"
  shows "\<exists>outss. mset (concat outss) \<subseteq># mset (daemon_output env (vd_ctx di) rd (collected (sys L))) \<and>
    list_all2 (\<lambda>y. answered env (cx_conf (vd_ctx di)) u (rs (sr_stats (rq_sr y))) y faults) ys outss"
proof (rule output_of_collected [where f = "request_task env (cx_conf (vd_ctx di)) (sample_domain_work_addr env)"])
  have "mset (map (request_task env (cx_conf (vd_ctx di)) (sample_domain_work_addr env)) ys) \<subseteq>#
      mset (map (request_task env (cx_conf (vd_ctx di)) (sample_domain_work_addr env)) (sent L))"
    using assms(6) by (simp add: image_mset_subseteq_mono)
  then show "mset (map (request_task env (cx_conf (vd_ctx di)) (sample_domain_work_addr env)) ys) \<subseteq>#
      mset (map (base \<circ> fst) (collected (sys L)))"
    using l_reach_inv [OF assms(1-3)] assms(5) by (auto simp: l_inv_def sent_inv_def intro: subset_mset.order_trans)
next
  fix y td r late
  assume a: "y \<in> set ys" "(td, r, late) \<in> set (collected (sys L))"
    "base td = request_task env (cx_conf (vd_ctx di)) (sample_domain_work_addr env) y"
  have "worked syms (listing env work UNIV) td r"
    using result_reach [OF l_linked(4) [OF assms(1-3)] assms(2)] a(2) by (fastforce simp: result_inv_def)
  moreover have "td_work td = sample_domain_work_addr env"
    using arg_cong [OF a(3), of td_work] request_task_fields [OF sampler_symbolsD(1) [OF sym]] by (simp add: base_def)
  ultimately have "r = 0"
    using assms(4) sampler_symbolsD [OF sym] by (auto simp: worked_def call_work_def listing_def is_lister_def)
  then show "answered env (cx_conf (vd_ctx di)) u (rs (sr_stats (rq_sr y))) y faults
      (task_output env (vd_ctx di) rd (td, r, late))"
    using domain_task_output [OF a(3) sym] assms(7-10) a(1) by blast
qed

lemma errors_answers:
  assumes "l_reach G env mem syms work coll rd di L" and "x_started (cx_executor (vd_ctx di))" and sym: "sampler_symbols env syms"
    and "0 \<le> fst (vir_ConnectListAllDomains env (cx_conn (vd_ctx di)) (cx_flags (vd_ctx di)))"
    and "mset ys \<subseteq># mset (map fst (errors L))"
    and "\<forall>y \<in> set ys. answerable env u (rs (sr_stats (rq_sr y))) y \<and> uuid_text (error_vm env y)"
    and "time_now env < 2 ^ 64" and "(-1, False) \<in> faults"
  shows "\<exists>outss. mset (concat outss) \<subseteq># mset (lister_output env (errors L)) \<and>
    list_all2 (\<lambda>y. answered env (cx_conf (vd_ctx di)) u (rs (sr_stats (rq_sr y))) y faults) ys outss"
proof -
  have "mset (map id ys) \<subseteq># mset (map fst (errors L))" using assms(5) by simp
  then obtain zs where zs: "mset zs \<subseteq># mset (errors L)" "list_all2 (\<lambda>y z. fst z = id y) ys zs"
    by (rule submultiset_choice)
  have "set zs \<subseteq> set (errors L)" using zs(1) by (metis set_mset_mono set_mset_mset)
  then have e: "(fst z, snd z) \<in> set (errors L)" if "z \<in> set zs" for z using that by auto
  have "snd z = -1" if "z \<in> set zs" for z
    using l_reach_errors [OF assms(1-3) e [OF that]] assms(4) by auto
  then have "answered env (cx_conf (vd_ctx di)) u (rs (sr_stats (rq_sr y))) y faults
      [written env (error_response env (fst z) (snd z) False)]" if "y \<in> set ys" "z \<in> set zs" "fst z = y" for y z
    using error_answered [of env u "rs (sr_stats (rq_sr y))" y "-1" False faults] assms(6-8) that by auto
  then have "list_all2 (\<lambda>y. answered env (cx_conf (vd_ctx di)) u (rs (sr_stats (rq_sr y))) y faults) ys
      (map (\<lambda>z. [written env (error_response env (fst z) (snd z) False)]) zs)"
    using zs(2) by (simp add: list_all2_conv_all_nth)
  moreover have "concat (map (\<lambda>z. [written env (error_response env (fst z) (snd z) False)]) zs) = lister_output env zs"
    by (induction zs) (auto simp: lister_output_def)
  moreover have "mset (lister_output env zs) \<subseteq># mset (lister_output env (errors L))"
    using zs(1) by (simp add: lister_output_def image_mset_subseteq_mono)
  ultimately show ?thesis
    by (intro exI [of _ "map (\<lambda>z. [written env (error_response env (fst z) (snd z) False)]) zs"]) simp
qed


definition env2 :: "(unit, nat) sampler_env" where
  \<comment> \<open>two domains, one record; the image of a request tells its domain\<close>
  "env2 = env0\<lparr>vir_ConnectGetAllDomainStats := (\<lambda>c st. (1, [record0])),
     req_image := (\<lambda>r. (case rq_dom r of None \<Rightarrow> 0 | Some dm \<Rightarrow> if dm = 0 then 1 else 2) # replicate 55 0)\<rparr>"

definition rd2 :: "byte list \<Rightarrow> nat VmonRequest" where
  "rd2 bs = (line_request env2 ex_members)\<lparr>rq_dom := (if hd bs = 0 then None else if hd bs = 1 then Some 0 else Some 1)\<rparr>"

lemma env2_symbols: "sampler_symbols env2 syms0"
  by (simp add: sampler_symbols_def env2_def env0_def syms0_def)


end
